(* ===== verification/Prelude.thy ===== *)
theory Prelude
  imports Main "HOL-Library.Word" "HOL-Library.Multiset" "HOL-Library.Sublist"
begin

text \<open>
  The prelude of the development: the machine types of the Go sources (\<open>byte\<close>,
  \<open>uint64\<close>, \<open>common.Hash\<close>, \<open>common.Address\<close>), byte strings and their big-endian
  reading, \<open>bytes.Compare\<close>, the sorting routines of package \<open>sort\<close>, and the
  collections of simplification rules the component theories share.

  A \<open>common.Hash\<close> and a \<open>common.Address\<close> are both \<open>[32]byte\<close> (common/types.go,
  \<open>HashLength\<close> and \<open>AddressLength\<close> are 32); the model keeps them as 256-bit words and reads
  their bytes big-endian, most significant byte first. A \<open>*big.Int\<close> is an \<open>int\<close>, or an
  \<open>int option\<close> where the code tests it for \<open>nil\<close>.
\<close>

unbundle bit_operations_syntax

section \<open>Types and rule collections\<close>

type_synonym byte = "8 word"
type_synonym bytes = "byte list"
type_synonym u8 = "8 word"
type_synonym u64 = "64 word"
type_synonym hash = "256 word"
type_synonym address = "256 word"

text \<open>The hash function \<open>crypto.Keccak256\<close> is code of golang.org/x/crypto: a parameter.\<close>

type_synonym keccak = "bytes \<Rightarrow> hash"

text \<open>
  \<open>slot_simps\<close>: what a storage read returns after a write. \<open>key_simps\<close>: equality of
  the byte strings hashed into storage slots. \<open>u64_simps\<close>: 64-bit arithmetic read as natural
  numbers.
\<close>

named_theorems slot_simps
named_theorems key_simps
named_theorems u64_simps

section \<open>Big-endian byte strings\<close>

fun be_nat :: "bytes \<Rightarrow> nat" where
  "be_nat [] = 0"
| "be_nat (b # bs) = unat b * 256 ^ length bs + be_nat bs"

fun be_bytes :: "nat \<Rightarrow> nat \<Rightarrow> bytes" where
  "be_bytes 0 n = []"
| "be_bytes (Suc k) n = be_bytes k (n div 256) @ [word_of_nat (n mod 256)]"

lemma length_be_bytes [simp]: "length (be_bytes k n) = k"
  by (induction k arbitrary: n) auto

lemma be_nat_append: "be_nat (xs @ ys) = be_nat xs * 256 ^ length ys + be_nat ys"
  by (induction xs) (auto simp: power_add algebra_simps)

lemma unat_byte_less: "unat (b :: byte) < 256"
  by (rule order_less_le_trans [OF unsigned_less]) simp

lemma be_nat_less: "be_nat bs < 256 ^ length bs"
proof (induction bs)
  case (Cons b bs)
  have "unat b \<le> 255"
    using unat_byte_less [of b] by simp
  then have "unat b * 256 ^ length bs \<le> 255 * 256 ^ length bs"
    by simp
  with Cons.IH have "unat b * 256 ^ length bs + be_nat bs < 256 * 256 ^ length bs"
    by linarith
  then show ?case by simp
qed simp

lemma be_nat_be_bytes: "n < 256 ^ k \<Longrightarrow> be_nat (be_bytes k n) = n"
proof (induction k arbitrary: n)
  case (Suc k)
  have "n div 256 < 256 ^ k"
    using Suc.prems by (simp add: less_mult_imp_div_less mult.commute)
  then have "be_nat (be_bytes k (n div 256)) = n div 256"
    by (rule Suc.IH)
  moreover have "unat (word_of_nat (n mod 256) :: byte) = n mod 256"
    by (simp add: unat_of_nat take_bit_eq_mod)
  ultimately show ?case
    by (simp add: be_nat_append)
qed simp

lemma be_bytes_be_nat: "be_bytes (length bs) (be_nat bs) = bs"
proof (induction bs rule: rev_induct)
  case (snoc b bs)
  have b: "unat b < 256"
    by (rule unat_byte_less)
  have "(be_nat bs * 256 + unat b) div 256 = be_nat bs"
    and "(be_nat bs * 256 + unat b) mod 256 = unat b"
    using b by simp_all
  then show ?case
    using snoc.IH by (simp add: be_nat_append)
qed simp

lemma be_nat_inject: "length xs = length ys \<Longrightarrow> be_nat xs = be_nat ys \<longleftrightarrow> xs = ys"
  by (metis be_bytes_be_nat)

lemma be_bytes_inject: "m < 256 ^ k \<Longrightarrow> n < 256 ^ k \<Longrightarrow> be_bytes k m = be_bytes k n \<longleftrightarrow> m = n"
  by (metis be_nat_be_bytes)

section \<open>Hashes, addresses and 64-bit integers as bytes\<close>

definition hash_bytes :: "hash \<Rightarrow> bytes" where
  "hash_bytes h = be_bytes 32 (unat h)"

definition BytesToHash :: "bytes \<Rightarrow> hash" where
  "BytesToHash b = word_of_nat (be_nat (drop (length b - 32) b))"

definition addr_bytes :: "address \<Rightarrow> bytes" where
  "addr_bytes a = be_bytes 32 (unat a)"

definition BytesToAddress :: "bytes \<Rightarrow> address" where
  "BytesToAddress b = word_of_nat (be_nat (drop (length b - 32) b))"

text \<open>\<open>binary.BigEndian.PutUint64\<close> into an eight byte buffer.\<close>

definition u64_bytes :: "u64 \<Rightarrow> bytes" where
  "u64_bytes n = be_bytes 8 (unat n)"

definition str_bytes :: "string \<Rightarrow> bytes" where
  "str_bytes s = map of_char s"

lemma unat_of_nat_small: "n < 2 ^ LENGTH('a) \<Longrightarrow> unat (word_of_nat n :: 'a::len word) = n"
  by (simp add: unat_of_nat take_bit_nat_eq_self)

lemma unat_hash_less: "unat (h :: 256 word) < 256 ^ 32"
  by (rule order_less_le_trans [OF unsigned_less]) simp

lemma unat_u64_less: "unat (n :: 64 word) < 256 ^ 8"
  by (rule order_less_le_trans [OF unsigned_less]) simp

lemma length_hash_bytes [simp]: "length (hash_bytes h) = 32"
  by (simp add: hash_bytes_def)

lemma length_addr_bytes [simp]: "length (addr_bytes a) = 32"
  by (simp add: addr_bytes_def)

lemma length_u64_bytes [simp]: "length (u64_bytes n) = 8"
  by (simp add: u64_bytes_def)

lemma length_str_bytes [simp]: "length (str_bytes s) = length s"
  by (simp add: str_bytes_def)

lemma addr_bytes_inject [key_simps]: "addr_bytes a = addr_bytes b \<longleftrightarrow> a = b"
  by (simp add: addr_bytes_def be_bytes_inject [OF unat_hash_less unat_hash_less] word_unat_eq_iff)

lemma hash_bytes_inject [key_simps]: "hash_bytes a = hash_bytes b \<longleftrightarrow> a = b"
  by (simp add: hash_bytes_def be_bytes_inject [OF unat_hash_less unat_hash_less] word_unat_eq_iff)

lemma u64_bytes_inject [key_simps]: "u64_bytes m = u64_bytes n \<longleftrightarrow> m = n"
  by (simp add: u64_bytes_def be_bytes_inject [OF unat_u64_less unat_u64_less] word_unat_eq_iff)

lemma str_bytes_inject [key_simps]: "str_bytes s = str_bytes t \<longleftrightarrow> s = t"
proof -
  have unat_of_char: "unat (of_char c :: byte) = of_char c" for c
    using unat_of_nat_small [of "of_char c", where 'a = 8] nat_of_char_less_256 [of c]
    by (simp add: of_nat_of_char)
  have "inj (of_char :: char \<Rightarrow> byte)"
  proof (rule injI)
    fix c d :: char
    assume "(of_char c :: byte) = of_char d"
    then have "unat (of_char c :: byte) = unat (of_char d :: byte)"
      by simp
    then show "c = d" by (simp add: unat_of_char)
  qed
  then show ?thesis
    by (simp add: str_bytes_def inj_map_eq_map)
qed

lemma BytesToHash_hash_bytes [simp]: "BytesToHash (hash_bytes h) = h"
  by (simp add: BytesToHash_def hash_bytes_def be_nat_be_bytes [OF unat_hash_less])

lemma BytesToAddress_addr_bytes [simp]: "BytesToAddress (addr_bytes a) = a"
  by (simp add: BytesToAddress_def addr_bytes_def be_nat_be_bytes [OF unat_hash_less])

lemma addr_bytes_BytesToAddress: "length b = 32 \<Longrightarrow> addr_bytes (BytesToAddress b) = b"
proof -
  assume len: "length b = 32"
  have "be_nat b < 2 ^ 256"
    using be_nat_less [of b] len by simp
  then have "unat (word_of_nat (be_nat b) :: address) = be_nat b"
    by (simp add: unat_of_nat_small)
  then show ?thesis
    using len be_bytes_be_nat [of b] by (simp add: addr_bytes_def BytesToAddress_def)
qed

lemma hash_bytes_BytesToHash: "length b = 32 \<Longrightarrow> hash_bytes (BytesToHash b) = b"
  using addr_bytes_BytesToAddress [of b]
  by (simp add: hash_bytes_def BytesToHash_def addr_bytes_def BytesToAddress_def)

section \<open>bytes.Compare\<close>

fun bytes_compare :: "bytes \<Rightarrow> bytes \<Rightarrow> int" where
  "bytes_compare [] [] = 0"
| "bytes_compare [] (y # ys) = -1"
| "bytes_compare (x # xs) [] = 1"
| "bytes_compare (x # xs) (y # ys) =
     (if x < y then -1 else if y < x then 1 else bytes_compare xs ys)"

lemma head_less_be_nat:
  assumes "length xs = length ys" and "(x :: byte) < y"
  shows "be_nat (x # xs) < be_nat (y # ys)"
proof -
  have "unat x + 1 \<le> unat y"
    using assms(2) by (simp add: word_less_nat_alt)
  then have "(unat x + 1) * 256 ^ length xs \<le> unat y * 256 ^ length xs"
    by (rule mult_le_mono1)
  moreover have "be_nat xs < 256 ^ length xs"
    by (rule be_nat_less)
  ultimately show ?thesis
    using assms(1) by (simp add: algebra_simps)
qed

lemma bytes_compare_neg_iff:
  "length xs = length ys \<Longrightarrow> bytes_compare xs ys < 0 \<longleftrightarrow> be_nat xs < be_nat ys"
proof (induction xs ys rule: bytes_compare.induct)
  case (4 x xs y ys)
  then have len: "length xs = length ys" by simp
  show ?case
  proof (cases x y rule: linorder_cases)
    case less
    then show ?thesis using head_less_be_nat [OF len less] by simp
  next
    case equal
    then show ?thesis using 4 len by simp
  next
    case greater
    then have "be_nat (y # ys) < be_nat (x # xs)"
      using head_less_be_nat len by metis
    then show ?thesis using greater by auto
  qed
qed auto

lemma bytes_compare_zero_iff: "length xs = length ys \<Longrightarrow> bytes_compare xs ys = 0 \<longleftrightarrow> xs = ys"
  by (induction xs ys rule: bytes_compare.induct) auto

text \<open>Comparing the bytes of two addresses is comparing them as unsigned 256-bit words.\<close>

lemma addr_compare_less [simp]: "bytes_compare (addr_bytes a) (addr_bytes b) < 0 \<longleftrightarrow> a < b"
  by (simp add: bytes_compare_neg_iff addr_bytes_def be_nat_be_bytes [OF unat_hash_less]
      word_less_nat_alt)

lemma addr_compare_ge [simp]: "0 \<le> bytes_compare (addr_bytes a) (addr_bytes b) \<longleftrightarrow> b \<le> a"
  by (metis addr_compare_less not_less)

lemma hash_compare_less [simp]: "bytes_compare (hash_bytes a) (hash_bytes b) < 0 \<longleftrightarrow> a < b"
  by (simp add: bytes_compare_neg_iff hash_bytes_def be_nat_be_bytes [OF unat_hash_less]
      word_less_nat_alt)

lemma hash_compare_zero [simp]: "bytes_compare (hash_bytes a) (hash_bytes b) = 0 \<longleftrightarrow> a = b"
  by (simp add: bytes_compare_zero_iff key_simps)

section \<open>Stable sorting by a comparison\<close>

text \<open>
  \<open>sort.SliceStable\<close> and, where equal elements cannot be told apart, \<open>sort.Sort\<close> and
  \<open>sort.Slice\<close>: an insertion sort that keeps equal elements in their order.
\<close>

fun insert_by :: "('a \<Rightarrow> 'a \<Rightarrow> bool) \<Rightarrow> 'a \<Rightarrow> 'a list \<Rightarrow> 'a list" where
  "insert_by lt x [] = [x]"
| "insert_by lt x (y # ys) = (if lt y x then y # insert_by lt x ys else x # y # ys)"

definition sort_by :: "('a \<Rightarrow> 'a \<Rightarrow> bool) \<Rightarrow> 'a list \<Rightarrow> 'a list" where
  "sort_by lt xs = foldr (insert_by lt) xs []"

lemma mset_insert_by [simp]: "mset (insert_by lt x xs) = add_mset x (mset xs)"
  by (induction xs) auto

lemma mset_sort_by [simp]: "mset (sort_by lt xs) = mset xs"
  unfolding sort_by_def by (induction xs) auto

lemma set_insert_by [simp]: "set (insert_by lt x xs) = insert x (set xs)"
  by (induction xs) auto

lemma set_sort_by [simp]: "set (sort_by lt xs) = set xs"
  by (metis mset_sort_by set_mset_mset)

lemma length_sort_by [simp]: "length (sort_by lt xs) = length xs"
  by (metis mset_sort_by size_mset)

lemma distinct_sort_by [simp]: "distinct (sort_by lt xs) \<longleftrightarrow> distinct xs"
  by (metis mset_eq_imp_distinct_iff mset_sort_by)

lemma concat_map_if: "concat (map (\<lambda>a. if P a then [f a] else []) xs) = map f (filter P xs)"
  by (induction xs) auto

text \<open>The comparison is a strict weak order: the contract package \<open>sort\<close> asks of its callers.\<close>

locale strict_weak_order =
  fixes lt :: "'a \<Rightarrow> 'a \<Rightarrow> bool"
  assumes asym: "lt x y \<Longrightarrow> \<not> lt y x"
    and neg_trans: "\<not> lt x y \<Longrightarrow> \<not> lt y z \<Longrightarrow> \<not> lt x z"
begin

lemma sorted_insert_by:
  "sorted_wrt (\<lambda>x y. \<not> lt y x) xs \<Longrightarrow> sorted_wrt (\<lambda>x y. \<not> lt y x) (insert_by lt x xs)"
proof (induction xs)
  case (Cons y ys)
  show ?case
  proof (cases "lt y x")
    case True
    with Cons show ?thesis by (auto dest: asym)
  next
    case False
    with Cons.prems show ?thesis by (auto dest: neg_trans)
  qed
qed simp

lemma sorted_sort_by: "sorted_wrt (\<lambda>x y. \<not> lt y x) (sort_by lt xs)"
  unfolding sort_by_def by (induction xs) (auto intro: sorted_insert_by)

text \<open>Cutting a sorted list keeps the front: nothing that was cut precedes anything kept.\<close>

lemma take_sort_by_front:
  assumes "x \<in> set (take n (sort_by lt xs))" and "y \<in> set (drop n (sort_by lt xs))"
  shows "\<not> lt y x"
proof -
  have "sorted_wrt (\<lambda>x y. \<not> lt y x)
    (take n (sort_by lt xs) @ drop n (sort_by lt xs))"
    using sorted_sort_by by simp
  with assms show ?thesis
    unfolding sorted_wrt_append by blast
qed

end

interpretation addr_order: strict_weak_order "\<lambda>a b. bytes_compare (addr_bytes a) (addr_bytes b) < 0"
proof unfold_locales
  fix x y z :: address
  show "\<not> bytes_compare (addr_bytes y) (addr_bytes x) < 0"
    if "bytes_compare (addr_bytes x) (addr_bytes y) < 0"
    using that unfolding addr_compare_less by simp
  show "\<not> bytes_compare (addr_bytes x) (addr_bytes z) < 0"
    if "\<not> bytes_compare (addr_bytes x) (addr_bytes y) < 0"
      and "\<not> bytes_compare (addr_bytes y) (addr_bytes z) < 0"
    using that unfolding addr_compare_less not_less by (rule order_trans [rotated])
qed

text \<open>\<open>sort.Sort(addressAscending(...))\<close>.\<close>

definition addr_sort :: "address list \<Rightarrow> address list" where
  "addr_sort as = sort_by (\<lambda>a b. bytes_compare (addr_bytes a) (addr_bytes b) < 0) as"

lemma mset_addr_sort [simp]: "mset (addr_sort as) = mset as"
  by (simp add: addr_sort_def)

lemma sorted_addr_sort [simp]: "sorted (addr_sort as)"
  using addr_order.sorted_sort_by [of as] by (simp add: addr_sort_def not_less)

lemma addr_sort_eq_sort: "addr_sort as = sort as"
  by (rule properties_for_sort [symmetric]) simp_all

lemma set_addr_sort [simp]: "set (addr_sort as) = set as"
  and length_addr_sort [simp]: "length (addr_sort as) = length as"
  and distinct_addr_sort [simp]: "distinct (addr_sort as) = distinct as"
  by (simp_all add: addr_sort_eq_sort)

lemma addr_sort_idem: "sorted as \<Longrightarrow> addr_sort as = as"
  by (simp add: addr_sort_eq_sort sorted_sort_id)

lemma strictly_sorted_addr_sort: "distinct as \<Longrightarrow> sorted_wrt (<) (addr_sort as)"
  by (simp add: strict_sorted_iff)

section \<open>Collision-free hashing of a set of keys\<close>

text \<open>
  Storage slots are \<open>Keccak256\<close> of a key. What a component relies on is that the keys it
  uses do not collide. For every finite list of keys there is a function with that property, so
  the hypothesis is never empty.
\<close>

definition no_collision :: "keccak \<Rightarrow> bytes set \<Rightarrow> bool" where
  "no_collision kh K \<longleftrightarrow> inj_on kh K"

lemma no_collision_eq: "no_collision kh K \<Longrightarrow> x \<in> K \<Longrightarrow> y \<in> K \<Longrightarrow> kh x = kh y \<longleftrightarrow> x = y"
  by (auto simp: no_collision_def dest: inj_onD)

lemma no_collision_mono: "no_collision kh K \<Longrightarrow> J \<subseteq> K \<Longrightarrow> no_collision kh J"
  by (auto simp: no_collision_def intro: inj_on_subset)

definition key_index_hash :: "bytes list \<Rightarrow> keccak" where
  "key_index_hash ks b = word_of_nat (length (takeWhile (\<lambda>k. k \<noteq> b) ks))"

lemma takeWhile_neq_nth:
  "x \<in> set ks \<Longrightarrow> length (takeWhile (\<lambda>k. k \<noteq> x) ks) < length ks \<and>
    ks ! length (takeWhile (\<lambda>k. k \<noteq> x) ks) = x"
  by (induction ks) auto

lemma no_collision_key_index_hash:
  assumes "length ks < 2 ^ 256" and "K \<subseteq> set ks"
  shows "no_collision (key_index_hash ks) K"
  unfolding no_collision_def
proof (rule inj_onI)
  fix x y
  let ?i = "\<lambda>z. length (takeWhile (\<lambda>k. k \<noteq> z) ks)"
  assume xy: "x \<in> K" "y \<in> K" and eq: "key_index_hash ks x = key_index_hash ks y"
  have i: "?i z < length ks \<and> ks ! ?i z = z" if "z \<in> K" for z
    using that assms(2) by (intro takeWhile_neq_nth) (rule subsetD)
  have "unat (key_index_hash ks z) = ?i z" if "z \<in> K" for z
    unfolding key_index_hash_def using i [OF that] assms(1)
    by (intro unat_of_nat_small) simp
  with xy eq have "?i x = ?i y" by metis
  with i [OF xy(1)] i [OF xy(2)] show "x = y" by metis
qed

section \<open>64-bit arithmetic\<close>

lemma u64_add_nowrap [u64_simps]:
  "unat (a :: u64) + unat b < 2 ^ 64 \<Longrightarrow> unat (a + b) = unat a + unat b"
  by (simp add: unat_word_ariths)

lemma u64_Suc_nowrap: "unat (a :: u64) + 1 < 2 ^ 64 \<Longrightarrow> unat (a + 1) = unat a + 1"
  by (simp add: unat_word_ariths)

lemma u64_sub_nowrap [u64_simps]: "(b :: u64) \<le> a \<Longrightarrow> unat (a - b) = unat a - unat b"
  by (simp add: unat_sub)

lemma u64_less_2p64: "unat (a :: u64) < 2 ^ 64"
  by (rule order_less_le_trans [OF unsigned_less]) simp

end
