(* ===== verification/Params.thy ===== *)
theory Params
  imports Prelude
begin

text \<open>
  Protocol parameters: the constants of params/tos_params.go and params/protocol_params.go
  that the other components use, \<open>ChainConfig\<close> and \<open>DPoSConfig\<close> of params/config.go
  with their accessor and validation methods, and the configuration compatibility check a node
  runs before it opens an existing database. A \<open>nil\<close> pointer is \<open>None\<close>; configuration
  strings are taken to be ASCII.
\<close>

section \<open>Constants\<close>

definition SystemActionAddress :: address where
  "SystemActionAddress = 0x01"

definition ValidatorRegistryAddress :: address where
  "ValidatorRegistryAddress = 0x03"

definition PrivacyRouterAddress :: address where
  "PrivacyRouterAddress = 0x04"

definition LVMSerialAddress :: address where
  "LVMSerialAddress = 0x05"

definition AgentRegistryAddress :: address where
  "AgentRegistryAddress = 0x101"

definition CapabilityRegistryAddress :: address where
  "CapabilityRegistryAddress = 0x102"

definition TaskSchedulerAddress :: address where
  "TaskSchedulerAddress = 0x108"

definition CheckpointSlashIndicatorAddress :: address where
  "CheckpointSlashIndicatorAddress = 0x109"

definition SponsorRegistryAddress :: address where
  "SponsorRegistryAddress = 0x110"

definition LeaseRegistryAddress :: address where
  "LeaseRegistryAddress = 0x10B"

definition DPoSMinValidatorStake :: int where
  "DPoSMinValidatorStake = 10000000 * 1000000000000000000"

definition DPoSBlockReward :: int where
  "DPoSBlockReward = 2 * 1000000000000000000"

definition AgentMinStake :: int where
  "AgentMinStake = 1000 * 1000000000000000000"

definition TxPriceTomi :: int where
  "TxPriceTomi = 10000000000"

definition SysActionGas :: u64 where
  "SysActionGas = 100000"

definition DPoSEpochLength :: u64 where
  "DPoSEpochLength = 1664"

definition DPoSMaintenanceMaxBlocks :: u64 where
  "DPoSMaintenanceMaxBlocks = 240000"

definition MinGasLimit :: u64 where
  "MinGasLimit = 5000"

definition MaxGasLimit :: u64 where
  "MaxGasLimit = 0x7fffffffffffffff"

definition GasLimitBoundDivisor :: u64 where
  "GasLimitBoundDivisor = 1024"

text \<open>\<open>big.Int.Uint64\<close>: the low 64 bits of the absolute value.\<close>

definition big_Uint64 :: "int \<Rightarrow> u64" where
  "big_Uint64 x = word_of_int \<bar>x\<bar>"

lemma big_Uint64_uint [simp]: "big_Uint64 (uint (n :: u64)) = n"
  by (simp add: big_Uint64_def)

lemma unat_big_Uint64: "0 \<le> x \<Longrightarrow> x < 2 ^ 64 \<Longrightarrow> int (unat (big_Uint64 x)) = x"
  by (simp add: big_Uint64_def unsigned_of_int take_bit_int_eq_self)

section \<open>DPoSConfig\<close>

record DPoSConfig =
  PeriodMs :: u64
  Epoch :: u64
  MaxValidators :: u64
  RecentSignerWindow :: u64
  TurnLength :: u64
  SealSignerType :: string
  MaintenanceMaxBlocks :: u64
  CheckpointInterval :: u64
  CheckpointFinalityBlock :: "int option"

record ChainConfig =
  ChainID :: "int option"
  ProtocolForks :: "u64 list"
  DPoS :: "DPoSConfig option"

datatype config_error =
    ErrUnsupportedSealSignerType
  | ErrMaxValidatorsOver64
  | ErrTurnLengthMissing
  | ErrEpochZero
  | ErrTurnLengthExceedsEpoch
  | ErrEpochNotDivisible
  | ErrMaintenanceMaxBlocksZero
  | ErrMissingConfig
  | ErrPeriodZero
  | ErrMaxValidatorsZero

text \<open>\<open>strings.TrimSpace\<close> and \<open>strings.ToLower\<close> on ASCII strings.\<close>

definition is_space :: "char \<Rightarrow> bool" where
  "is_space c \<longleftrightarrow> (of_char c :: nat) \<in> {9, 10, 11, 12, 13, 32}"

definition TrimSpace :: "string \<Rightarrow> string" where
  "TrimSpace s = rev (dropWhile is_space (rev (dropWhile is_space s)))"

definition to_lower_char :: "char \<Rightarrow> char" where
  "to_lower_char c =
     (if 65 \<le> (of_char c :: nat) \<and> (of_char c :: nat) \<le> 90 then char_of ((of_char c :: nat) + 32) else c)"

definition ToLower :: "string \<Rightarrow> string" where
  "ToLower s = map to_lower_char s"

definition DPoSSealSignerTypeEd25519 :: string where
  "DPoSSealSignerTypeEd25519 = ''ed25519''"

definition NormalizeDPoSSealSignerType :: "string \<Rightarrow> config_error + string" where
  "NormalizeDPoSSealSignerType signerType =
     (let t = ToLower (TrimSpace signerType) in
      if t = '''' \<or> t = DPoSSealSignerTypeEd25519 then Inr DPoSSealSignerTypeEd25519
      else Inl ErrUnsupportedSealSignerType)"

definition TargetBlockPeriodMs :: "DPoSConfig option \<Rightarrow> u64" where
  "TargetBlockPeriodMs c = (case c of None \<Rightarrow> 0 | Some cfg \<Rightarrow> PeriodMs cfg)"

definition RecentSignerWindowSize :: "DPoSConfig option \<Rightarrow> nat \<Rightarrow> u64" where
  "RecentSignerWindowSize c validators =
     (if validators = 0 then 1
      else if (case c of None \<Rightarrow> False | Some cfg \<Rightarrow> RecentSignerWindow cfg > 0)
      then RecentSignerWindow (the c)
      else
        let turnLength = (case c of None \<Rightarrow> 1
              | Some cfg \<Rightarrow> if TurnLength cfg > 0 then TurnLength cfg else 1)
        in (word_of_nat (validators div 2) + 1) * turnLength - 1)"

definition MaintenanceMaxBlocksEffective :: "DPoSConfig option \<Rightarrow> u64" where
  "MaintenanceMaxBlocksEffective c =
     (case c of
        Some cfg \<Rightarrow> if MaintenanceMaxBlocks cfg > 0 then MaintenanceMaxBlocks cfg
                   else DPoSMaintenanceMaxBlocks
      | None \<Rightarrow> DPoSMaintenanceMaxBlocks)"

definition IsCheckpointFinality :: "DPoSConfig option \<Rightarrow> int option \<Rightarrow> bool" where
  "IsCheckpointFinality c num =
     (case c of None \<Rightarrow> False
      | Some cfg \<Rightarrow>
         (case CheckpointFinalityBlock cfg of None \<Rightarrow> False
          | Some b \<Rightarrow> (case num of None \<Rightarrow> False | Some n \<Rightarrow> n \<ge> b)))"

definition FirstEligibleCheckpoint :: "DPoSConfig option \<Rightarrow> u64" where
  "FirstEligibleCheckpoint c =
     (case c of None \<Rightarrow> 0
      | Some cfg \<Rightarrow>
         (case CheckpointFinalityBlock cfg of None \<Rightarrow> 0
          | Some b \<Rightarrow>
              if CheckpointInterval cfg = 0 then 0
              else
                let base = big_Uint64 b; k = CheckpointInterval cfg; r = base mod k
                in if r = 0 then base else base + (k - r)))"

text \<open>The validation methods write defaults back into the configuration they check.\<close>

definition ValidateCheckpointConfig :: "DPoSConfig \<Rightarrow> config_error + DPoSConfig" where
  "ValidateCheckpointConfig c =
     (if CheckpointFinalityBlock c = None then Inr c
      else if MaxValidators c > 64 then Inl ErrMaxValidatorsOver64
      else if CheckpointInterval c = 0 then Inr (c\<lparr>CheckpointInterval := 200\<rparr>)
      else Inr c)"

definition ValidateTurnLengthConfig :: "DPoSConfig \<Rightarrow> config_error + unit" where
  "ValidateTurnLengthConfig c =
     (if TurnLength c = 0 then Inl ErrTurnLengthMissing
      else if Epoch c = 0 then Inl ErrEpochZero
      else if TurnLength c > Epoch c then Inl ErrTurnLengthExceedsEpoch
      else if Epoch c mod TurnLength c \<noteq> 0 then Inl ErrEpochNotDivisible
      else Inr ())"

definition ValidateMaintenanceConfig :: "DPoSConfig \<Rightarrow> config_error + DPoSConfig" where
  "ValidateMaintenanceConfig c =
     (let c' = (if MaintenanceMaxBlocks c = 0
                then c\<lparr>MaintenanceMaxBlocks := DPoSMaintenanceMaxBlocks\<rparr> else c)
      in if MaintenanceMaxBlocks c' = 0 then Inl ErrMaintenanceMaxBlocksZero else Inr c')"

definition normalizedCheckpointCompatibility :: "DPoSConfig option \<Rightarrow> u64 \<times> int option" where
  "normalizedCheckpointCompatibility c =
     (case c of None \<Rightarrow> (0, None)
      | Some cfg \<Rightarrow>
         (case CheckpointFinalityBlock cfg of None \<Rightarrow> (0, None)
          | Some b \<Rightarrow>
              (if CheckpointInterval cfg = 0 then 200 else CheckpointInterval cfg, Some b)))"

section \<open>Configuration compatibility\<close>

record ConfigCompatError =
  What :: string
  StoredConfig :: "int option"
  NewConfig :: "int option"
  RewindTo :: u64
  Fatal :: bool

fun appliedProtocolForks :: "u64 list \<Rightarrow> u64 \<Rightarrow> u64 list" where
  "appliedProtocolForks [] head = []"
| "appliedProtocolForks (fork # forks) head =
     (if fork > head then [] else fork # appliedProtocolForks forks head)"

text \<open>The index loop up to the longer length, as simultaneous recursion on both slices.\<close>

fun firstProtocolForkMismatch :: "u64 list \<Rightarrow> u64 list \<Rightarrow> int option \<times> int option" where
  "firstProtocolForkMismatch [] [] = (None, None)"
| "firstProtocolForkMismatch (s # ss) [] = (Some (uint s), None)"
| "firstProtocolForkMismatch [] (u # us) = (None, Some (uint u))"
| "firstProtocolForkMismatch (s # ss) (u # us) =
     (if uint s \<noteq> uint u then (Some (uint s), Some (uint u))
      else firstProtocolForkMismatch ss us)"

definition configNumEqual :: "int option \<Rightarrow> int option \<Rightarrow> bool" where
  "configNumEqual x y =
     (case x of None \<Rightarrow> y = None
      | Some a \<Rightarrow> (case y of None \<Rightarrow> False | Some b \<Rightarrow> a = b))"

lemma configNumEqual_iff: "configNumEqual x y \<longleftrightarrow> x = y"
  by (auto simp: configNumEqual_def split: option.splits)

definition newCompatError :: "string \<Rightarrow> int option \<Rightarrow> int option \<Rightarrow> ConfigCompatError" where
  "newCompatError what storedblock newblock =
     (let rew = (case storedblock of
            None \<Rightarrow> newblock
          | Some s \<Rightarrow> (case newblock of
                None \<Rightarrow> storedblock
              | Some n \<Rightarrow> if s < n then storedblock else newblock))
      in \<lparr>What = what, StoredConfig = storedblock, NewConfig = newblock,
          RewindTo = (case rew of None \<Rightarrow> 0
            | Some r \<Rightarrow> if r > 0 then big_Uint64 r - 1 else 0),
          Fatal = False\<rparr>)"

definition fatal_mismatch :: "string \<Rightarrow> int option \<Rightarrow> int option \<Rightarrow> ConfigCompatError" where
  "fatal_mismatch what s n =
     \<lparr>What = what, StoredConfig = s, NewConfig = n, RewindTo = 0, Fatal = True\<rparr>"

text \<open>The DPoS block of \<open>checkCompatible\<close>, for two configurations that are both present.\<close>

definition checkDPoSCompatible :: "DPoSConfig \<Rightarrow> DPoSConfig \<Rightarrow> ConfigCompatError option" where
  "checkDPoSCompatible c n =
     (if Epoch c \<noteq> Epoch n
      then Some (fatal_mismatch ''DPoS epoch'' (Some (uint (Epoch c))) (Some (uint (Epoch n))))
      else if TargetBlockPeriodMs (Some c) \<noteq> TargetBlockPeriodMs (Some n)
      then Some (fatal_mismatch ''DPoS periodMs''
        (Some (uint (TargetBlockPeriodMs (Some c)))) (Some (uint (TargetBlockPeriodMs (Some n)))))
      else if MaxValidators c \<noteq> MaxValidators n
      then Some (fatal_mismatch ''DPoS maxValidators''
        (Some (uint (MaxValidators c))) (Some (uint (MaxValidators n))))
      else if RecentSignerWindow c \<noteq> RecentSignerWindow n
      then Some (fatal_mismatch ''DPoS recentSignerWindow''
        (Some (uint (RecentSignerWindow c))) (Some (uint (RecentSignerWindow n))))
      else if MaintenanceMaxBlocksEffective (Some c) \<noteq> MaintenanceMaxBlocksEffective (Some n)
      then Some (fatal_mismatch ''DPoS maintenanceMaxBlocks''
        (Some (uint (MaintenanceMaxBlocksEffective (Some c))))
        (Some (uint (MaintenanceMaxBlocksEffective (Some n)))))
      else if TurnLength c \<noteq> TurnLength n
      then Some (fatal_mismatch ''DPoS turnLength''
        (Some (uint (TurnLength c))) (Some (uint (TurnLength n))))
      else if (case (NormalizeDPoSSealSignerType (SealSignerType c),
                     NormalizeDPoSSealSignerType (SealSignerType n)) of
                 (Inr a, Inr b) \<Rightarrow> a \<noteq> b | _ \<Rightarrow> True)
      then Some (fatal_mismatch ''DPoS sealSignerType'' None None)
      else if fst (normalizedCheckpointCompatibility (Some c))
              \<noteq> fst (normalizedCheckpointCompatibility (Some n))
      then Some (fatal_mismatch ''DPoS checkpointInterval''
        (Some (uint (fst (normalizedCheckpointCompatibility (Some c)))))
        (Some (uint (fst (normalizedCheckpointCompatibility (Some n))))))
      else if \<not> configNumEqual (snd (normalizedCheckpointCompatibility (Some c)))
                              (snd (normalizedCheckpointCompatibility (Some n)))
      then Some (fatal_mismatch ''DPoS checkpointFinalityBlock''
        (snd (normalizedCheckpointCompatibility (Some c)))
        (snd (normalizedCheckpointCompatibility (Some n))))
      else None)"

definition checkProtocolForks :: "ChainConfig \<Rightarrow> ChainConfig \<Rightarrow> u64 \<Rightarrow> ConfigCompatError option" where
  "checkProtocolForks c newcfg head =
     (case firstProtocolForkMismatch (appliedProtocolForks (ProtocolForks c) head)
             (appliedProtocolForks (ProtocolForks newcfg) head) of
        (None, None) \<Rightarrow> None
      | (s, n) \<Rightarrow> Some (newCompatError ''protocolForks'' s n))"

definition checkCompatible :: "ChainConfig \<Rightarrow> ChainConfig \<Rightarrow> u64 \<Rightarrow> ConfigCompatError option" where
  "checkCompatible c newcfg head =
     (if \<not> configNumEqual (ChainID c) (ChainID newcfg)
      then Some \<lparr>What = ''chain ID'', StoredConfig = ChainID c, NewConfig = ChainID newcfg,
                 RewindTo = 0, Fatal = False\<rparr>
      else case (DPoS c, DPoS newcfg) of
        (Some d, Some e) \<Rightarrow>
          (case checkDPoSCompatible d e of
             Some err \<Rightarrow> Some err
           | None \<Rightarrow> checkProtocolForks c newcfg head)
      | (None, None) \<Rightarrow> checkProtocolForks c newcfg head
      | _ \<Rightarrow> Some (fatal_mismatch ''DPoS config presence'' None None))"

text \<open>
  A reported conflict never asks to rewind above the head that was checked, and strictly below
  it unless the height is 0. This is what makes the loop of \<open>CheckCompatible\<close> end.
\<close>

lemma appliedProtocolForks_le: "f \<in> set (appliedProtocolForks forks head) \<Longrightarrow> f \<le> head"
  by (induction forks) (auto split: if_splits)

lemma firstProtocolForkMismatch_mem:
  "firstProtocolForkMismatch ss us = (s, u) \<Longrightarrow>
    (\<forall>x. s = Some x \<longrightarrow> x \<in> uint ` set ss) \<and> (\<forall>x. u = Some x \<longrightarrow> x \<in> uint ` set us)"
  by (induction ss us rule: firstProtocolForkMismatch.induct) (auto split: if_splits)

lemma RewindTo_newCompatError:
  assumes "\<forall>x. s = Some x \<longrightarrow> (\<exists>f \<le> head. x = uint f)"
    and "\<forall>x. u = Some x \<longrightarrow> (\<exists>f \<le> head. x = uint f)"
  shows "RewindTo (newCompatError what s u) = 0 \<or> RewindTo (newCompatError what s u) < head"
proof -
  have step: "(if 0 < uint f then big_Uint64 (uint f) - 1 else 0) = 0 \<or>
      (if 0 < uint f then big_Uint64 (uint f) - 1 else 0) < head" if "f \<le> head" for f :: u64
  proof (cases "f = 0")
    case False
    then have "f - 1 < f" by (simp add: word_less_nat_alt unat_minus_one unat_gt_0)
    with that show ?thesis by auto
  qed simp
  show ?thesis
    using assms step by (fastforce simp: newCompatError_def Let_def split: option.splits)
qed

lemma RewindTo_checkProtocolForks:
  "checkProtocolForks c n head = Some err \<Longrightarrow> RewindTo err = 0 \<or> RewindTo err < head"
proof -
  assume err: "checkProtocolForks c n head = Some err"
  obtain s u where su: "firstProtocolForkMismatch (appliedProtocolForks (ProtocolForks c) head)
      (appliedProtocolForks (ProtocolForks n) head) = (s, u)" by fastforce
  from firstProtocolForkMismatch_mem [OF su] appliedProtocolForks_le
  have "\<forall>x. s = Some x \<longrightarrow> (\<exists>f \<le> head. x = uint f)"
    and "\<forall>x. u = Some x \<longrightarrow> (\<exists>f \<le> head. x = uint f)" by fast+
  then have "RewindTo (newCompatError ''protocolForks'' s u) = 0 \<or>
      RewindTo (newCompatError ''protocolForks'' s u) < head"
    by (rule RewindTo_newCompatError)
  moreover have "err = newCompatError ''protocolForks'' s u"
    using err su by (auto simp: checkProtocolForks_def split: option.splits)
  ultimately show ?thesis by simp
qed

lemma fatal_mismatch_RewindTo: "RewindTo (fatal_mismatch w s n) = 0 \<and> Fatal (fatal_mismatch w s n)"
  by (simp add: fatal_mismatch_def)

lemma RewindTo_checkDPoSCompatible:
  assumes "checkDPoSCompatible c n = Some err"
  shows "RewindTo err = 0 \<and> Fatal err"
proof -
  have "pred_option (\<lambda>e. RewindTo e = 0 \<and> Fatal e) (checkDPoSCompatible c n)"
    unfolding checkDPoSCompatible_def
    by (simp only: if_distrib [of "pred_option _"] option.pred_inject fatal_mismatch_RewindTo if_cancel
        simp_thms)
  with assms show ?thesis by simp
qed

lemma RewindTo_checkCompatible:
  assumes "checkCompatible c n head = Some err"
  shows "RewindTo err = 0 \<or> RewindTo err < head"
proof (cases "configNumEqual (ChainID c) (ChainID n)")
  case False
  with assms show ?thesis by (auto simp: checkCompatible_def)
next
  case True
  note [simp] = checkCompatible_def True fatal_mismatch_RewindTo
  show ?thesis
  proof (cases "DPoS c")
    case None
    with assms show ?thesis
      by (cases "DPoS n") (auto dest: RewindTo_checkProtocolForks)
  next
    case (Some d)
    with assms show ?thesis
      by (cases "DPoS n")
        (auto dest: RewindTo_checkProtocolForks RewindTo_checkDPoSCompatible split: option.splits)
  qed
qed

function checkCompatibleLoop ::
  "ChainConfig \<Rightarrow> ChainConfig \<Rightarrow> u64 \<Rightarrow> ConfigCompatError option \<Rightarrow> ConfigCompatError option" where
  "checkCompatibleLoop c n head lasterr =
     (case checkCompatible c n head of
        None \<Rightarrow> lasterr
      | Some err \<Rightarrow>
          if (case lasterr of None \<Rightarrow> False | Some l \<Rightarrow> RewindTo err = RewindTo l) then lasterr
          else checkCompatibleLoop c n (RewindTo err) (Some err))"
  by pat_completeness auto
termination
proof (relation "measure (\<lambda>(c, n, head, lasterr). 2 * unat head +
    (case lasterr of None \<Rightarrow> 2 | Some l \<Rightarrow> if RewindTo l = head then 0 else 1))", goal_cases)
  case (2 c n head lasterr err)
  from RewindTo_checkCompatible [OF 2(1)] show ?case
  proof
    assume "RewindTo err = 0"
    with 2(2) show ?thesis
      by (cases "head = 0") (auto simp: unat_gt_0 split: option.splits)
  next
    assume "RewindTo err < head"
    then show ?thesis by (simp add: word_less_nat_alt)
  qed
qed simp

declare checkCompatibleLoop.simps [simp del]

definition CheckCompatible :: "ChainConfig \<Rightarrow> ChainConfig \<Rightarrow> u64 \<Rightarrow> ConfigCompatError option" where
  "CheckCompatible c newcfg height = checkCompatibleLoop c newcfg height None"

definition CheckConfigForkOrder :: "ChainConfig \<Rightarrow> bool" where
  "CheckConfigForkOrder c \<longleftrightarrow>
     (\<forall>i < length (ProtocolForks c). ProtocolForks c ! i \<noteq> 0 \<and>
        (i > 0 \<longrightarrow> \<not> ProtocolForks c ! i \<le> ProtocolForks c ! (i - 1)))"

lemma checkCompatibleLoop_Some: "\<exists>err. checkCompatibleLoop c n head (Some l) = Some err"
proof (induction c n head "Some l" arbitrary: l rule: checkCompatibleLoop.induct)
  case (1 c n head l)
  then show ?case
    by (subst checkCompatibleLoop.simps) (auto split: option.splits if_splits)
qed

lemma checkCompatibleLoop_fixpoint:
  assumes "checkCompatibleLoop c n head lasterr = Some err"
    and "\<forall>l. lasterr = Some l \<longrightarrow> head = RewindTo l"
  shows "\<forall>e. checkCompatible c n (RewindTo err) = Some e \<longrightarrow> RewindTo e = RewindTo err"
  using assms
proof (induction c n head lasterr rule: checkCompatibleLoop.induct)
  case (1 c n head lasterr)
  show ?case
  proof (cases "checkCompatible c n head")
    case None
    with "1.prems" show ?thesis by (auto simp: checkCompatibleLoop.simps [of c n head])
  next
    case (Some e)
    show ?thesis
    proof (cases "case lasterr of None \<Rightarrow> False | Some l \<Rightarrow> RewindTo e = RewindTo l")
      case True
      with Some "1.prems" show ?thesis
        by (auto simp: checkCompatibleLoop.simps [of c n head] split: option.splits)
    next
      case False
      with Some "1.prems" have "checkCompatibleLoop c n (RewindTo e) (Some e) = Some err"
        by (simp add: checkCompatibleLoop.simps [of c n head])
      then show ?thesis by (rule "1.IH" [OF Some False]) simp
    qed
  qed
qed

lemma CheckCompatible_None_iff: "CheckCompatible c n h = None \<longleftrightarrow> checkCompatible c n h = None"
  unfolding CheckCompatible_def
  using checkCompatibleLoop_Some [of c n]
  by (subst checkCompatibleLoop.simps) (auto split: option.splits)

lemma if_Some_None: "(if P then Some x else y) = None \<longleftrightarrow> \<not> P \<and> y = None"
  by simp

lemma checkDPoSCompatible_None:
  assumes "checkDPoSCompatible c n = None"
  shows "Epoch c = Epoch n \<and> PeriodMs c = PeriodMs n \<and> MaxValidators c = MaxValidators n \<and>
    RecentSignerWindow c = RecentSignerWindow n \<and> TurnLength c = TurnLength n \<and>
    MaintenanceMaxBlocksEffective (Some c) = MaintenanceMaxBlocksEffective (Some n) \<and>
    normalizedCheckpointCompatibility (Some c) = normalizedCheckpointCompatibility (Some n)"
  using assms
  unfolding checkDPoSCompatible_def configNumEqual_iff if_Some_None not_not
    TargetBlockPeriodMs_def option.case prod_eq_iff
  by simp

lemma firstProtocolForkMismatch_None:
  "firstProtocolForkMismatch ss us = (None, None) \<longleftrightarrow> ss = us"
  by (induction ss us rule: firstProtocolForkMismatch.induct) (auto simp: word_uint_eq_iff)

lemma checkProtocolForks_None:
  "checkProtocolForks c n h = None \<longleftrightarrow>
    appliedProtocolForks (ProtocolForks c) h = appliedProtocolForks (ProtocolForks n) h"
  unfolding firstProtocolForkMismatch_None [symmetric]
  by (auto simp: checkProtocolForks_def split: prod.splits option.splits)

text \<open>
  What a successful engine configuration check leaves behind: the method sequence of
  \<open>dpos.New\<close> that validates and completes the configuration.
\<close>

lemma ValidateTurnLengthConfig_ok:
  "ValidateTurnLengthConfig c = Inr () \<longleftrightarrow>
    TurnLength c \<noteq> 0 \<and> Epoch c \<noteq> 0 \<and> TurnLength c \<le> Epoch c \<and> Epoch c mod TurnLength c = 0"
  by (auto simp: ValidateTurnLengthConfig_def not_less split: if_splits)

lemma ValidateCheckpointConfig_ok:
  "ValidateCheckpointConfig c = Inr c' \<Longrightarrow> CheckpointFinalityBlock c' \<noteq> None \<Longrightarrow>
    MaxValidators c' \<le> 64 \<and> CheckpointInterval c' \<noteq> 0"
  by (auto simp: ValidateCheckpointConfig_def not_less split: if_splits)

text \<open>The default window: \<open>(n/2 + 1) * turnLength - 1\<close> slots, when that fits in 64 bits.\<close>

lemma RecentSignerWindowSize_default:
  assumes "RecentSignerWindow c = 0" and "TurnLength c \<noteq> 0" and "n > 0"
    and "(n div 2 + 1) * unat (TurnLength c) < 2 ^ 64"
  shows "unat (RecentSignerWindowSize (Some c) n) = (n div 2 + 1) * unat (TurnLength c) - 1"
proof -
  let ?t = "TurnLength c" and ?m = "n div 2 + 1"
  let ?w = "word_of_nat (n div 2) + 1 :: u64"
  have t: "1 \<le> unat ?t" using assms(2) by (simp add: unat_gt_0 Suc_le_eq)
  then have "?m * 1 \<le> ?m * unat ?t" by (rule mult_le_mono2)
  then have n: "?m < 2 ^ LENGTH(64)" using assms(4) by simp
  have w: "unat ?w = ?m"
    using unat_of_nat_small [OF n] by (simp add: add.commute)
  have "unat ?w * unat ?t < 2 ^ LENGTH(64)"
    unfolding w using assms(4) by simp
  then have m: "unat (?w * ?t) = ?m * unat ?t"
    unfolding unat_mult_lem by (simp only: w)
  have "0 < unat (?w * ?t)"
    unfolding m using t by simp
  then have "unat (?w * ?t - 1) = unat (?w * ?t) - 1"
    by (intro unat_minus_one) auto
  with m show ?thesis
    using assms(1-3) by (simp add: RecentSignerWindowSize_def word_gt_0)
qed

section \<open>What the compatibility check decides\<close>

lemma fork_order_Cons:
  "(\<forall>i < length (f # fs). (f # fs) ! i \<noteq> 0 \<and> (i > 0 \<longrightarrow> \<not> (f # fs) ! i \<le> (f # fs) ! (i - 1))) \<longleftrightarrow>
    f \<noteq> (0 :: u64) \<and> (case fs of [] \<Rightarrow> True | g # _ \<Rightarrow> f < g) \<and>
    (\<forall>i < length fs. fs ! i \<noteq> 0 \<and> (i > 0 \<longrightarrow> \<not> fs ! i \<le> fs ! (i - 1)))"
  by (cases fs) (auto simp: All_less_Suc2 not_le)

lemma fork_order_sorted:
  "(\<forall>i < length fs. fs ! i \<noteq> (0 :: u64) \<and> (i > 0 \<longrightarrow> \<not> fs ! i \<le> fs ! (i - 1))) \<longleftrightarrow>
    sorted_wrt (<) fs \<and> 0 \<notin> set fs"
proof (induction fs)
  case (Cons f fs)
  show ?case
    unfolding fork_order_Cons Cons.IH by (cases fs) auto
qed simp

lemma CheckConfigForkOrder_iff:
  "CheckConfigForkOrder c \<longleftrightarrow> sorted_wrt (<) (ProtocolForks c) \<and> 0 \<notin> set (ProtocolForks c)"
  unfolding CheckConfigForkOrder_def by (rule fork_order_sorted)

definition fork_rewind :: "int option \<Rightarrow> int option \<Rightarrow> u64" where
  "fork_rewind s u = RewindTo (newCompatError ''protocolForks'' s u)"

lemma uint_pos_iff: "0 < uint (f :: u64) \<longleftrightarrow> f \<noteq> 0"
  by (auto simp: order_less_le word_uint_eq_iff)

lemma fork_rewind_simps [simp]:
  "f \<noteq> 0 \<Longrightarrow> fork_rewind (Some (uint f)) None = f - 1"
  "f \<noteq> 0 \<Longrightarrow> fork_rewind None (Some (uint f)) = f - 1"
  "f \<noteq> 0 \<Longrightarrow> g \<noteq> 0 \<Longrightarrow> fork_rewind (Some (uint f)) (Some (uint g)) = min f g - 1"
  by (auto simp: fork_rewind_def newCompatError_def min_def not_less uint_pos_iff
      simp flip: word_less_def)

lemma pred_less: "(f :: u64) \<noteq> 0 \<Longrightarrow> f - 1 < f"
  by (simp add: word_less_nat_alt unat_minus_one unat_gt_0)

lemma le_pred: "(f :: u64) \<noteq> 0 \<Longrightarrow> g < f \<Longrightarrow> g \<le> f - 1"
  by (simp add: word_less_nat_alt word_le_nat_alt unat_minus_one)

lemma appliedProtocolForks_pred:
  "f \<noteq> 0 \<Longrightarrow> f \<le> g \<Longrightarrow> appliedProtocolForks (g # gs) (f - 1) = []"
  using pred_less [of f] by auto

lemma fork_rewind_ge:
  assumes "firstProtocolForkMismatch ss us = (s, u)" and "(s, u) \<noteq> (None, None)"
    and "\<forall>g \<in> set ss \<union> set us. f < g \<and> g \<noteq> 0"
  shows "f \<le> fork_rewind s u"
  using assms
  by (induction ss us rule: firstProtocolForkMismatch.induct)
    (auto simp: word_uint_eq_iff [symmetric] min_def le_pred split: if_splits)

lemma rewound_forks_agree:
  assumes "sorted_wrt (<) ss" "sorted_wrt (<) us" "0 \<notin> set ss" "0 \<notin> set us"
    and "firstProtocolForkMismatch (appliedProtocolForks ss h) (appliedProtocolForks us h) = (s, u)"
    and "(s, u) \<noteq> (None, None)"
  shows "appliedProtocolForks ss (fork_rewind s u) = appliedProtocolForks us (fork_rewind s u)
    \<and> fork_rewind s u < h"
  using assms
proof (induction ss us rule: list_induct2')
  case 1
  then show ?case by simp
next
  case (2 x xs)
  then show ?case
    using pred_less [of x] by (auto split: if_splits)
next
  case (3 y ys)
  then show ?case
    using pred_less [of y] by (auto split: if_splits)
next
  case (4 x xs y ys)
  show ?case
  proof (cases "x \<le> h \<and> y \<le> h \<and> x = y")
    case True
    let ?m = "firstProtocolForkMismatch (appliedProtocolForks xs h) (appliedProtocolForks ys h)"
    have m: "?m = (s, u)"
      using 4(6) True by (simp add: not_less [THEN iffD2])
    have "set (appliedProtocolForks zs h) \<subseteq> set zs" for zs
      by (induction zs) auto
    then have "x \<le> fork_rewind s u"
      using 4(2-5) True by (intro fork_rewind_ge [OF m 4(7)]) fastforce
    moreover have "appliedProtocolForks xs (fork_rewind s u) = appliedProtocolForks ys (fork_rewind s u)
        \<and> fork_rewind s u < h"
      using 4 m by simp
    ultimately show ?thesis using True by simp
  next
    case False
    with 4 show ?thesis
      using pred_less [of x] pred_less [of y]
      by (auto simp: min_def not_le word_uint_eq_iff [symmetric] split: if_splits)
  qed
qed

lemma checkCompatible_same_DPoS:
  assumes "checkCompatible c n h = Some err" and "\<not> Fatal err" and "ChainID c = ChainID n"
  shows "checkCompatible c n h' = checkProtocolForks c n h'"
proof -
  have id: "configNumEqual (ChainID c) (ChainID n)"
    using assms(3) by (simp add: configNumEqual_iff)
  show ?thesis
  proof (cases "DPoS c"; cases "DPoS n")
    fix d e assume "DPoS c = Some d" "DPoS n = Some e"
    moreover from this have "checkDPoSCompatible d e = None"
      using assms(1,2) id RewindTo_checkDPoSCompatible
      by (cases "checkDPoSCompatible d e") (auto simp: checkCompatible_def)
    ultimately show ?thesis
      using id by (simp add: checkCompatible_def)
  qed (use assms(1,2) id in \<open>auto simp: checkCompatible_def fatal_mismatch_RewindTo\<close>)
qed

lemma checkProtocolForks_rewind:
  assumes "CheckConfigForkOrder c" "CheckConfigForkOrder n" and "checkProtocolForks c n h = Some err"
  shows "checkProtocolForks c n (RewindTo err) = None \<and> RewindTo err < h"
proof -
  obtain s u where su: "firstProtocolForkMismatch (appliedProtocolForks (ProtocolForks c) h)
      (appliedProtocolForks (ProtocolForks n) h) = (s, u)" by fastforce
  then have "(s, u) \<noteq> (None, None)" "RewindTo err = fork_rewind s u"
    using assms(3) by (auto simp: checkProtocolForks_def fork_rewind_def split: option.splits)
  then show ?thesis
    using rewound_forks_agree [OF _ _ _ _ su] assms(1,2)
    by (simp add: checkProtocolForks_None CheckConfigForkOrder_iff)
qed

lemma CheckCompatible_first:
  assumes "checkCompatible c n h = Some e" and "checkCompatible c n (RewindTo e) = None"
  shows "CheckCompatible c n h = Some e"
  unfolding CheckCompatible_def
  using assms by (simp add: checkCompatibleLoop.simps [of c n h] checkCompatibleLoop.simps [of c n "RewindTo e"])

lemma CheckCompatible_fatal:
  assumes "checkCompatible c n h = Some e" and "Fatal e"
  shows "CheckCompatible c n h = Some e"
proof -
  have "checkCompatible c n h' = Some e \<and> RewindTo e = 0" for h'
  proof -
    have id: "configNumEqual (ChainID c) (ChainID n)"
      using assms by (cases "configNumEqual (ChainID c) (ChainID n)") (auto simp: checkCompatible_def)
    have pf: "\<not> Fatal e" if "checkProtocolForks c n h = Some e"
      using that by (auto simp: checkProtocolForks_def newCompatError_def Let_def split: prod.splits option.splits)
    show ?thesis
      using assms id pf RewindTo_checkDPoSCompatible
      by (auto simp: checkCompatible_def fatal_mismatch_RewindTo split: option.splits)
  qed
  then show ?thesis
    unfolding CheckCompatible_def
    by (simp add: checkCompatibleLoop.simps [of c n h] checkCompatibleLoop.simps [of c n 0])
qed

text \<open>
  C30. When the stored and the new configuration belong to the same chain and a repairable conflict
  is reported, rewinding the database to the reported height repairs it: that height is below the
  current one, and the check at that height finds nothing. Configurations whose consensus
  parameters differ are only ever reported as fatal.
\<close>

theorem CheckCompatible_rewind:
  assumes "CheckConfigForkOrder c" and "CheckConfigForkOrder n" and "ChainID c = ChainID n"
    and "CheckCompatible c n h = Some err" and "\<not> Fatal err"
  shows "RewindTo err < h \<and> CheckCompatible c n (RewindTo err) = None"
proof -
  obtain e where e: "checkCompatible c n h = Some e"
    using assms(4) CheckCompatible_None_iff [of c n h] by (cases "checkCompatible c n h") auto
  have nf: "\<not> Fatal e"
    using CheckCompatible_fatal [OF e] assms(4,5) by auto
  note same = checkCompatible_same_DPoS [OF e nf assms(3)]
  have "checkCompatible c n (RewindTo e) = None \<and> RewindTo e < h"
    using checkProtocolForks_rewind [OF assms(1,2)] e by (simp add: same)
  moreover from this have "err = e"
    using CheckCompatible_first [OF e] assms(4) by simp
  ultimately show ?thesis
    by (simp add: CheckCompatible_None_iff)
qed

theorem CheckCompatible_rewind_witness:
  "\<exists>err. CheckCompatible \<lparr>ChainID = Some 7, ProtocolForks = [100, 200], DPoS = None\<rparr>
      \<lparr>ChainID = Some 7, ProtocolForks = [100, 150], DPoS = None\<rparr> 180 = Some err \<and> RewindTo err = 149 \<and>
    CheckCompatible \<lparr>ChainID = Some 7, ProtocolForks = [100, 200], DPoS = None\<rparr>
      \<lparr>ChainID = Some 7, ProtocolForks = [100, 150], DPoS = None\<rparr> 149 = None"
proof -
  let ?c = "\<lparr>ChainID = Some 7, ProtocolForks = [100, 200], DPoS = None\<rparr>"
  let ?n = "\<lparr>ChainID = Some 7, ProtocolForks = [100, 150], DPoS = None\<rparr>"
  have run: "CheckCompatible ?c ?n 180 = Some (newCompatError ''protocolForks'' None (Some 150))"
    by (rule CheckCompatible_first)
      (simp_all add: checkCompatible_def checkProtocolForks_def configNumEqual_def newCompatError_def
        big_Uint64_def)
  then show ?thesis
    using CheckCompatible_rewind [OF _ _ _ run]
    by (simp add: CheckConfigForkOrder_iff newCompatError_def big_Uint64_def)
qed

end
