(* ===== verification/StateDB.thy ===== *)
theory StateDB
  imports Prelude
begin

text \<open>
  The state the system actions work on, as the interface \<open>StateDB\<close> of core/vmtypes shows it:
  a balance, a nonce, a code and a storage per account, and the log list. The components read
  and write it through the operations below; the locale \<open>state_db\<close> is the contract they
  rely on. The record here is the plain implementation of that contract; the journaled
  implementation of core/state and the write buffer of core/parallel implement it too.

  The second half holds the encodings of Go values in a 32-byte storage word.
\<close>

section \<open>Accounts and storage\<close>

record log_entry =
  log_Address :: address
  log_Topics :: "hash list"
  log_Data :: bytes
  log_BlockNumber :: u64

record statedb =
  st_balance :: "address \<Rightarrow> int"
  st_nonce :: "address \<Rightarrow> u64"
  st_code :: "address \<Rightarrow> bytes"
  st_storage :: "address \<Rightarrow> hash \<Rightarrow> hash"
  st_logs :: "log_entry list"

definition empty_statedb :: statedb where
  "empty_statedb = \<lparr>st_balance = (\<lambda>_. 0), st_nonce = (\<lambda>_. 0), st_code = (\<lambda>_. []),
     st_storage = (\<lambda>_ _. 0), st_logs = []\<rparr>"

definition GetState :: "statedb \<Rightarrow> address \<Rightarrow> hash \<Rightarrow> hash" where
  "GetState st a k = st_storage st a k"

definition SetState :: "statedb \<Rightarrow> address \<Rightarrow> hash \<Rightarrow> hash \<Rightarrow> statedb" where
  "SetState st a k v = st\<lparr>st_storage := (st_storage st)(a := (st_storage st a)(k := v))\<rparr>"

definition GetBalance :: "statedb \<Rightarrow> address \<Rightarrow> int" where
  "GetBalance st a = st_balance st a"

definition AddBalance :: "statedb \<Rightarrow> address \<Rightarrow> int \<Rightarrow> statedb" where
  "AddBalance st a v = st\<lparr>st_balance := (st_balance st)(a := st_balance st a + v)\<rparr>"

definition SubBalance :: "statedb \<Rightarrow> address \<Rightarrow> int \<Rightarrow> statedb" where
  "SubBalance st a v = st\<lparr>st_balance := (st_balance st)(a := st_balance st a - v)\<rparr>"

definition GetNonce :: "statedb \<Rightarrow> address \<Rightarrow> u64" where
  "GetNonce st a = st_nonce st a"

definition SetNonce :: "statedb \<Rightarrow> address \<Rightarrow> u64 \<Rightarrow> statedb" where
  "SetNonce st a n = st\<lparr>st_nonce := (st_nonce st)(a := n)\<rparr>"

definition GetCode :: "statedb \<Rightarrow> address \<Rightarrow> bytes" where
  "GetCode st a = st_code st a"

definition SetCode :: "statedb \<Rightarrow> address \<Rightarrow> bytes \<Rightarrow> statedb" where
  "SetCode st a c = st\<lparr>st_code := (st_code st)(a := c)\<rparr>"

definition AddLog :: "statedb \<Rightarrow> log_entry \<Rightarrow> statedb" where
  "AddLog st l = st\<lparr>st_logs := st_logs st @ [l]\<rparr>"

section \<open>The contract of the state interface\<close>

text \<open>
  What a client of \<open>vmtypes.StateDB\<close> relies on: a write is seen by the next read of the same
  slot and by no other, balances change by the given amount and do not touch storage.
  \<open>ok\<close> is the well-formedness of the implementation, kept by every operation.
\<close>

locale state_db =
  fixes ok :: "'s \<Rightarrow> bool"
    and get_state :: "'s \<Rightarrow> address \<Rightarrow> hash \<Rightarrow> hash"
    and set_state :: "'s \<Rightarrow> address \<Rightarrow> hash \<Rightarrow> hash \<Rightarrow> 's"
    and get_balance :: "'s \<Rightarrow> address \<Rightarrow> int"
    and add_balance :: "'s \<Rightarrow> address \<Rightarrow> int \<Rightarrow> 's"
    and sub_balance :: "'s \<Rightarrow> address \<Rightarrow> int \<Rightarrow> 's"
  assumes ok_set_state: "ok s \<Longrightarrow> ok (set_state s a k v)"
    and ok_add_balance: "ok s \<Longrightarrow> ok (add_balance s a x)"
    and ok_sub_balance: "ok s \<Longrightarrow> ok (sub_balance s a x)"
    and get_set_state: "ok s \<Longrightarrow>
      get_state (set_state s a k v) b j = (if b = a \<and> j = k then v else get_state s b j)"
    and balance_set_state: "ok s \<Longrightarrow> get_balance (set_state s a k v) b = get_balance s b"
    and state_add_balance: "ok s \<Longrightarrow> get_state (add_balance s a x) b j = get_state s b j"
    and state_sub_balance: "ok s \<Longrightarrow> get_state (sub_balance s a x) b j = get_state s b j"
    and balance_add_balance: "ok s \<Longrightarrow>
      get_balance (add_balance s a x) b = (if b = a then get_balance s b + x else get_balance s b)"
    and balance_sub_balance: "ok s \<Longrightarrow>
      get_balance (sub_balance s a x) b = (if b = a then get_balance s b - x else get_balance s b)"
begin

lemmas access_simps = ok_set_state ok_add_balance ok_sub_balance get_set_state balance_set_state
  state_add_balance state_sub_balance balance_add_balance balance_sub_balance

lemma transfer_balance:
  "ok s \<Longrightarrow> get_balance (add_balance (sub_balance s a x) b x) c =
    get_balance s c - (if c = a then x else 0) + (if c = b then x else 0)"
  by (auto simp: access_simps)

text \<open>A transfer inside a finite set of accounts keeps the sum of their balances.\<close>

lemma transfer_conserves:
  assumes "ok s" and "finite A" and "a \<in> A" and "b \<in> A"
  shows "(\<Sum>c\<in>A. get_balance (add_balance (sub_balance s a x) b x) c) = (\<Sum>c\<in>A. get_balance s c)"
proof -
  have "(\<Sum>c\<in>A. get_balance (add_balance (sub_balance s a x) b x) c) =
    (\<Sum>c\<in>A. get_balance s c) - (\<Sum>c\<in>A. if c = a then x else 0) + (\<Sum>c\<in>A. if c = b then x else 0)"
    using assms(1) by (simp add: transfer_balance sum.distrib sum_subtractf)
  then show ?thesis
    using assms(2-4) by simp
qed

text \<open>Writes to different slots can be exchanged.\<close>

lemma set_state_commute:
  assumes "ok s" and "(a, k) \<noteq> (b, j)"
  shows "get_state (set_state (set_state s a k v) b j w) c i =
    get_state (set_state (set_state s b j w) a k v) c i"
  using assms by (auto simp: access_simps)

end

interpretation flat_db: state_db "\<lambda>_. True" GetState SetState GetBalance AddBalance SubBalance
  by unfold_locales
    (auto simp: GetState_def SetState_def GetBalance_def AddBalance_def SubBalance_def)

lemmas statedb_defs = GetState_def SetState_def GetBalance_def AddBalance_def SubBalance_def
  GetNonce_def SetNonce_def GetCode_def SetCode_def AddLog_def

lemma GetState_SetState [slot_simps]:
  "GetState (SetState st a k v) b j = (if b = a \<and> j = k then v else GetState st b j)"
  by (simp add: flat_db.access_simps)

lemma GetBalance_AddBalance [slot_simps]:
  "GetBalance (AddBalance st a v) b = (if b = a then GetBalance st b + v else GetBalance st b)"
  by (simp add: flat_db.access_simps)

lemma GetBalance_SubBalance [slot_simps]:
  "GetBalance (SubBalance st a v) b = (if b = a then GetBalance st b - v else GetBalance st b)"
  by (simp add: flat_db.access_simps)

lemma frame_simps [simp, slot_simps]:
  "GetBalance (SetState st a k v) b = GetBalance st b"
  "GetState (AddBalance st a x) b j = GetState st b j"
  "GetState (SubBalance st a x) b j = GetState st b j"
  "GetState (SetNonce st a n) b j = GetState st b j"
  "GetState (SetCode st a c) b j = GetState st b j"
  "GetState (AddLog st l) b j = GetState st b j"
  "GetBalance (SetNonce st a n) b = GetBalance st b"
  "GetBalance (SetCode st a c) b = GetBalance st b"
  "GetBalance (AddLog st l) b = GetBalance st b"
  "GetNonce (SetState st a k v) b = GetNonce st b"
  "GetNonce (AddBalance st a x) b = GetNonce st b"
  "GetNonce (SubBalance st a x) b = GetNonce st b"
  "GetNonce (SetCode st a c) b = GetNonce st b"
  "GetNonce (AddLog st l) b = GetNonce st b"
  "GetCode (SetState st a k v) b = GetCode st b"
  "GetCode (AddBalance st a x) b = GetCode st b"
  "GetCode (SubBalance st a x) b = GetCode st b"
  "GetCode (SetNonce st a n) b = GetCode st b"
  "GetCode (AddLog st l) b = GetCode st b"
  by (simp_all add: statedb_defs)

lemma GetNonce_SetNonce [slot_simps]:
  "GetNonce (SetNonce st a n) b = (if b = a then n else GetNonce st b)"
  by (simp add: statedb_defs)

lemma GetCode_SetCode [slot_simps]:
  "GetCode (SetCode st a c) b = (if b = a then c else GetCode st b)"
  by (simp add: statedb_defs)

section \<open>Go values in a storage word\<close>

text \<open>
  \<open>binary.BigEndian.PutUint64(val[24:], n)\<close> and its readers \<open>raw.Big().Uint64()\<close> and
  \<open>binary.BigEndian.Uint64(raw[24:])\<close>; \<open>val[31] = b\<close> and \<open>raw[31]\<close>;
  \<open>common.BigToHash\<close> and \<open>Hash.Big\<close>.
\<close>

definition hash_of_u64 :: "u64 \<Rightarrow> hash" where
  "hash_of_u64 n = ucast n"

definition hash_u64 :: "hash \<Rightarrow> u64" where
  "hash_u64 h = ucast h"

definition hash_of_byte31 :: "u8 \<Rightarrow> hash" where
  "hash_of_byte31 b = ucast b"

definition hash_byte31 :: "hash \<Rightarrow> u8" where
  "hash_byte31 h = ucast h"

definition BigToHash :: "int \<Rightarrow> hash" where
  "BigToHash i = word_of_int \<bar>i\<bar>"

definition hash_Big :: "hash \<Rightarrow> int" where
  "hash_Big h = uint h"

text \<open>The contract of an encoding: decoding returns what was encoded, for the valid values.\<close>

locale word_codec =
  fixes enc :: "'v \<Rightarrow> hash" and dec :: "hash \<Rightarrow> 'v" and valid :: "'v \<Rightarrow> bool"
  assumes dec_enc: "valid v \<Longrightarrow> dec (enc v) = v"
begin

lemma enc_inject: "valid v \<Longrightarrow> valid w \<Longrightarrow> enc v = enc w \<longleftrightarrow> v = w"
  by (metis dec_enc)

text \<open>A typed slot: reading through the decoder returns the value last written.\<close>

lemma read_write: "valid v \<Longrightarrow> dec (GetState (SetState st a k (enc v)) a k) = v"
  by (simp add: GetState_SetState dec_enc)

lemma read_other: "(b, j) \<noteq> (a, k) \<Longrightarrow>
  dec (GetState (SetState st a k (enc v)) b j) = dec (GetState st b j)"
  by (auto simp: GetState_SetState)

end

lemma hash_u64_of_u64 [simp, slot_simps]: "hash_u64 (hash_of_u64 n) = n"
  unfolding hash_u64_def hash_of_u64_def by (rule bit_word_eqI) (simp add: bit_simps)

lemma hash_byte31_of_byte31 [simp, slot_simps]: "hash_byte31 (hash_of_byte31 b) = b"
  unfolding hash_byte31_def hash_of_byte31_def by (rule bit_word_eqI) (simp add: bit_simps)

lemma hash_Big_BigToHash [slot_simps]: "0 \<le> v \<Longrightarrow> v < 2 ^ 256 \<Longrightarrow> hash_Big (BigToHash v) = v"
  by (simp add: hash_Big_def BigToHash_def uint_word_of_int)

lemma hash_Big_BigToHash_0 [simp]: "hash_Big (BigToHash 0) = 0"
  by (simp add: hash_Big_def BigToHash_def)

lemma hash_Big_0 [simp]: "hash_Big 0 = 0"
  by (simp add: hash_Big_def)

lemma hash_Big_bounds: "0 \<le> hash_Big h" "hash_Big h < 2 ^ 256"
  using uint_lt2p [of h] by (simp_all add: hash_Big_def)

lemma hash_u64_0 [simp]: "hash_u64 0 = 0"
  by (simp add: hash_u64_def)

lemma hash_byte31_0 [simp]: "hash_byte31 0 = 0"
  by (simp add: hash_byte31_def)

interpretation u64_codec: word_codec hash_of_u64 hash_u64 "\<lambda>_. True"
  by unfold_locales simp

interpretation byte_codec: word_codec hash_of_byte31 hash_byte31 "\<lambda>_. True"
  by unfold_locales simp

interpretation big_codec: word_codec BigToHash hash_Big "\<lambda>v. 0 \<le> v \<and> v < 2 ^ 256"
  by unfold_locales (simp add: hash_Big_BigToHash)

text \<open>The codecs agree with the byte positions the code writes and reads.\<close>

lemma be_bytes_split: "be_bytes (i + j) n = be_bytes i (n div 256 ^ j) @ be_bytes j n"
  by (induction j arbitrary: n) (simp_all add: div_mult2_eq)

lemma be_nat_be_bytes_mod: "be_nat (be_bytes k n) = n mod 256 ^ k"
proof -
  have "be_bytes k n = be_bytes k (n mod 256 ^ k)"
  proof (induction k arbitrary: n)
    case (Suc k)
    have "n mod 256 ^ Suc k div 256 mod 256 ^ k = n div 256 mod 256 ^ k"
      by (simp add: mod_mult2_eq)
    then have "be_bytes k (n mod 256 ^ Suc k div 256) = be_bytes k (n div 256)"
      by (metis Suc.IH)
    moreover have "n mod 256 ^ Suc k mod 256 = n mod 256"
      by (simp add: mod_mod_cancel)
    ultimately show ?case
      by (simp del: power_Suc)
  qed simp
  then show ?thesis
    by (simp add: be_nat_be_bytes)
qed

lemma be_bytes_0: "be_bytes k 0 = replicate k 0"
  by (induction k) (simp_all flip: replicate_append_same)

lemma unat_hash_of_u64: "unat (hash_of_u64 n) = unat n"
proof -
  have "unat n < 2 ^ 256"
    using u64_less_2p64 [of n] by simp
  then show ?thesis
    by (simp add: hash_of_u64_def unsigned_ucast_eq take_bit_nat_eq_self)
qed

lemma hash_of_u64_bytes: "hash_bytes (hash_of_u64 n) = replicate 24 0 @ u64_bytes n"
proof -
  have "unat n div 256 ^ 8 = 0"
    using unat_u64_less [of n] by (rule div_less)
  then show ?thesis
    using be_bytes_split [of 24 8 "unat n"]
    by (simp add: hash_bytes_def u64_bytes_def be_bytes_0 unat_hash_of_u64)
qed

lemma hash_u64_bytes: "unat (hash_u64 h) = be_nat (drop 24 (hash_bytes h))"
proof -
  have "drop 24 (hash_bytes h) = be_bytes 8 (unat h)"
    using be_bytes_split [of 24 8 "unat h"] by (simp add: hash_bytes_def)
  then have "be_nat (drop 24 (hash_bytes h)) = unat h mod 256 ^ 8"
    by (simp add: be_nat_be_bytes_mod)
  moreover have "unat (hash_u64 h) = unat h mod 256 ^ 8"
    by (simp add: hash_u64_def unsigned_ucast_eq take_bit_eq_mod)
  ultimately show ?thesis by simp
qed

lemma hash_byte31_nth: "hash_byte31 h = hash_bytes h ! 31"
proof -
  have "hash_bytes h ! 31 = word_of_nat (unat h mod 256)"
    using be_bytes_split [of 31 1 "unat h"] by (simp add: hash_bytes_def nth_append)
  moreover have "hash_byte31 h = word_of_nat (unat h mod 256)"
    by (simp add: word_unat_eq_iff hash_byte31_def unsigned_ucast_eq take_bit_eq_mod unat_of_nat)
  ultimately show ?thesis by simp
qed


section \<open>Runs of slots\<close>

lemma GetState_fold_miss:
  "(b \<noteq> a \<or> (\<forall>i \<in> set is. k \<noteq> slot i)) \<Longrightarrow>
    GetState (fold (\<lambda>i st. SetState st a (slot i) (w i)) is st) b k = GetState st b k"
  by (induction "is" arbitrary: st) (auto simp: GetState_SetState)

lemma GetState_fold_hit:
  assumes "i \<in> set is" and "\<forall>j \<in> set is. slot j = slot i \<longrightarrow> j = i"
  shows "GetState (fold (\<lambda>i st. SetState st a (slot i) (w i)) is st) a (slot i) = w i"
  using assms
proof (induction "is" arbitrary: st)
  case (Cons j js)
  show ?case
  proof (cases "i \<in> set js")
    case True
    then show ?thesis using Cons by simp
  next
    case False
    then have "j = i" using Cons.prems(1) by simp
    moreover have "\<forall>j \<in> set js. slot i \<noteq> slot j" using Cons.prems(2) False by auto
    ultimately show ?thesis using GetState_fold_miss [of a a js "slot i" slot w] by (simp add: GetState_SetState)
  qed
qed simp

lemma GetBalance_fold_SetState [simp]:
  "GetBalance (fold (\<lambda>i st. SetState st a (slot i) (w i)) is st) b = GetBalance st b"
  by (induction "is" arbitrary: st) simp_all

end
