(* ===== verification/SysAction.thy ===== *)
theory SysAction
  imports Params StateDB
begin

text \<open>
  Package sysaction: the action kinds and the context a handler runs in. The dispatch of
  \<open>Execute\<close> over the registered handlers is not modelled. A handler is a function from the
  state to the state it leaves behind and the error it returns, \<open>None\<close> for \<open>nil\<close>. The
  state is also given on an error: the caller takes a snapshot first and reverts.

  A payload reaches a handler decoded: \<open>None\<close> stands for an error of
  \<open>json.Unmarshal\<close>.
\<close>

datatype ActionKind =
    ActionValidatorRegister
  | ActionValidatorWithdraw
  | ActionValidatorEnterMaintenance
  | ActionValidatorExitMaintenance
  | ActionAgentRegister
  | ActionAgentUpdateProfile
  | ActionAgentIncreaseStake
  | ActionAgentDecreaseStake
  | ActionAgentSuspend
  | ActionAgentUnsuspend
  | ActionCapabilityRegister
  | ActionCapabilityGrant
  | ActionCapabilityRevoke
  | ActionTaskSchedule
  | ActionTaskCancel
  | ActionLeaseDeploy
  | ActionLeaseRenew
  | ActionLeaseClose
  | OtherAction string

record SysContext =
  From :: address
  Value :: int
  BlockNumber :: "int option"
  CtxChainConfig :: "ChainConfig option"

type_synonym 'e outcome = "statedb \<times> 'e option"

end
