(* ===== verification/Validator.thy ===== *)
theory Validator
  imports SysAction
begin

text \<open>
  Package validator: the storage layout of the validator registry (validator/state.go), the four
  lifecycle handlers (validator/handler.go) and the selection of the active set. The handlers are
  shown to refine an abstract registry that has one entry per address and the list of addresses
  ever registered; the registry invariant (stakes are covered by the registry balance, the list
  has no duplicates, the status agrees with the stake) is kept by every step.
\<close>

section \<open>Statuses and errors\<close>

type_synonym ValidatorStatus = u8

definition Inactive :: ValidatorStatus where
  "Inactive = 0"

definition Active :: ValidatorStatus where
  "Active = 1"

definition Maintenance :: ValidatorStatus where
  "Maintenance = 2"

definition MaintenanceExpired :: ValidatorStatus where
  "MaintenanceExpired = 3"

lemmas status_defs = Inactive_def Active_def Maintenance_def MaintenanceExpired_def

datatype validator_error =
    ErrAlreadyRegistered
  | ErrNotActive
  | ErrAlreadyInMaintenance
  | ErrNotInMaintenance
  | ErrMaintenanceExpired
  | ErrInsufficientStake
  | ErrInsufficientBalance
  | ErrValidatorRegistryBalanceBroken

section \<open>Storage layout\<close>

definition validatorSlotKey :: "address \<Rightarrow> string \<Rightarrow> bytes" where
  "validatorSlotKey addr field = addr_bytes addr @ [0] @ str_bytes field"

definition validatorSlot :: "keccak \<Rightarrow> address \<Rightarrow> string \<Rightarrow> hash" where
  "validatorSlot kh addr field = kh (validatorSlotKey addr field)"

definition validatorCountKey :: bytes where
  "validatorCountKey = str_bytes ''dpos'' @ [0] @ str_bytes ''validatorCount''"

definition validatorCountSlot :: "keccak \<Rightarrow> hash" where
  "validatorCountSlot kh = kh validatorCountKey"

definition validatorListKey :: "u64 \<Rightarrow> bytes" where
  "validatorListKey i = str_bytes ''dpos'' @ [0] @ str_bytes ''validatorList'' @ [0] @ u64_bytes i"

definition validatorListSlot :: "keccak \<Rightarrow> u64 \<Rightarrow> hash" where
  "validatorListSlot kh i = kh (validatorListKey i)"

definition readValidatorCount :: "keccak \<Rightarrow> statedb \<Rightarrow> u64" where
  "readValidatorCount kh st = hash_u64 (GetState st ValidatorRegistryAddress (validatorCountSlot kh))"

definition writeValidatorCount :: "keccak \<Rightarrow> statedb \<Rightarrow> u64 \<Rightarrow> statedb" where
  "writeValidatorCount kh st n =
     SetState st ValidatorRegistryAddress (validatorCountSlot kh) (hash_of_u64 n)"

definition readValidatorAt :: "keccak \<Rightarrow> statedb \<Rightarrow> u64 \<Rightarrow> address" where
  "readValidatorAt kh st i = GetState st ValidatorRegistryAddress (validatorListSlot kh i)"

definition appendValidatorToList :: "keccak \<Rightarrow> statedb \<Rightarrow> address \<Rightarrow> statedb" where
  "appendValidatorToList kh st addr =
     (let n = readValidatorCount kh st;
          st = SetState st ValidatorRegistryAddress (validatorListSlot kh n) addr
      in writeValidatorCount kh st (n + 1))"

definition writeSelfStake :: "keccak \<Rightarrow> statedb \<Rightarrow> address \<Rightarrow> int \<Rightarrow> statedb" where
  "writeSelfStake kh st addr stake =
     SetState st ValidatorRegistryAddress (validatorSlot kh addr ''selfStake'') (BigToHash stake)"

definition writeMaintenanceSince :: "keccak \<Rightarrow> statedb \<Rightarrow> address \<Rightarrow> u64 \<Rightarrow> statedb" where
  "writeMaintenanceSince kh st addr blockNumber =
     SetState st ValidatorRegistryAddress (validatorSlot kh addr ''maintenanceSince'')
       (hash_of_u64 blockNumber)"

definition ReadMaintenanceSince :: "keccak \<Rightarrow> statedb \<Rightarrow> address \<Rightarrow> u64" where
  "ReadMaintenanceSince kh st addr =
     hash_u64 (GetState st ValidatorRegistryAddress (validatorSlot kh addr ''maintenanceSince''))"

definition readRegisteredFlag :: "keccak \<Rightarrow> statedb \<Rightarrow> address \<Rightarrow> bool" where
  "readRegisteredFlag kh st addr \<longleftrightarrow>
     hash_byte31 (GetState st ValidatorRegistryAddress (validatorSlot kh addr ''registered'')) \<noteq> 0"

definition writeRegisteredFlag :: "keccak \<Rightarrow> statedb \<Rightarrow> address \<Rightarrow> statedb" where
  "writeRegisteredFlag kh st addr =
     SetState st ValidatorRegistryAddress (validatorSlot kh addr ''registered'') (hash_of_byte31 1)"

definition WriteValidatorStatus :: "keccak \<Rightarrow> statedb \<Rightarrow> address \<Rightarrow> ValidatorStatus \<Rightarrow> statedb" where
  "WriteValidatorStatus kh st addr s =
     SetState st ValidatorRegistryAddress (validatorSlot kh addr ''status'') (hash_of_byte31 s)"

definition ReadSelfStake :: "keccak \<Rightarrow> statedb \<Rightarrow> address \<Rightarrow> int" where
  "ReadSelfStake kh st addr =
     hash_Big (GetState st ValidatorRegistryAddress (validatorSlot kh addr ''selfStake''))"

definition ReadValidatorStatus :: "keccak \<Rightarrow> statedb \<Rightarrow> address \<Rightarrow> ValidatorStatus" where
  "ReadValidatorStatus kh st addr =
     hash_byte31 (GetState st ValidatorRegistryAddress (validatorSlot kh addr ''status''))"

definition ReadEffectiveValidatorStatus ::
  "keccak \<Rightarrow> statedb \<Rightarrow> address \<Rightarrow> u64 \<Rightarrow> DPoSConfig option \<Rightarrow> ValidatorStatus" where
  "ReadEffectiveValidatorStatus kh st addr currentBlock cfg =
     (let status = ReadValidatorStatus kh st addr in
      if status \<noteq> Maintenance then status
      else if cfg = None \<or> currentBlock = 0 then status
      else
        let since = ReadMaintenanceSince kh st addr in
        if since = 0 then status
        else
          let maxBlocks = MaintenanceMaxBlocksEffective cfg in
          if maxBlocks = 0 then status
          else if currentBlock \<ge> since \<and> currentBlock - since \<ge> maxBlocks
          then MaintenanceExpired
          else status)"

section \<open>The active set\<close>

type_synonym stake_entry = "address \<times> int"

text \<open>The comparison of \<open>sort.SliceStable\<close>: higher stake first, then lower address.\<close>

definition stake_before :: "stake_entry \<Rightarrow> stake_entry \<Rightarrow> bool" where
  "stake_before e f =
     (if snd e \<noteq> snd f then snd e > snd f
      else bytes_compare (addr_bytes (fst e)) (addr_bytes (fst f)) < 0)"

definition active_entries ::
  "(address \<Rightarrow> ValidatorStatus) \<Rightarrow> keccak \<Rightarrow> statedb \<Rightarrow> stake_entry list" where
  "active_entries status_of kh st =
     [(addr, ReadSelfStake kh st addr).
       addr \<leftarrow> map (\<lambda>i. readValidatorAt kh st (word_of_nat i))
                 [0..<unat (readValidatorCount kh st)],
       status_of addr = Active]"

text \<open>Sorting by stake, truncating to the maximum, and sorting what is left by address.\<close>

definition select_top :: "u64 \<Rightarrow> stake_entry list \<Rightarrow> address list" where
  "select_top maxValidators es =
     (let es = sort_by stake_before es;
          es = (if length es > unat maxValidators then take (unat maxValidators) es else es)
      in addr_sort (map fst es))"

definition ReadActiveValidators :: "keccak \<Rightarrow> statedb \<Rightarrow> u64 \<Rightarrow> address list" where
  "ReadActiveValidators kh st maxValidators =
     select_top maxValidators (active_entries (ReadValidatorStatus kh st) kh st)"

definition ReadActiveValidatorsAtBlock ::
  "keccak \<Rightarrow> statedb \<Rightarrow> u64 \<Rightarrow> u64 \<Rightarrow> DPoSConfig option \<Rightarrow> address list" where
  "ReadActiveValidatorsAtBlock kh st maxValidators currentBlock cfg =
     select_top maxValidators
       (active_entries (\<lambda>addr. ReadEffectiveValidatorStatus kh st addr currentBlock cfg) kh st)"

section \<open>Handlers\<close>

definition handleRegister :: "keccak \<Rightarrow> SysContext \<Rightarrow> statedb \<Rightarrow> validator_error outcome" where
  "handleRegister kh ctx st =
     (if Value ctx < DPoSMinValidatorStake then (st, Some ErrInsufficientStake)
      else if GetBalance st (From ctx) < Value ctx then (st, Some ErrInsufficientBalance)
      else if ReadSelfStake kh st (From ctx) \<noteq> 0 then (st, Some ErrAlreadyRegistered)
      else
        let isNewRegistration = \<not> readRegisteredFlag kh st (From ctx);
            st = SubBalance st (From ctx) (Value ctx);
            st = AddBalance st ValidatorRegistryAddress (Value ctx);
            st = writeSelfStake kh st (From ctx) (Value ctx);
            st = WriteValidatorStatus kh st (From ctx) Active;
            st = writeMaintenanceSince kh st (From ctx) 0;
            st = (if isNewRegistration
                  then appendValidatorToList kh (writeRegisteredFlag kh st (From ctx)) (From ctx)
                  else st)
        in (st, None))"

definition handleWithdraw :: "keccak \<Rightarrow> SysContext \<Rightarrow> statedb \<Rightarrow> validator_error outcome" where
  "handleWithdraw kh ctx st =
     (let status = ReadValidatorStatus kh st (From ctx) in
      if status \<noteq> Active \<and> status \<noteq> Maintenance then (st, Some ErrNotActive)
      else
        let selfStake = ReadSelfStake kh st (From ctx) in
        if GetBalance st ValidatorRegistryAddress < selfStake
        then (st, Some ErrValidatorRegistryBalanceBroken)
        else
          let st = SubBalance st ValidatorRegistryAddress selfStake;
              st = AddBalance st (From ctx) selfStake;
              st = writeSelfStake kh st (From ctx) 0;
              st = WriteValidatorStatus kh st (From ctx) Inactive;
              st = writeMaintenanceSince kh st (From ctx) 0
          in (st, None))"

definition handleEnterMaintenance :: "keccak \<Rightarrow> SysContext \<Rightarrow> statedb \<Rightarrow> validator_error outcome" where
  "handleEnterMaintenance kh ctx st =
     (let status = ReadValidatorStatus kh st (From ctx) in
      if status = Active then
        let st = WriteValidatorStatus kh st (From ctx) Maintenance;
            st = (case BlockNumber ctx of
                    None \<Rightarrow> st
                  | Some n \<Rightarrow> writeMaintenanceSince kh st (From ctx) (big_Uint64 n))
        in (st, None)
      else if status = Maintenance then (st, Some ErrAlreadyInMaintenance)
      else (st, Some ErrNotActive))"

definition handleExitMaintenance :: "keccak \<Rightarrow> SysContext \<Rightarrow> statedb \<Rightarrow> validator_error outcome" where
  "handleExitMaintenance kh ctx st =
     (if ReadValidatorStatus kh st (From ctx) \<noteq> Maintenance then (st, Some ErrNotInMaintenance)
      else if (case CtxChainConfig ctx of None \<Rightarrow> False
               | Some cc \<Rightarrow> (case DPoS cc of None \<Rightarrow> False
                   | Some d \<Rightarrow> (case BlockNumber ctx of None \<Rightarrow> False
                       | Some n \<Rightarrow> ReadEffectiveValidatorStatus kh st (From ctx) (big_Uint64 n) (Some d)
                                    = MaintenanceExpired)))
      then (st, Some ErrMaintenanceExpired)
      else
        let st = WriteValidatorStatus kh st (From ctx) Active;
            st = writeMaintenanceSince kh st (From ctx) 0
        in (st, None))"

definition validator_Actions :: "ActionKind list" where
  "validator_Actions = [ActionValidatorRegister, ActionValidatorWithdraw,
     ActionValidatorEnterMaintenance, ActionValidatorExitMaintenance]"

definition validator_Handle ::
  "keccak \<Rightarrow> SysContext \<Rightarrow> ActionKind \<Rightarrow> statedb \<Rightarrow> validator_error outcome" where
  "validator_Handle kh ctx action st =
     (case action of
        ActionValidatorRegister \<Rightarrow> handleRegister kh ctx st
      | ActionValidatorWithdraw \<Rightarrow> handleWithdraw kh ctx st
      | ActionValidatorEnterMaintenance \<Rightarrow> handleEnterMaintenance kh ctx st
      | ActionValidatorExitMaintenance \<Rightarrow> handleExitMaintenance kh ctx st
      | _ \<Rightarrow> (st, None))"

section \<open>Slots do not overlap\<close>

definition validator_fields :: "string list" where
  "validator_fields = [''selfStake'', ''status'', ''maintenanceSince'', ''registered'']"

text \<open>The keys the registry hashes when the addresses of \<open>as\<close> are the ones that register.\<close>

definition validator_keys :: "address list \<Rightarrow> bytes list" where
  "validator_keys as =
     validatorCountKey # map (\<lambda>i. validatorListKey (word_of_nat i)) [0..<length as]
       @ concat (map (\<lambda>a. map (validatorSlotKey a) validator_fields) as)"

lemma validatorSlotKey_inject [key_simps]:
  "validatorSlotKey a f = validatorSlotKey b g \<longleftrightarrow> a = b \<and> f = g"
  by (auto simp: validatorSlotKey_def key_simps append_eq_append_conv)

lemma validatorListKey_inject [key_simps]: "validatorListKey i = validatorListKey j \<longleftrightarrow> i = j"
  by (simp add: validatorListKey_def key_simps)

lemma length_validator_keys [simp]:
  "length (validatorSlotKey a f) = 33 + length f"
  "length (validatorListKey i) = 27"
  "length validatorCountKey = 19"
  by (simp_all add: validatorSlotKey_def validatorListKey_def validatorCountKey_def)

lemma validator_keys_neq [key_simps]:
  "validatorSlotKey a f \<noteq> validatorListKey i" "validatorListKey i \<noteq> validatorSlotKey a f"
  "validatorSlotKey a f \<noteq> validatorCountKey" "validatorCountKey \<noteq> validatorSlotKey a f"
  "validatorListKey i \<noteq> validatorCountKey" "validatorCountKey \<noteq> validatorListKey i"
  by (rule notI, drule arg_cong [where f = length], simp)+

lemma mem_validator_keys:
  "validatorCountKey \<in> set (validator_keys as)"
  "i < length as \<Longrightarrow> validatorListKey (word_of_nat i) \<in> set (validator_keys as)"
  "a \<in> set as \<Longrightarrow> f \<in> set validator_fields \<Longrightarrow> validatorSlotKey a f \<in> set (validator_keys as)"
  by (auto simp: validator_keys_def)

lemma validator_slot_eq:
  assumes "no_collision kh (set (validator_keys as))" and "a \<in> set as" and "b \<in> set as"
    and "f \<in> set validator_fields" and "g \<in> set validator_fields"
  shows "validatorSlot kh a f = validatorSlot kh b g \<longleftrightarrow> a = b \<and> f = g"
  unfolding validatorSlot_def
  using no_collision_eq [OF assms(1) mem_validator_keys(3) mem_validator_keys(3)] assms(2-5)
  by (simp add: key_simps)

lemma validator_slot_neq:
  assumes "no_collision kh (set (validator_keys as))" and "a \<in> set as"
    and "f \<in> set validator_fields"
  shows "validatorSlot kh a f \<noteq> validatorCountSlot kh" "validatorCountSlot kh \<noteq> validatorSlot kh a f"
    and "i < length as \<Longrightarrow> validatorSlot kh a f \<noteq> validatorListSlot kh (word_of_nat i)"
    and "i < length as \<Longrightarrow> validatorListSlot kh (word_of_nat i) \<noteq> validatorSlot kh a f"
  unfolding validatorSlot_def validatorListSlot_def validatorCountSlot_def
  using no_collision_eq [OF assms(1) mem_validator_keys(3) [OF assms(2,3)]] mem_validator_keys(1,2)
  by (metis key_simps)+

lemma validator_list_slot_eq:
  assumes "no_collision kh (set (validator_keys as))" and "i < length as" and "length as < 2 ^ 64"
  shows "validatorListSlot kh (word_of_nat i) \<noteq> validatorCountSlot kh"
    "validatorCountSlot kh \<noteq> validatorListSlot kh (word_of_nat i)"
    and "j < length as \<Longrightarrow>
      validatorListSlot kh (word_of_nat i) = validatorListSlot kh (word_of_nat j) \<longleftrightarrow> i = j"
proof -
  note nc = no_collision_eq [OF assms(1) mem_validator_keys(2) [OF assms(2)]]
  show "validatorListSlot kh (word_of_nat i) \<noteq> validatorCountSlot kh"
    "validatorCountSlot kh \<noteq> validatorListSlot kh (word_of_nat i)"
    unfolding validatorListSlot_def validatorCountSlot_def
    using nc [OF mem_validator_keys(1)] by (metis key_simps)+
  show "validatorListSlot kh (word_of_nat i) = validatorListSlot kh (word_of_nat j) \<longleftrightarrow> i = j"
    if "j < length as"
  proof -
    have "unat (word_of_nat i :: u64) = i" "unat (word_of_nat j :: u64) = j"
      using assms(2,3) that by (simp_all add: unat_of_nat_small)
    then show ?thesis
      unfolding validatorListSlot_def
      using nc [OF mem_validator_keys(2) [OF that]] by (metis validatorListKey_inject)
  qed
qed

section \<open>The abstract registry\<close>

record validator_entry =
  ve_stake :: int
  ve_status :: ValidatorStatus
  ve_since :: u64
  ve_registered :: bool

record registry =
  rg_entry :: "address \<Rightarrow> validator_entry"
  rg_list :: "address list"
  rg_balance :: "address \<Rightarrow> int"

definition read_entry :: "keccak \<Rightarrow> statedb \<Rightarrow> address \<Rightarrow> validator_entry" where
  "read_entry kh st a = \<lparr>ve_stake = ReadSelfStake kh st a, ve_status = ReadValidatorStatus kh st a,
     ve_since = ReadMaintenanceSince kh st a, ve_registered = readRegisteredFlag kh st a\<rparr>"

definition validator_list :: "keccak \<Rightarrow> statedb \<Rightarrow> address list" where
  "validator_list kh st =
     map (\<lambda>i. readValidatorAt kh st (word_of_nat i)) [0..<unat (readValidatorCount kh st)]"

definition no_entry :: validator_entry where
  "no_entry = \<lparr>ve_stake = 0, ve_status = Inactive, ve_since = 0, ve_registered = False\<rparr>"

text \<open>The abstraction function, for the addresses \<open>as\<close> that take part.\<close>

definition registry_of :: "keccak \<Rightarrow> address list \<Rightarrow> statedb \<Rightarrow> registry" where
  "registry_of kh as st = \<lparr>rg_entry = (\<lambda>a. if a \<in> set as then read_entry kh st a else no_entry),
     rg_list = validator_list kh st, rg_balance = GetBalance st\<rparr>"

definition move :: "address \<Rightarrow> address \<Rightarrow> int \<Rightarrow> (address \<Rightarrow> int) \<Rightarrow> address \<Rightarrow> int" where
  "move a b x bal c = bal c - (if c = a then x else 0) + (if c = b then x else 0)"

definition spec_register :: "address \<Rightarrow> int \<Rightarrow> registry \<Rightarrow> registry" where
  "spec_register a v r = r
     \<lparr>rg_entry := (rg_entry r)(a := \<lparr>ve_stake = v, ve_status = Active, ve_since = 0, ve_registered = True\<rparr>),
      rg_list := (if ve_registered (rg_entry r a) then rg_list r else rg_list r @ [a]),
      rg_balance := move a ValidatorRegistryAddress v (rg_balance r)\<rparr>"

definition spec_withdraw :: "address \<Rightarrow> registry \<Rightarrow> registry" where
  "spec_withdraw a r = r
     \<lparr>rg_entry := (rg_entry r)(a := (rg_entry r a)\<lparr>ve_stake := 0, ve_status := Inactive, ve_since := 0\<rparr>),
      rg_balance := move ValidatorRegistryAddress a (ve_stake (rg_entry r a)) (rg_balance r)\<rparr>"

definition spec_enter :: "address \<Rightarrow> int option \<Rightarrow> registry \<Rightarrow> registry" where
  "spec_enter a n r = r
     \<lparr>rg_entry := (rg_entry r)(a := (rg_entry r a)\<lparr>ve_status := Maintenance,
        ve_since := (case n of None \<Rightarrow> ve_since (rg_entry r a) | Some k \<Rightarrow> big_Uint64 k)\<rparr>)\<rparr>"

definition spec_exit :: "address \<Rightarrow> registry \<Rightarrow> registry" where
  "spec_exit a r = r
     \<lparr>rg_entry := (rg_entry r)(a := (rg_entry r a)\<lparr>ve_status := Active, ve_since := 0\<rparr>)\<rparr>"

section \<open>Refinement of the single writes\<close>

lemmas validator_access_defs = ReadSelfStake_def ReadValidatorStatus_def ReadMaintenanceSince_def
  readRegisteredFlag_def readValidatorAt_def readValidatorCount_def writeSelfStake_def
  WriteValidatorStatus_def writeMaintenanceSince_def writeRegisteredFlag_def writeValidatorCount_def

lemma fields_mem [simp]:
  "''selfStake'' \<in> set validator_fields" "''status'' \<in> set validator_fields"
  "''maintenanceSince'' \<in> set validator_fields" "''registered'' \<in> set validator_fields"
  by (simp_all add: validator_fields_def)

lemma read_entry_balance [simp]:
  "read_entry kh (AddBalance st c x) = read_entry kh st"
  "read_entry kh (SubBalance st c x) = read_entry kh st"
  by (simp_all add: read_entry_def validator_access_defs fun_eq_iff)

lemma validator_list_balance [simp]:
  "validator_list kh (AddBalance st c x) = validator_list kh st"
  "validator_list kh (SubBalance st c x) = validator_list kh st"
  by (simp_all add: validator_list_def validator_access_defs)

lemma validator_balance_writes [simp]:
  "GetBalance (writeSelfStake kh st a v) b = GetBalance st b"
  "GetBalance (WriteValidatorStatus kh st a s) b = GetBalance st b"
  "GetBalance (writeMaintenanceSince kh st a n) b = GetBalance st b"
  "GetBalance (writeRegisteredFlag kh st a) b = GetBalance st b"
  "GetBalance (appendValidatorToList kh st a) b = GetBalance st b"
  by (simp_all add: validator_access_defs appendValidatorToList_def Let_def)

lemma read_entry_writes:
  assumes "no_collision kh (set (validator_keys as))" and "a \<in> set as" and "b \<in> set as"
  shows "0 \<le> v \<Longrightarrow> v < 2 ^ 256 \<Longrightarrow> read_entry kh (writeSelfStake kh st a v) b =
      (if b = a then (read_entry kh st b)\<lparr>ve_stake := v\<rparr> else read_entry kh st b)"
    and "read_entry kh (WriteValidatorStatus kh st a s) b =
      (if b = a then (read_entry kh st b)\<lparr>ve_status := s\<rparr> else read_entry kh st b)"
    and "read_entry kh (writeMaintenanceSince kh st a n) b =
      (if b = a then (read_entry kh st b)\<lparr>ve_since := n\<rparr> else read_entry kh st b)"
    and "read_entry kh (writeRegisteredFlag kh st a) b =
      (if b = a then (read_entry kh st b)\<lparr>ve_registered := True\<rparr> else read_entry kh st b)"
  using validator_slot_eq [OF assms(1,3,2)]
  by (auto simp: read_entry_def validator_access_defs slot_simps)

lemma validator_list_writes:
  assumes "no_collision kh (set (validator_keys as))" and "a \<in> set as"
    and "length (validator_list kh st) \<le> length as"
  shows "validator_list kh (writeSelfStake kh st a v) = validator_list kh st"
    and "validator_list kh (WriteValidatorStatus kh st a s) = validator_list kh st"
    and "validator_list kh (writeMaintenanceSince kh st a n) = validator_list kh st"
    and "validator_list kh (writeRegisteredFlag kh st a) = validator_list kh st"
  using validator_slot_neq [OF assms(1,2)] assms(3)
  by (auto simp: validator_list_def validator_access_defs slot_simps)

lemma read_entry_append:
  assumes "no_collision kh (set (validator_keys as))" and "b \<in> set as"
    and "length (validator_list kh st) < length as"
  shows "read_entry kh (appendValidatorToList kh st a) b = read_entry kh st b"
proof -
  let ?n = "unat (readValidatorCount kh st)"
  have n: "word_of_nat ?n = readValidatorCount kh st" and "?n < length as"
    using assms(3) by (simp_all add: validator_list_def)
  with validator_slot_neq [OF assms(1,2)]
  have "validatorSlot kh b f \<noteq> validatorListSlot kh (readValidatorCount kh st)"
    if "f \<in> set validator_fields" for f
    using that by metis
  then show ?thesis
    using validator_slot_neq(1) [OF assms(1,2)]
    by (simp add: read_entry_def appendValidatorToList_def Let_def
        ReadSelfStake_def ReadValidatorStatus_def ReadMaintenanceSince_def readRegisteredFlag_def
        writeValidatorCount_def slot_simps)
qed

lemma validator_list_append:
  assumes "no_collision kh (set (validator_keys as))"
    and "length (validator_list kh st) < length as" and "length as < 2 ^ 64"
  shows "validator_list kh (appendValidatorToList kh st a) = validator_list kh st @ [a]"
proof -
  let ?n = "unat (readValidatorCount kh st)"
  have n: "word_of_nat ?n = readValidatorCount kh st" and less: "?n < length as"
    using assms(2) by (simp_all add: validator_list_def)
  have count: "unat (readValidatorCount kh (appendValidatorToList kh st a)) = Suc ?n"
    using less assms(3)
    by (simp add: appendValidatorToList_def readValidatorCount_def writeValidatorCount_def Let_def
        slot_simps u64_Suc_nowrap)
  have at: "readValidatorAt kh (appendValidatorToList kh st a) (word_of_nat i) =
    (if i = ?n then a else readValidatorAt kh st (word_of_nat i))" if "i < Suc ?n" for i
  proof -
    have i: "i < length as" using that less by simp
    have "validatorListSlot kh (word_of_nat i) = validatorListSlot kh (readValidatorCount kh st)
        \<longleftrightarrow> i = ?n"
      using validator_list_slot_eq(3) [OF assms(1) i assms(3) less] n by simp
    then show ?thesis
      using validator_list_slot_eq(1) [OF assms(1) i assms(3)]
      by (simp add: readValidatorAt_def appendValidatorToList_def writeValidatorCount_def Let_def
          slot_simps)
  qed
  show ?thesis
    unfolding validator_list_def count using at at [of ?n] by simp
qed

section \<open>Refinement of the handlers\<close>

text \<open>
  Each handler decides its errors from the abstract entry of the sender, and a successful run
  changes the registry as the abstract operation does.
\<close>

lemma registry_of_simps [simp]:
  "a \<in> set as \<Longrightarrow> rg_entry (registry_of kh as st) a = read_entry kh st a"
  "a \<notin> set as \<Longrightarrow> rg_entry (registry_of kh as st) a = no_entry"
  "rg_list (registry_of kh as st) = validator_list kh st"
  "rg_balance (registry_of kh as st) = GetBalance st"
  by (simp_all add: registry_of_def)

lemma registry_eqI:
  assumes "\<And>a. rg_entry r a = rg_entry q a" and "rg_list r = rg_list q"
    and "\<And>a. rg_balance r a = rg_balance q a"
  shows "(r :: registry) = q"
  using assms by (simp add: registry.equality fun_eq_iff)

lemma read_entry_sels:
  "ReadSelfStake kh st a = ve_stake (read_entry kh st a)"
  "ReadValidatorStatus kh st a = ve_status (read_entry kh st a)"
  "ReadMaintenanceSince kh st a = ve_since (read_entry kh st a)"
  "readRegisteredFlag kh st a = ve_registered (read_entry kh st a)"
  by (simp_all add: read_entry_def)

lemma handleRegister_error:
  "snd (handleRegister kh ctx st) =
     (if Value ctx < DPoSMinValidatorStake then Some ErrInsufficientStake
      else if GetBalance st (From ctx) < Value ctx then Some ErrInsufficientBalance
      else if ve_stake (read_entry kh st (From ctx)) \<noteq> 0 then Some ErrAlreadyRegistered
      else None)"
  by (simp add: handleRegister_def Let_def read_entry_sels)

lemma DPoSMinValidatorStake_pos: "0 < DPoSMinValidatorStake"
  by (simp add: DPoSMinValidatorStake_def)

lemma register_refines:
  assumes nc: "no_collision kh (set (validator_keys as))" and len: "length as < 2 ^ 64"
    and a: "From ctx \<in> set as" and v: "Value ctx < 2 ^ 256"
    and list: "length (validator_list kh st) \<le> length as"
    and new: "\<not> ve_registered (read_entry kh st (From ctx)) \<Longrightarrow> length (validator_list kh st) < length as"
    and run: "handleRegister kh ctx st = (st', None)"
  shows "registry_of kh as st' = spec_register (From ctx) (Value ctx) (registry_of kh as st)"
proof -
  have min: "DPoSMinValidatorStake \<le> Value ctx"
    using run by (auto simp: handleRegister_def split: if_splits)
  then have v0: "0 \<le> Value ctx"
    using DPoSMinValidatorStake_pos by simp
  let ?w = "writeMaintenanceSince kh (WriteValidatorStatus kh (writeSelfStake kh
      (AddBalance (SubBalance st (From ctx) (Value ctx)) ValidatorRegistryAddress (Value ctx))
      (From ctx) (Value ctx)) (From ctx) Active) (From ctx) 0"
  have st': "st' = (if ve_registered (read_entry kh st (From ctx)) then ?w
      else appendValidatorToList kh (writeRegisteredFlag kh ?w (From ctx)) (From ctx))"
    using run by (auto simp: handleRegister_def Let_def read_entry_sels split: if_splits)
  have lw: "validator_list kh ?w = validator_list kh st"
    and lf: "validator_list kh (writeRegisteredFlag kh ?w (From ctx)) = validator_list kh st"
    using validator_list_writes [OF nc a] list by simp_all
  show ?thesis
  proof (rule registry_eqI)
    fix b
    show "rg_entry (registry_of kh as st') b =
        rg_entry (spec_register (From ctx) (Value ctx) (registry_of kh as st)) b"
      using read_entry_writes [OF nc a] read_entry_append [OF nc] new lf v v0 a
      by (cases "b \<in> set as") (auto simp: st' spec_register_def no_entry_def)
  next
    show "rg_list (registry_of kh as st') =
        rg_list (spec_register (From ctx) (Value ctx) (registry_of kh as st))"
      using lw lf new validator_list_append [OF nc _ len] a
      by (auto simp: st' spec_register_def)
  next
    fix b
    show "rg_balance (registry_of kh as st') b =
        rg_balance (spec_register (From ctx) (Value ctx) (registry_of kh as st)) b"
      by (simp add: st' spec_register_def move_def slot_simps)
  qed
qed

lemma handleWithdraw_error:
  "snd (handleWithdraw kh ctx st) =
     (if ve_status (read_entry kh st (From ctx)) \<notin> {Active, Maintenance} then Some ErrNotActive
      else if GetBalance st ValidatorRegistryAddress < ve_stake (read_entry kh st (From ctx))
      then Some ErrValidatorRegistryBalanceBroken
      else None)"
  by (simp add: handleWithdraw_def Let_def read_entry_sels)

lemma handleWithdraw_success:
  "handleWithdraw kh ctx st = (st', None) \<Longrightarrow>
    st' = writeMaintenanceSince kh (WriteValidatorStatus kh (writeSelfStake kh
      (AddBalance (SubBalance st ValidatorRegistryAddress (ReadSelfStake kh st (From ctx)))
        (From ctx) (ReadSelfStake kh st (From ctx)))
      (From ctx) 0) (From ctx) Inactive) (From ctx) 0"
  by (auto simp: handleWithdraw_def Let_def split: if_splits)

lemma withdraw_refines:
  assumes nc: "no_collision kh (set (validator_keys as))" and a: "From ctx \<in> set as"
    and list: "length (validator_list kh st) \<le> length as"
    and run: "handleWithdraw kh ctx st = (st', None)"
  shows "registry_of kh as st' = spec_withdraw (From ctx) (registry_of kh as st)"
proof (rule registry_eqI)
  note st' = handleWithdraw_success [OF run]
  fix b
  show "rg_entry (registry_of kh as st') b = rg_entry (spec_withdraw (From ctx) (registry_of kh as st)) b"
    using read_entry_writes [OF nc a] a
    by (cases "b \<in> set as") (auto simp: st' spec_withdraw_def)
  show "rg_list (registry_of kh as st') = rg_list (spec_withdraw (From ctx) (registry_of kh as st))"
    using validator_list_writes [OF nc a] list by (simp add: st' spec_withdraw_def)
  show "rg_balance (registry_of kh as st') b =
      rg_balance (spec_withdraw (From ctx) (registry_of kh as st)) b"
    using a by (simp add: st' spec_withdraw_def move_def slot_simps read_entry_sels)
qed

lemma handleEnterMaintenance_error:
  "snd (handleEnterMaintenance kh ctx st) =
     (if ve_status (read_entry kh st (From ctx)) = Active then None
      else if ve_status (read_entry kh st (From ctx)) = Maintenance then Some ErrAlreadyInMaintenance
      else Some ErrNotActive)"
  by (simp add: handleEnterMaintenance_def Let_def read_entry_sels)

lemma handleEnterMaintenance_success:
  "handleEnterMaintenance kh ctx st = (st', None) \<Longrightarrow>
    st' = (case BlockNumber ctx of
        None \<Rightarrow> WriteValidatorStatus kh st (From ctx) Maintenance
      | Some n \<Rightarrow> writeMaintenanceSince kh (WriteValidatorStatus kh st (From ctx) Maintenance)
          (From ctx) (big_Uint64 n))"
  by (auto simp: handleEnterMaintenance_def Let_def split: if_splits)

lemma enter_refines:
  assumes nc: "no_collision kh (set (validator_keys as))" and a: "From ctx \<in> set as"
    and list: "length (validator_list kh st) \<le> length as"
    and run: "handleEnterMaintenance kh ctx st = (st', None)"
  shows "registry_of kh as st' = spec_enter (From ctx) (BlockNumber ctx) (registry_of kh as st)"
proof (rule registry_eqI)
  note st' = handleEnterMaintenance_success [OF run]
  fix b
  show "rg_entry (registry_of kh as st') b =
      rg_entry (spec_enter (From ctx) (BlockNumber ctx) (registry_of kh as st)) b"
    using read_entry_writes [OF nc a] a
    by (cases "b \<in> set as") (auto simp: st' spec_enter_def split: option.splits)
  show "rg_list (registry_of kh as st') =
      rg_list (spec_enter (From ctx) (BlockNumber ctx) (registry_of kh as st))"
    using validator_list_writes [OF nc a] list by (simp add: st' spec_enter_def split: option.splits)
  show "rg_balance (registry_of kh as st') b =
      rg_balance (spec_enter (From ctx) (BlockNumber ctx) (registry_of kh as st)) b"
    by (simp add: st' spec_enter_def split: option.splits)
qed

lemma handleExitMaintenance_success:
  "handleExitMaintenance kh ctx st = (st', None) \<Longrightarrow>
    ReadValidatorStatus kh st (From ctx) = Maintenance \<and>
    st' = writeMaintenanceSince kh (WriteValidatorStatus kh st (From ctx) Active) (From ctx) 0"
  by (simp add: handleExitMaintenance_def Let_def split: if_splits)

lemma exit_refines:
  assumes nc: "no_collision kh (set (validator_keys as))" and a: "From ctx \<in> set as"
    and list: "length (validator_list kh st) \<le> length as"
    and run: "handleExitMaintenance kh ctx st = (st', None)"
  shows "registry_of kh as st' = spec_exit (From ctx) (registry_of kh as st)"
proof (rule registry_eqI)
  note st' = conjunct2 [OF handleExitMaintenance_success [OF run]]
  fix b
  show "rg_entry (registry_of kh as st') b = rg_entry (spec_exit (From ctx) (registry_of kh as st)) b"
    using read_entry_writes [OF nc a] a
    by (cases "b \<in> set as") (auto simp: st' spec_exit_def)
  show "rg_list (registry_of kh as st') = rg_list (spec_exit (From ctx) (registry_of kh as st))"
    using validator_list_writes [OF nc a] list by (simp add: st' spec_exit_def)
  show "rg_balance (registry_of kh as st') b =
      rg_balance (spec_exit (From ctx) (registry_of kh as st)) b"
    by (simp add: st' spec_exit_def)
qed

text \<open>A handler that returns an error has written nothing.\<close>

lemma validator_Handle_error_keeps_state:
  "snd (validator_Handle kh ctx action st) \<noteq> None \<Longrightarrow> fst (validator_Handle kh ctx action st) = st"
  by (cases action)
    (auto simp: validator_Handle_def handleRegister_def handleWithdraw_def
      handleEnterMaintenance_def handleExitMaintenance_def Let_def)

section \<open>The registry invariant\<close>

text \<open>
  An entry is well formed when a locked stake is at least the protocol minimum and goes with the
  statuses active and maintenance, only registered addresses lock stake, and the start of a
  maintenance window is recorded only during maintenance.
\<close>

definition entry_ok :: "validator_entry \<Rightarrow> bool" where
  "entry_ok e \<longleftrightarrow>
     ve_status e \<in> {Inactive, Active, Maintenance} \<and>
     (if ve_status e = Inactive then ve_stake e = 0
      else DPoSMinValidatorStake \<le> ve_stake e \<and> ve_registered e) \<and>
     (ve_since e \<noteq> 0 \<longrightarrow> ve_status e = Maintenance)"

definition registry_inv :: "address list \<Rightarrow> registry \<Rightarrow> bool" where
  "registry_inv as r \<longleftrightarrow>
     distinct (rg_list r) \<and> set (rg_list r) = {a \<in> set as. ve_registered (rg_entry r a)} \<and>
     (\<forall>a \<in> set as. entry_ok (rg_entry r a)) \<and>
     (\<Sum>a \<in> set as. ve_stake (rg_entry r a)) \<le> rg_balance r ValidatorRegistryAddress"

lemma sum_fun_upd:
  "finite A \<Longrightarrow> a \<in> A \<Longrightarrow>
    (\<Sum>b\<in>A. (f ((g(a := e)) b) :: int)) = (\<Sum>b\<in>A. f (g b)) - f (g a) + f e"
  by (simp add: sum.remove [of A a])

lemma registry_inv_list_length: "registry_inv as r \<Longrightarrow> length (rg_list r) \<le> length as"
proof -
  assume inv: "registry_inv as r"
  then have "length (rg_list r) = card (set (rg_list r))"
    by (intro distinct_card [symmetric]) (simp add: registry_inv_def)
  also have "\<dots> \<le> card (set as)"
    using inv by (intro card_mono) (auto simp: registry_inv_def)
  also have "\<dots> \<le> length as"
    by (rule card_length)
  finally show ?thesis .
qed

lemma registry_inv_list_length_new:
  assumes inv: "registry_inv as r" and a: "a \<in> set as" "\<not> ve_registered (rg_entry r a)"
  shows "length (rg_list r) < length as"
proof -
  have "length (rg_list r) = card (set (rg_list r))"
    using inv by (intro distinct_card [symmetric]) (simp add: registry_inv_def)
  also have "\<dots> < card (set as)"
    using inv a by (intro psubset_card_mono) (auto simp: registry_inv_def)
  also have "\<dots> \<le> length as"
    by (rule card_length)
  finally show ?thesis .
qed

lemma spec_register_inv:
  assumes "registry_inv as r" and "a \<in> set as" and "a \<noteq> ValidatorRegistryAddress"
    and "DPoSMinValidatorStake \<le> v" and "ve_stake (rg_entry r a) = 0"
  shows "registry_inv as (spec_register a v r)"
  using assms sum_fun_upd [of "set as" a ve_stake "rg_entry r"]
  by (auto simp: registry_inv_def spec_register_def entry_ok_def move_def status_defs)

lemma spec_withdraw_inv:
  assumes "registry_inv as r" and "a \<in> set as" and "a \<noteq> ValidatorRegistryAddress"
  shows "registry_inv as (spec_withdraw a r)"
  using assms sum_fun_upd [of "set as" a ve_stake "rg_entry r"]
  by (auto simp: registry_inv_def spec_withdraw_def entry_ok_def move_def status_defs)

lemma spec_enter_inv:
  assumes "registry_inv as r" and "a \<in> set as" and "ve_status (rg_entry r a) = Active"
  shows "registry_inv as (spec_enter a n r)"
  using assms sum_fun_upd [of "set as" a ve_stake "rg_entry r"]
  by (auto simp: registry_inv_def spec_enter_def entry_ok_def status_defs)

lemma spec_exit_inv:
  assumes "registry_inv as r" and "a \<in> set as" and "ve_status (rg_entry r a) = Maintenance"
  shows "registry_inv as (spec_exit a r)"
  using assms sum_fun_upd [of "set as" a ve_stake "rg_entry r"]
  by (auto simp: registry_inv_def spec_exit_def entry_ok_def status_defs)

section \<open>Steps of the chain\<close>

text \<open>
  A step is a validator action of one of the addresses \<open>as\<close>, with any outcome, or any other
  change of the state that leaves the storage of the registry account alone and takes nothing
  from its balance. The registry account itself sends no transactions.
\<close>

inductive validator_step :: "keccak \<Rightarrow> address list \<Rightarrow> statedb \<Rightarrow> statedb \<Rightarrow> bool"
  for kh as where
  action: "From ctx \<in> set as \<Longrightarrow> From ctx \<noteq> ValidatorRegistryAddress \<Longrightarrow> Value ctx < 2 ^ 256 \<Longrightarrow>
    validator_Handle kh ctx act st = (st', e) \<Longrightarrow> validator_step kh as st st'"
| other: "(\<And>k. GetState st' ValidatorRegistryAddress k = GetState st ValidatorRegistryAddress k) \<Longrightarrow>
    GetBalance st ValidatorRegistryAddress \<le> GetBalance st' ValidatorRegistryAddress \<Longrightarrow>
    validator_step kh as st st'"

definition fresh_registry :: "statedb \<Rightarrow> bool" where
  "fresh_registry st \<longleftrightarrow> (\<forall>k. GetState st ValidatorRegistryAddress k = 0) \<and>
     0 \<le> GetBalance st ValidatorRegistryAddress"

definition validator_reachable :: "keccak \<Rightarrow> address list \<Rightarrow> statedb \<Rightarrow> bool" where
  "validator_reachable kh as st \<longleftrightarrow> (\<exists>st0. fresh_registry st0 \<and> (validator_step kh as)\<^sup>*\<^sup>* st0 st)"

lemma fresh_registry_inv: "fresh_registry st \<Longrightarrow> registry_inv as (registry_of kh as st)"
  by (simp add: fresh_registry_def registry_inv_def registry_of_def read_entry_def
      validator_list_def validator_access_defs entry_ok_def status_defs cong: if_cong)

lemma validator_action_inv:
  assumes nc: "no_collision kh (set (validator_keys as))" and len: "length as < 2 ^ 64"
    and a: "From ctx \<in> set as" "From ctx \<noteq> ValidatorRegistryAddress" and v: "Value ctx < 2 ^ 256"
    and run: "validator_Handle kh ctx act st = (st', None)"
    and inv: "registry_inv as (registry_of kh as st)"
  shows "registry_inv as (registry_of kh as st')"
proof -
  note list = registry_inv_list_length [OF inv, simplified]
  note new = registry_inv_list_length_new [OF inv a(1), simplified registry_of_simps(1) [OF a(1)],
      simplified]
  consider (reg) "handleRegister kh ctx st = (st', None)"
    | (wd) "handleWithdraw kh ctx st = (st', None)"
    | (enter) "handleEnterMaintenance kh ctx st = (st', None)"
    | (exit) "handleExitMaintenance kh ctx st = (st', None)"
    | (skip) "st' = st"
    using run by (cases act) (auto simp: validator_Handle_def)
  then show ?thesis
  proof cases
    case reg
    then have "DPoSMinValidatorStake \<le> Value ctx" "ve_stake (read_entry kh st (From ctx)) = 0"
      using handleRegister_error [of kh ctx st] by (auto split: if_splits)
    then show ?thesis
      using register_refines [OF nc len a(1) v list new reg] spec_register_inv [OF inv a(1,2)] a(1)
      by simp
  next
    case wd
    then show ?thesis
      using withdraw_refines [OF nc a(1) list wd] spec_withdraw_inv [OF inv a] by simp
  next
    case enter
    then have "ve_status (read_entry kh st (From ctx)) = Active"
      using handleEnterMaintenance_error [of kh ctx st] by (auto split: if_splits)
    then show ?thesis
      using enter_refines [OF nc a(1) list enter] spec_enter_inv [OF inv a(1)] a(1) by simp
  next
    case exit
    then have "ve_status (read_entry kh st (From ctx)) = Maintenance"
      using handleExitMaintenance_success [OF exit] by (simp add: read_entry_sels)
    then show ?thesis
      using exit_refines [OF nc a(1) list exit] spec_exit_inv [OF inv a(1)] a(1) by simp
  qed (simp add: inv)
qed

lemma validator_step_inv:
  assumes nc: "no_collision kh (set (validator_keys as))" and len: "length as < 2 ^ 64"
    and step: "validator_step kh as st st'" and inv: "registry_inv as (registry_of kh as st)"
  shows "registry_inv as (registry_of kh as st')"
  using step
proof cases
  case (action ctx act e)
  show ?thesis
  proof (cases e)
    case None
    then show ?thesis
      using validator_action_inv [OF nc len action(1,2,3) _ inv] action(4) by simp
  next
    case (Some err)
    then have "st' = st"
      using validator_Handle_error_keeps_state [of kh ctx act st] action(4) by simp
    then show ?thesis using inv by simp
  qed
next
  case other
  have "registry_of kh as st' = (registry_of kh as st)\<lparr>rg_balance := GetBalance st'\<rparr>"
    using other(1)
    by (intro registry_eqI) (auto simp: registry_of_def read_entry_def validator_list_def
        validator_access_defs)
  then show ?thesis
    using inv other(2) by (simp add: registry_inv_def)
qed

lemma validator_reachable_inv:
  assumes "no_collision kh (set (validator_keys as))" and "length as < 2 ^ 64"
    and "validator_reachable kh as st"
  shows "registry_inv as (registry_of kh as st)"
proof -
  obtain st0 where "fresh_registry st0" and "(validator_step kh as)\<^sup>*\<^sup>* st0 st"
    using assms(3) by (auto simp: validator_reachable_def)
  from this(2,1) show ?thesis
    by (induction rule: rtranclp_induct)
      (auto intro: fresh_registry_inv validator_step_inv [OF assms(1,2)])
qed

section \<open>Selection of the active set\<close>

lemma stake_before_iff:
  "stake_before (a, s) (b, t) \<longleftrightarrow> t < s \<or> s = t \<and> a < b"
  by (auto simp: stake_before_def)

interpretation stake_order: strict_weak_order stake_before
  by unfold_locales (auto simp: stake_before_iff split_paired_all not_less)

lemma select_top_eq:
  "select_top m es = addr_sort (map fst (take (unat m) (sort_by stake_before es)))"
  by (simp add: select_top_def Let_def)

lemma sorted_select_top: "sorted (select_top m es)"
  by (simp add: select_top_eq)

lemma length_select_top: "length (select_top m es) = min (unat m) (length es)"
  by (simp add: select_top_eq min.commute)

lemma distinct_map_fst_sort_by:
  "distinct (map fst es) \<Longrightarrow> distinct (map fst (sort_by lt es))"
  by (metis distinct_sort_by mset_map mset_sort_by mset_eq_imp_distinct_iff)

lemma distinct_select_top: "distinct (map fst es) \<Longrightarrow> distinct (select_top m es)"
  unfolding select_top_eq distinct_addr_sort take_map [symmetric]
  by (rule distinct_take [OF distinct_map_fst_sort_by])

lemma set_select_top_subset: "set (select_top m es) \<subseteq> fst ` set es"
  unfolding select_top_eq set_addr_sort set_map by (rule image_mono) (metis set_take_subset set_sort_by)

lemma select_top_best:
  assumes dist: "distinct (map fst es)" and x: "(x, sx) \<in> set es" "x \<in> set (select_top m es)"
    and y: "(y, sy) \<in> set es" "y \<notin> set (select_top m es)"
  shows "sy < sx \<or> sy = sx \<and> x < y"
proof -
  let ?es = "sort_by stake_before es"
  obtain sx' where "(x, sx') \<in> set (take (unat m) ?es)"
    using x(2) by (auto simp: select_top_eq)
  moreover from this have "sx' = sx"
    using x(1) dist by (metis eq_key_imp_eq_value in_set_takeD set_sort_by)
  ultimately have "(x, sx) \<in> set (take (unat m) ?es)" by simp
  moreover have "(y, sy) \<notin> set (take (unat m) ?es)"
    using y(2) by (force simp: select_top_eq)
  then have "(y, sy) \<in> set (drop (unat m) ?es)"
    using y(1) by (metis append_take_drop_id set_append set_sort_by Un_iff)
  ultimately have "\<not> stake_before (y, sy) (x, sx)"
    by (rule stake_order.take_sort_by_front)
  moreover have "x \<noteq> y"
    using x(2) y(2) by metis
  ultimately show ?thesis
    by (auto simp: stake_before_iff not_less order_le_less)
qed

lemma active_entries_eq:
  "active_entries status_of kh st =
    map (\<lambda>a. (a, ReadSelfStake kh st a)) (filter (\<lambda>a. status_of a = Active) (validator_list kh st))"
  unfolding active_entries_def validator_list_def concat_map_if ..

lemma distinct_active_entries:
  "distinct (validator_list kh st) \<Longrightarrow> distinct (map fst (active_entries status_of kh st))"
  by (simp add: active_entries_eq comp_def)

lemma set_active_entries:
  "(a, s) \<in> set (active_entries status_of kh st) \<longleftrightarrow>
    a \<in> set (validator_list kh st) \<and> status_of a = Active \<and> s = ReadSelfStake kh st a"
  by (auto simp: active_entries_eq)

lemma fst_set_active_entries:
  "fst ` set (active_entries status_of kh st) =
    {a \<in> set (validator_list kh st). status_of a = Active}"
  by (auto simp: active_entries_eq image_image)

section \<open>A concrete registry\<close>

text \<open>
  Two addresses, a hash function without collisions on their keys, and the state after the first
  of them has registered: the inputs at which the theorems below are applied.
\<close>

definition example_validators :: "address list" where
  "example_validators = [17, 18]"

definition example_kh :: keccak where
  "example_kh = key_index_hash (validator_keys example_validators)"

definition example_ctx :: "address \<Rightarrow> SysContext" where
  "example_ctx a = \<lparr>From = a, Value = DPoSMinValidatorStake, BlockNumber = Some 100, CtxChainConfig = None\<rparr>"

definition example_genesis :: statedb where
  "example_genesis = empty_statedb\<lparr>st_balance := (\<lambda>_. DPoSMinValidatorStake)\<rparr>"

definition example_registered :: statedb where
  "example_registered = fst (handleRegister example_kh (example_ctx 17) example_genesis)"

lemma example_length: "length example_validators < 2 ^ 64"
  by (simp add: example_validators_def)

lemma example_no_collision: "no_collision example_kh (set (validator_keys example_validators))"
  unfolding example_kh_def
  by (rule no_collision_key_index_hash)
    (simp_all add: validator_keys_def example_validators_def validator_fields_def)

lemma example_fresh: "fresh_registry example_genesis"
  by (simp add: fresh_registry_def example_genesis_def empty_statedb_def statedb_defs
      DPoSMinValidatorStake_def)

lemma example_register: "handleRegister example_kh (example_ctx 17) example_genesis = (example_registered, None)"
proof -
  have "snd (handleRegister example_kh (example_ctx 17) example_genesis) = None"
    by (simp add: handleRegister_error example_ctx_def example_genesis_def empty_statedb_def
        statedb_defs read_entry_def ReadSelfStake_def)
  then show ?thesis
    by (simp add: example_registered_def prod_eq_iff)
qed

lemma example_reachable: "validator_reachable example_kh example_validators example_registered"
proof -
  have "validator_step example_kh example_validators example_genesis example_registered"
    by (rule validator_step.action [where ctx = "example_ctx 17" and act = ActionValidatorRegister])
      (simp_all add: example_register validator_Handle_def, simp_all add: example_ctx_def
        example_validators_def ValidatorRegistryAddress_def DPoSMinValidatorStake_def)
  then show ?thesis
    using example_fresh by (auto simp: validator_reachable_def)
qed

lemma example_entry:
  "registry_of example_kh example_validators example_registered =
    spec_register 17 DPoSMinValidatorStake (registry_of example_kh example_validators example_genesis)"
proof -
  have "length (validator_list example_kh example_genesis) = 0"
    by (simp add: validator_list_def readValidatorCount_def example_genesis_def empty_statedb_def
        statedb_defs)
  then show ?thesis
    using register_refines [OF example_no_collision example_length _ _ _ _ example_register]
    by (simp add: example_ctx_def example_validators_def DPoSMinValidatorStake_def)
qed

lemma example_status: "ReadValidatorStatus example_kh example_registered 17 = Active"
  and example_stake: "ReadSelfStake example_kh example_registered 17 = DPoSMinValidatorStake"
proof -
  have "read_entry example_kh example_registered 17 =
      rg_entry (registry_of example_kh example_validators example_registered) 17"
    by (simp add: example_validators_def)
  then show "ReadValidatorStatus example_kh example_registered 17 = Active"
    and "ReadSelfStake example_kh example_registered 17 = DPoSMinValidatorStake"
    by (simp_all add: read_entry_sels example_entry spec_register_def)
qed

section \<open>Correctness of the registry\<close>





text \<open>
  C15. In every reachable state the active set at a block is strictly ascending by address (so it
  has no duplicates), has at most \<open>maxValidators\<close> members, and consists of registered
  validators whose effective status is active. A validator that is eligible but not chosen has a
  smaller stake than every chosen one, or the same stake and a larger address; and none is left out
  while there is room.
\<close>

theorem active_set_correct:
  assumes "no_collision kh (set (validator_keys as))" and "length as < 2 ^ 64"
    and "validator_reachable kh as st"
    and chosen_def: "chosen = ReadActiveValidatorsAtBlock kh st maxValidators currentBlock cfg"
    and eligible_def: "eligible = {a \<in> set (validator_list kh st).
      ReadEffectiveValidatorStatus kh st a currentBlock cfg = Active}"
  shows "sorted_wrt (<) chosen \<and> length chosen = min (unat maxValidators) (card eligible) \<and>
    set chosen \<subseteq> eligible \<and>
    (\<forall>x \<in> set chosen. \<forall>y \<in> eligible - set chosen.
       ReadSelfStake kh st y < ReadSelfStake kh st x \<or>
       ReadSelfStake kh st y = ReadSelfStake kh st x \<and> x < y)"
proof -
  let ?es = "active_entries (\<lambda>a. ReadEffectiveValidatorStatus kh st a currentBlock cfg) kh st"
  have "distinct (validator_list kh st)"
    using validator_reachable_inv [OF assms(1-3)] by (simp add: registry_inv_def)
  then have dist: "distinct (map fst ?es)"
    by (rule distinct_active_entries)
  have el: "eligible = fst ` set ?es"
    by (simp add: eligible_def fst_set_active_entries)
  have chosen: "chosen = select_top maxValidators ?es"
    by (simp add: chosen_def ReadActiveValidatorsAtBlock_def)
  have "card eligible = length ?es"
    using distinct_card [OF dist] by (simp add: el)
  moreover have "set chosen \<subseteq> eligible"
    unfolding chosen el by (rule set_select_top_subset)
  moreover have "sorted_wrt (<) chosen"
    using sorted_select_top distinct_select_top [OF dist] by (simp add: chosen strict_sorted_iff)
  moreover have "ReadSelfStake kh st y < ReadSelfStake kh st x \<or>
      ReadSelfStake kh st y = ReadSelfStake kh st x \<and> x < y"
    if "x \<in> set chosen" "y \<in> eligible - set chosen" for x y
  proof (rule select_top_best [OF dist])
    show "(x, ReadSelfStake kh st x) \<in> set ?es" "(y, ReadSelfStake kh st y) \<in> set ?es"
      using that \<open>set chosen \<subseteq> eligible\<close> by (auto simp: set_active_entries eligible_def)
    show "x \<in> set (select_top maxValidators ?es)" "y \<notin> set (select_top maxValidators ?es)"
      using that by (simp_all add: chosen)
  qed
  ultimately show ?thesis
    by (simp add: chosen length_select_top)
qed

theorem active_set_correct_witness:
  "sorted_wrt (<) (ReadActiveValidatorsAtBlock example_kh example_registered 21 7 None)"
  using active_set_correct [OF example_no_collision example_length example_reachable refl refl,
      of 21 7 None]
  by (rule conjunct1)

text \<open>
  C16. A validator that enters maintenance at block \<open>n\<close> leaves the active status, and from then on
  its window is exact: at a later block \<open>m\<close> it counts as expired if and only if at least
  the configured number of blocks has passed. An exit at that block fails with
  \<open>ErrMaintenanceExpired\<close> exactly then, and otherwise makes the validator active again.
\<close>

theorem maintenance_window:
  assumes "no_collision kh (set (validator_keys as))" and "From ctx \<in> set as"
    and "handleEnterMaintenance kh ctx st = (st', None)"
    and "BlockNumber ctx = Some (uint n)" and "n \<noteq> 0"
    and "From ctx' = From ctx" and "BlockNumber ctx' = Some (uint m)" and "n \<le> m"
    and "CtxChainConfig ctx' = Some cc" and "DPoS cc = Some cfg"
    and expired_def: "expired \<longleftrightarrow> unat (MaintenanceMaxBlocksEffective (Some cfg)) \<le> unat m - unat n"
  shows "ReadEffectiveValidatorStatus kh st' (From ctx) m (Some cfg) =
      (if expired then MaintenanceExpired else Maintenance) \<and>
    (if expired then handleExitMaintenance kh ctx' st' = (st', Some ErrMaintenanceExpired)
     else \<exists>st''. handleExitMaintenance kh ctx' st' = (st'', None) \<and>
       ReadEffectiveValidatorStatus kh st'' (From ctx) m (Some cfg) = Active)"
proof -
  have entry: "read_entry kh st' (From ctx) =
      (read_entry kh st (From ctx))\<lparr>ve_status := Maintenance, ve_since := n\<rparr>"
    using handleEnterMaintenance_success [OF assms(3)] read_entry_writes(2,3) [OF assms(1,2,2)] assms(4)
    by simp
  have status: "ReadValidatorStatus kh st' (From ctx) = Maintenance"
    and since: "ReadMaintenanceSince kh st' (From ctx) = n"
    by (simp_all add: read_entry_sels entry)
  have max: "MaintenanceMaxBlocksEffective (Some cfg) \<noteq> 0"
    by (auto simp: MaintenanceMaxBlocksEffective_def DPoSMaintenanceMaxBlocks_def)
  have "m - n \<ge> MaintenanceMaxBlocksEffective (Some cfg) \<longleftrightarrow> expired"
    using assms(8) by (simp add: expired_def word_le_nat_alt u64_sub_nowrap)
  moreover have "m \<noteq> 0"
    using assms(5,8) by auto
  ultimately have eff: "ReadEffectiveValidatorStatus kh st' (From ctx) m (Some cfg) =
      (if expired then MaintenanceExpired else Maintenance)"
    using assms(5,8) max by (simp add: ReadEffectiveValidatorStatus_def Let_def status since)
  have "ReadValidatorStatus kh (writeMaintenanceSince kh
      (WriteValidatorStatus kh st' (From ctx) Active) (From ctx) 0) (From ctx) = Active"
    using read_entry_writes(2,3) [OF assms(1,2,2)] by (simp add: read_entry_sels)
  then show ?thesis
    using eff status assms(6,7,9,10)
    by (simp add: handleExitMaintenance_def Let_def ReadEffectiveValidatorStatus_def [of _ _ _ m]
        status_defs)
qed

definition example_dpos :: DPoSConfig where
  "example_dpos = \<lparr>PeriodMs = 1000, Epoch = 1664, MaxValidators = 21, RecentSignerWindow = 0,
     TurnLength = 1, SealSignerType = ''ed25519'', MaintenanceMaxBlocks = 50,
     CheckpointInterval = 200, CheckpointFinalityBlock = None\<rparr>"

definition example_exit_ctx :: SysContext where
  "example_exit_ctx = \<lparr>From = 17, Value = 0, BlockNumber = Some 150,
     CtxChainConfig = Some \<lparr>ChainID = None, ProtocolForks = [], DPoS = Some example_dpos\<rparr>\<rparr>"

theorem maintenance_window_witness:
  "\<exists>st'. handleEnterMaintenance example_kh (example_ctx 17) example_registered = (st', None) \<and>
    handleExitMaintenance example_kh example_exit_ctx st' = (st', Some ErrMaintenanceExpired)"
proof -
  have "snd (handleEnterMaintenance example_kh (example_ctx 17) example_registered) = None"
    using example_status by (simp add: handleEnterMaintenance_error example_ctx_def read_entry_sels)
  then obtain st' where
    enter: "handleEnterMaintenance example_kh (example_ctx 17) example_registered = (st', None)"
    by (metis prod.collapse)
  show ?thesis
    using maintenance_window [OF example_no_collision _ enter, where n = 100 and m = 150
        and ctx' = example_exit_ctx and cfg = example_dpos and expired = True]
    by (intro exI [of _ st'])
      (simp add: enter, simp add: example_ctx_def example_exit_ctx_def example_dpos_def
        example_validators_def MaintenanceMaxBlocksEffective_def)
qed

end
