(* ===== verification/RLP.thy ===== *)
theory RLP
  imports Prelude
begin

text \<open>
  Package rlp: the encoder buffer with its deferred list headers (rlp/encbuffer.go,
  rlp/encode.go) and the splitting of encoded values (rlp/raw.go). The buffer is shown to produce
  the recursive definition of the encoding; splitting is shown to invert it and to accept nothing
  else. Values are trees of byte strings; the reflection that turns Go values into such trees is
  not modelled, except for unsigned and big integers.

  Lengths are natural numbers: a Go slice length is below \<open>2^63\<close>, and the theorems assume
  total sizes below \<open>2^64\<close> where a length is written into a header.
\<close>

datatype rlp = Str bytes | Lst "rlp list"

section \<open>Integers and headers\<close>

text \<open>\<open>byte(i >> k)\<close>\<close>

definition byte_at :: "u64 \<Rightarrow> nat \<Rightarrow> byte" where
  "byte_at i k = ucast (drop_bit k i)"

definition putint :: "u64 \<Rightarrow> bytes" where
  "putint i =
     (if i < 2 ^ 8 then [byte_at i 0]
      else if i < 2 ^ 16 then [byte_at i 8, byte_at i 0]
      else if i < 2 ^ 24 then [byte_at i 16, byte_at i 8, byte_at i 0]
      else if i < 2 ^ 32 then [byte_at i 24, byte_at i 16, byte_at i 8, byte_at i 0]
      else if i < 2 ^ 40 then [byte_at i 32, byte_at i 24, byte_at i 16, byte_at i 8, byte_at i 0]
      else if i < 2 ^ 48 then
        [byte_at i 40, byte_at i 32, byte_at i 24, byte_at i 16, byte_at i 8, byte_at i 0]
      else if i < 2 ^ 56 then
        [byte_at i 48, byte_at i 40, byte_at i 32, byte_at i 24, byte_at i 16, byte_at i 8, byte_at i 0]
      else
        [byte_at i 56, byte_at i 48, byte_at i 40, byte_at i 32, byte_at i 24, byte_at i 16,
         byte_at i 8, byte_at i 0])"

lemma unat_drop_bit: "unat (drop_bit k (i :: u64)) = unat i div 2 ^ k"
  unfolding unat_drop_bit_eq by (rule drop_bit_eq_div)

function intsize_loop :: "u64 \<Rightarrow> nat \<Rightarrow> nat" where
  "intsize_loop i n =
     (let i = drop_bit 8 i in if i = 0 then n else intsize_loop i (n + 1))"
  by pat_completeness auto
termination
proof (relation "measure (\<lambda>(i, n). unat i)")
  fix i j :: u64 and n :: nat
  assume j: "j = drop_bit 8 i" and "j \<noteq> 0"
  then have "unat j = unat i div 256" and "unat j \<noteq> 0"
    by (simp_all add: unat_drop_bit word_unat_eq_iff del: drop_bit_eq_div)
  then show "((j, n + 1), (i, n)) \<in> measure (\<lambda>(i, n). unat i)"
    by simp
qed simp

declare intsize_loop.simps [simp del]

definition intsize :: "u64 \<Rightarrow> nat" where
  "intsize i = intsize_loop i 1"

definition headsize :: "u64 \<Rightarrow> nat" where
  "headsize sz = (if sz < 56 then 1 else 1 + intsize sz)"

definition puthead :: "byte \<Rightarrow> byte \<Rightarrow> u64 \<Rightarrow> bytes" where
  "puthead smalltag largetag sz =
     (if sz < 56 then [smalltag + ucast sz]
      else let enc = putint sz in (largetag + word_of_nat (length enc)) # enc)"

section \<open>The encoder buffer\<close>

record encBuffer =
  str :: bytes
  lheads :: "(nat \<times> nat) list"
  lhsize :: nat

definition empty_encBuffer :: encBuffer where
  "empty_encBuffer = \<lparr>str = [], lheads = [], lhsize = 0\<rparr>"

definition buf_size :: "encBuffer \<Rightarrow> nat" where
  "buf_size buf = length (str buf) + lhsize buf"

definition append_str :: "encBuffer \<Rightarrow> bytes \<Rightarrow> encBuffer" where
  "append_str buf b = buf\<lparr>str := str buf @ b\<rparr>"

definition listhead_encode :: "nat \<Rightarrow> bytes" where
  "listhead_encode sz = puthead 0xC0 0xF7 (word_of_nat sz)"

text \<open>The loop of \<open>copyTo\<close> over the remaining headers, from a position in the string data.\<close>

fun copyTo :: "(nat \<times> nat) list \<Rightarrow> bytes \<Rightarrow> nat \<Rightarrow> bytes" where
  "copyTo [] s strpos = drop strpos s"
| "copyTo ((offset, sz) # heads) s strpos =
     take (offset - strpos) (drop strpos s) @ listhead_encode sz @
     copyTo heads s (strpos + (offset - strpos))"

definition makeBytes :: "encBuffer \<Rightarrow> bytes" where
  "makeBytes buf = copyTo (lheads buf) (str buf) 0"

definition writeBool :: "encBuffer \<Rightarrow> bool \<Rightarrow> encBuffer" where
  "writeBool buf b = append_str buf (if b then [0x01] else [0x80])"

definition writeUint64 :: "encBuffer \<Rightarrow> u64 \<Rightarrow> encBuffer" where
  "writeUint64 buf i =
     (if i = 0 then append_str buf [0x80]
      else if i < 128 then append_str buf [ucast i]
      else let s = putint i in append_str buf ((0x80 + word_of_nat (length s)) # s))"

definition encodeStringHeader :: "encBuffer \<Rightarrow> nat \<Rightarrow> encBuffer" where
  "encodeStringHeader buf sz =
     (if sz < 56 then append_str buf [0x80 + word_of_nat sz]
      else let s = putint (word_of_nat sz) in append_str buf ((0xB7 + word_of_nat (length s)) # s))"

definition writeBytes :: "encBuffer \<Rightarrow> bytes \<Rightarrow> encBuffer" where
  "writeBytes buf b =
     (if length b = 1 \<and> hd b \<le> 0x7F then append_str buf [hd b]
      else append_str (encodeStringHeader buf (length b)) b)"

fun bitlen :: "nat \<Rightarrow> nat" where
  "bitlen n = (if n = 0 then 0 else 1 + bitlen (n div 2))"

declare bitlen.simps [simp del]

definition writeBigInt :: "encBuffer \<Rightarrow> nat \<Rightarrow> encBuffer" where
  "writeBigInt buf i =
     (if bitlen i \<le> 64 then writeUint64 buf (word_of_nat i)
      else
        let len = (bitlen i + 7) div 8
        in append_str (encodeStringHeader buf len) (be_bytes len i))"

text \<open>\<open>list\<close> returns the index of the header it pushes.\<close>

definition buf_list :: "encBuffer \<Rightarrow> encBuffer \<times> nat" where
  "buf_list buf =
     (buf\<lparr>lheads := lheads buf @ [(length (str buf), lhsize buf)]\<rparr>, length (lheads buf))"

definition listEnd :: "encBuffer \<Rightarrow> nat \<Rightarrow> encBuffer" where
  "listEnd buf index =
     (let (offset, sz) = lheads buf ! index;
          sz' = buf_size buf - offset - sz
      in buf\<lparr>lheads := (lheads buf)[index := (offset, sz')],
             lhsize := (if sz' < 56 then lhsize buf + 1
                        else lhsize buf + (1 + intsize (word_of_nat sz')))\<rparr>)"

text \<open>The writers of byte slices and of slices, as \<open>makeWriter\<close> and \<open>makeSliceWriter\<close> select them.\<close>

fun encode_item :: "rlp \<Rightarrow> encBuffer \<Rightarrow> encBuffer"
  and encode_items :: "rlp list \<Rightarrow> encBuffer \<Rightarrow> encBuffer" where
  "encode_item (Str b) buf = writeBytes buf b"
| "encode_item (Lst xs) buf =
     (if length xs = 0 then append_str buf [0xC0]
      else let (buf, lh) = buf_list buf in listEnd (encode_items xs buf) lh)"
| "encode_items [] buf = buf"
| "encode_items (x # xs) buf = encode_items xs (encode_item x buf)"

definition EncodeToBytes :: "rlp \<Rightarrow> bytes" where
  "EncodeToBytes x = makeBytes (encode_item x empty_encBuffer)"

section \<open>Splitting\<close>

datatype rlp_kind = KByte | KString | KList

datatype rlp_error =
    ErrUnexpectedEOF
  | ErrCanonSize
  | ErrValueTooLarge
  | ErrExpectedString
  | ErrExpectedList
  | ErrCanonInt
  | errUintOverflow

definition readSize :: "bytes \<Rightarrow> nat \<Rightarrow> rlp_error + nat" where
  "readSize b slen =
     (if slen > length b then Inl ErrUnexpectedEOF
      else
        let s = be_nat (take slen b) in
        if s < 56 \<or> hd b = 0 then Inl ErrCanonSize else Inr s)"

definition check_size :: "bytes \<Rightarrow> rlp_kind \<Rightarrow> nat \<Rightarrow> nat \<Rightarrow> rlp_error + rlp_kind \<times> nat \<times> nat" where
  "check_size buf k tagsize contentsize =
     (if contentsize > length buf - tagsize then Inl ErrValueTooLarge
      else Inr (k, tagsize, contentsize))"

definition readKind :: "bytes \<Rightarrow> rlp_error + rlp_kind \<times> nat \<times> nat" where
  "readKind buf =
     (case buf of [] \<Rightarrow> Inl ErrUnexpectedEOF
      | b # bs \<Rightarrow>
          if b < 0x80 then check_size buf KByte 0 1
          else if b < 0xB8 then
            (let contentsize = unat (b - 0x80) in
             if contentsize = 1 \<and> length buf > 1 \<and> buf ! 1 < 128 then Inl ErrCanonSize
             else check_size buf KString 1 contentsize)
          else if b < 0xC0 then
            (case readSize bs (unat (b - 0xB7)) of
               Inl e \<Rightarrow> Inl e
             | Inr contentsize \<Rightarrow> check_size buf KString (unat (b - 0xB7) + 1) contentsize)
          else if b < 0xF8 then check_size buf KList 1 (unat (b - 0xC0))
          else
            (case readSize bs (unat (b - 0xF7)) of
               Inl e \<Rightarrow> Inl e
             | Inr contentsize \<Rightarrow> check_size buf KList (unat (b - 0xF7) + 1) contentsize))"

definition Split :: "bytes \<Rightarrow> rlp_error + rlp_kind \<times> bytes \<times> bytes" where
  "Split b =
     (case readKind b of Inl e \<Rightarrow> Inl e
      | Inr (k, ts, cs) \<Rightarrow> Inr (k, take cs (drop ts b), drop (ts + cs) b))"

definition SplitString :: "bytes \<Rightarrow> rlp_error + bytes \<times> bytes" where
  "SplitString b =
     (case Split b of Inl e \<Rightarrow> Inl e
      | Inr (k, content, rest) \<Rightarrow> if k = KList then Inl ErrExpectedString else Inr (content, rest))"

definition SplitList :: "bytes \<Rightarrow> rlp_error + bytes \<times> bytes" where
  "SplitList b =
     (case Split b of Inl e \<Rightarrow> Inl e
      | Inr (k, content, rest) \<Rightarrow> if k \<noteq> KList then Inl ErrExpectedList else Inr (content, rest))"

definition SplitUint64 :: "bytes \<Rightarrow> rlp_error + u64 \<times> bytes" where
  "SplitUint64 b =
     (case SplitString b of Inl e \<Rightarrow> Inl e
      | Inr (content, rest) \<Rightarrow>
          if length content = 0 then Inr (0, rest)
          else if length content = 1 then
            (if content ! 0 = 0 then Inl ErrCanonInt else Inr (ucast (content ! 0), rest))
          else if length content > 8 then Inl errUintOverflow
          else
            (case readSize content (length content) of
               Inl _ \<Rightarrow> Inl ErrCanonInt
             | Inr x \<Rightarrow> Inr (word_of_nat x, rest)))"

definition AppendUint64 :: "bytes \<Rightarrow> u64 \<Rightarrow> bytes" where
  "AppendUint64 b i =
     (if i = 0 then b @ [0x80]
      else if i < 128 then b @ [ucast i]
      else if i < 2 ^ 8 then b @ [0x81, byte_at i 0]
      else if i < 2 ^ 16 then b @ [0x82, byte_at i 8, byte_at i 0]
      else if i < 2 ^ 24 then b @ [0x83, byte_at i 16, byte_at i 8, byte_at i 0]
      else if i < 2 ^ 32 then b @ [0x84, byte_at i 24, byte_at i 16, byte_at i 8, byte_at i 0]
      else if i < 2 ^ 40 then
        b @ [0x85, byte_at i 32, byte_at i 24, byte_at i 16, byte_at i 8, byte_at i 0]
      else if i < 2 ^ 48 then
        b @ [0x86, byte_at i 40, byte_at i 32, byte_at i 24, byte_at i 16, byte_at i 8, byte_at i 0]
      else if i < 2 ^ 56 then
        b @ [0x87, byte_at i 48, byte_at i 40, byte_at i 32, byte_at i 24, byte_at i 16, byte_at i 8,
             byte_at i 0]
      else
        b @ [0x88, byte_at i 56, byte_at i 48, byte_at i 40, byte_at i 32, byte_at i 24, byte_at i 16,
             byte_at i 8, byte_at i 0])"

lemma readKind_progress: "readKind b = Inr (k, ts, cs) \<Longrightarrow> 0 < ts + cs \<and> b \<noteq> []"
  by (auto simp: readKind_def check_size_def Let_def split: list.splits if_splits sum.splits)

function count_loop :: "bytes \<Rightarrow> nat \<Rightarrow> rlp_error + nat" where
  "count_loop b i =
     (if length b = 0 then Inr i
      else case readKind b of Inl e \<Rightarrow> Inl e
        | Inr (k, tagsize, sz) \<Rightarrow> count_loop (drop (tagsize + sz) b) (i + 1))"
  by pat_completeness auto
termination
  by (relation "measure (\<lambda>(b, i). length b)") (auto dest: readKind_progress)

declare count_loop.simps [simp del]

definition CountValues :: "bytes \<Rightarrow> rlp_error + nat" where
  "CountValues b = count_loop b 0"

section \<open>The minimal big-endian form\<close>

fun be_len :: "nat \<Rightarrow> nat" where
  "be_len n = (if n < 256 then 1 else 1 + be_len (n div 256))"

declare be_len.simps [simp del]

lemma be_len_eqI: "n < 256 ^ Suc k \<Longrightarrow> k = 0 \<or> 256 ^ k \<le> n \<Longrightarrow> be_len n = Suc k"
proof (induction k arbitrary: n)
  case 0
  then show ?case by (simp add: be_len.simps)
next
  case (Suc k)
  have "256 \<le> n"
    using Suc.prems(2) by (simp add: order_trans [rotated])
  moreover have "n div 256 < 256 ^ Suc k"
    using Suc.prems(1) by (simp add: less_mult_imp_div_less)
  moreover have "256 ^ k \<le> n div 256"
    using Suc.prems(2) by (simp add: less_eq_div_iff_mult_less_eq mult.commute)
  ultimately show ?case
    using Suc.IH [of "n div 256"] by (simp add: be_len.simps [of n])
qed

lemma be_len_pos: "0 < be_len n"
  by (simp add: be_len.simps)

lemma be_len_upper: "n < 256 ^ be_len n"
proof (induction n rule: be_len.induct)
  case (1 n)
  show ?case
  proof (cases "n < 256")
    case False
    then have "n div 256 < 256 ^ be_len (n div 256)"
      by (rule 1)
    then show ?thesis
      using False by (simp add: be_len.simps [of n] div_less_iff_less_mult mult.commute)
  qed (simp add: be_len.simps)
qed

lemma be_len_lower: "256 \<le> n \<Longrightarrow> 256 ^ (be_len n - 1) \<le> n"
proof (induction n rule: be_len.induct)
  case (1 n)
  have n: "be_len n = 1 + be_len (n div 256)"
    using "1.prems" by (simp add: be_len.simps)
  show ?case
  proof (cases "n div 256 < 256")
    case True
    then show ?thesis
      using "1.prems" n by (simp add: be_len.simps [of "n div 256"])
  next
    case False
    then have "256 ^ (be_len (n div 256) - 1) \<le> n div 256"
      using 1 by simp
    then have "256 * 256 ^ (be_len (n div 256) - 1) \<le> n"
      by (simp add: less_eq_div_iff_mult_less_eq mult.commute)
    then show ?thesis
      using n be_len_pos [of "n div 256"] by (simp flip: power_Suc)
  qed
qed

lemma be_bytes_map: "be_bytes k n = map (\<lambda>j. word_of_nat (n div 256 ^ j mod 256)) (rev [0..<k])"
proof (induction k arbitrary: n)
  case (Suc k)
  have "[0..<Suc k] = 0 # map Suc [0..<k]"
    by (simp add: map_Suc_upt upt_conv_Cons del: upt_Suc)
  then show ?case
    by (simp add: Suc div_mult2_eq rev_map comp_def del: upt_Suc)
qed simp

lemma byte_at_eq: "byte_at i (8 * k) = word_of_nat (unat i div 256 ^ k mod 256)"
  by (simp add: word_unat_eq_iff byte_at_def unsigned_ucast_eq take_bit_eq_mod unat_of_nat
      unat_drop_bit power_mult)

lemma putint_cases:
  fixes i :: u64
  obtains k where "k < 8" "k = 0 \<or> 256 ^ k \<le> unat i" "unat i < 256 ^ Suc k"
proof -
  let ?k = "be_len (unat i) - 1"
  have k: "Suc ?k = be_len (unat i)"
    using be_len_pos [of "unat i"] by simp
  have lower: "?k = 0 \<or> 256 ^ ?k \<le> unat i"
    using be_len_lower [of "unat i"] by (cases "unat i < 256") (simp_all add: be_len.simps [of "unat i"])
  have "?k < 8"
  proof (rule ccontr)
    assume "\<not> ?k < 8"
    then have "(256::nat) ^ 8 \<le> 256 ^ ?k"
      by (intro power_increasing) simp_all
    with lower \<open>\<not> ?k < 8\<close> show False
      using unat_u64_less [of i] by auto
  qed
  with lower show thesis
    using that [of ?k] be_len_upper [of "unat i"] unfolding k by simp
qed

lemma u64_less_numeral:
  "m < 2 ^ 64 \<Longrightarrow> (i :: u64) < word_of_nat m \<longleftrightarrow> unat i < m"
  by (simp add: word_less_nat_alt unat_of_nat_small)

lemmas putint_bounds =
  u64_less_numeral [of "2 ^ 8", simplified] u64_less_numeral [of "2 ^ 16", simplified]
  u64_less_numeral [of "2 ^ 24", simplified] u64_less_numeral [of "2 ^ 32", simplified]
  u64_less_numeral [of "2 ^ 40", simplified] u64_less_numeral [of "2 ^ 48", simplified]
  u64_less_numeral [of "2 ^ 56", simplified]

lemmas byte_at_eqs = byte_at_eq [of _ 0, simplified] byte_at_eq [of _ 1, simplified]
  byte_at_eq [of _ 2, simplified] byte_at_eq [of _ 3, simplified] byte_at_eq [of _ 4, simplified]
  byte_at_eq [of _ 5, simplified] byte_at_eq [of _ 6, simplified] byte_at_eq [of _ 7, simplified]

lemma putint_be_bytes: "putint i = be_bytes (be_len (unat i)) (unat i)"
proof (rule putint_cases [of i])
  fix k
  assume k: "k < 8" "k = 0 \<or> 256 ^ k \<le> unat i" "unat i < 256 ^ Suc k"
  then have len: "be_len (unat i) = Suc k"
    by (intro be_len_eqI)
  from k(1) consider "k = 0" | "k = 1" | "k = 2" | "k = 3" | "k = 4" | "k = 5" | "k = 6" | "k = 7"
    by linarith
  then show ?thesis
    using k(2,3) unfolding len
    by cases (simp_all add: putint_def putint_bounds byte_at_eqs be_bytes_map upt_rec)
qed

lemma length_putint [simp]: "length (putint i) = be_len (unat i)"
  by (simp add: putint_be_bytes)

lemma intsize_loop_eq: "intsize_loop i n = n + (be_len (unat i) - 1)"
proof (induction i n rule: intsize_loop.induct)
  case (1 i n)
  have u: "unat (drop_bit 8 i) = unat i div 256"
    by (simp add: unat_drop_bit)
  show ?case
  proof (cases "unat i < 256")
    case True
    then have "drop_bit 8 i = 0"
      using u by (simp add: word_unat_eq_iff)
    then show ?thesis
      using True by (simp add: intsize_loop.simps [of i] be_len.simps [of "unat i"])
  next
    case False
    then have "drop_bit 8 i \<noteq> 0"
      using u by (auto simp: word_unat_eq_iff)
    then show ?thesis
      using False 1 [OF refl] u be_len_pos [of "unat i div 256"]
      by (simp add: intsize_loop.simps [of i] be_len.simps [of "unat i"])
  qed
qed

lemma intsize_eq [simp]: "intsize i = be_len (unat i)"
  using be_len_pos [of "unat i"] by (simp add: intsize_def intsize_loop_eq)

lemma puthead_eq:
  assumes "n < 2 ^ 64"
  shows "puthead small large (word_of_nat n) =
    (if n < 56 then [small + word_of_nat n]
     else (large + word_of_nat (be_len n)) # be_bytes (be_len n) n)"
proof -
  have u: "unat (word_of_nat n :: u64) = n"
    using assms by (simp add: unat_of_nat_small)
  moreover have "(word_of_nat n :: u64) < 56 \<longleftrightarrow> n < 56"
    using u by (simp add: word_less_nat_alt)
  moreover have "(ucast (word_of_nat n :: u64) :: byte) = word_of_nat n" if "n < 56"
    using that u by (simp add: word_unat_eq_iff unsigned_ucast_eq unat_of_nat_small take_bit_nat_eq_self)
  ultimately show ?thesis
    by (simp add: puthead_def Let_def putint_be_bytes)
qed

section \<open>The encoding as a recursive definition\<close>

fun rlp_enc :: "rlp \<Rightarrow> bytes" where
  "rlp_enc (Str b) =
     (if length b = 1 \<and> hd b \<le> 0x7F then b else puthead 0x80 0xB7 (word_of_nat (length b)) @ b)"
| "rlp_enc (Lst xs) =
     (let c = concat (map rlp_enc xs) in puthead 0xC0 0xF7 (word_of_nat (length c)) @ c)"

lemma puthead_not_Nil [simp]: "puthead s l n \<noteq> []"
  by (simp add: puthead_def Let_def)

lemma rlp_enc_not_Nil [simp]: "rlp_enc x \<noteq> []"
  by (cases x) (auto simp: Let_def)

lemma append_str_sels [simp]:
  "str (append_str buf b) = str buf @ b" "lheads (append_str buf b) = lheads buf"
  "lhsize (append_str buf b) = lhsize buf"
  by (simp_all add: append_str_def)

lemma append_str_append [simp]: "append_str (append_str buf a) b = append_str buf (a @ b)"
  by (simp add: append_str_def)

lemma encodeStringHeader_eq:
  "n < 2 ^ 64 \<Longrightarrow> encodeStringHeader buf n = append_str buf (puthead 0x80 0xB7 (word_of_nat n))"
  by (simp add: encodeStringHeader_def puthead_eq putint_be_bytes Let_def unat_of_nat_small)

lemma writeBytes_eq:
  "length b < 2 ^ 64 \<Longrightarrow> writeBytes buf b = append_str buf (rlp_enc (Str b))"
  by (cases b) (auto simp: writeBytes_def encodeStringHeader_eq)

text \<open>
  What encoding a value adds to a buffer: string data, list headers with offsets relative to the
  end of the data so far, and the size of those headers. Rendering the addition gives the
  encoding.
\<close>

definition shift :: "nat \<Rightarrow> (nat \<times> nat) list \<Rightarrow> (nat \<times> nat) list" where
  "shift k hs = map (\<lambda>(o', z). (o' + k, z)) hs"

definition extend_buf :: "encBuffer \<Rightarrow> bytes \<Rightarrow> (nat \<times> nat) list \<Rightarrow> nat \<Rightarrow> encBuffer" where
  "extend_buf buf s hs l = buf\<lparr>str := str buf @ s, lheads := lheads buf @ shift (length (str buf)) hs,
     lhsize := lhsize buf + l\<rparr>"

definition renders :: "bytes \<Rightarrow> (nat \<times> nat) list \<Rightarrow> bytes \<Rightarrow> bool" where
  "renders s hs e \<longleftrightarrow> (\<forall>pre post rest. (\<forall>(o', z) \<in> set rest. length pre + length s \<le> o') \<longrightarrow>
     copyTo (shift (length pre) hs @ rest) (pre @ s @ post) (length pre) =
     e @ copyTo rest (pre @ s @ post) (length pre + length s))"

lemma shift_simps [simp]: "shift k [] = []" "shift k ((a, z) # hs) = (a + k, z) # shift k hs"
  "shift k (hs @ hs') = shift k hs @ shift k hs'" "shift k (shift j hs) = shift (j + k) hs"
  "shift 0 hs = hs"
  by (auto simp: shift_def add.assoc)

lemma shift_ge: "(a, z) \<in> set (shift k hs) \<Longrightarrow> k \<le> a"
  by (auto simp: shift_def)

lemma copyTo_skip:
  assumes "\<forall>(a, z) \<in> set rest. p + n \<le> a"
  shows "copyTo rest s p = take n (drop p s) @ copyTo rest s (p + n)"
proof (cases rest)
  case Nil
  then show ?thesis
    by (metis copyTo.simps(1) append_take_drop_id drop_drop add.commute)
next
  case (Cons h hs)
  obtain a z where h: "h = (a, z)" by fastforce
  with assms Cons have "p + n \<le> a" by auto
  then obtain d where d: "a = p + n + d"
    by (auto simp: le_iff_add)
  have "take (n + d) (drop p s) = take n (drop p s) @ take d (drop (n + p) s)"
    by (simp add: take_add)
  then show ?thesis
    using Cons h d by (simp add: add.commute add.left_commute)
qed

lemma renders_str: "renders s [] s"
  unfolding renders_def
proof (intro allI impI)
  fix pre post :: bytes and rest :: "(nat \<times> nat) list"
  assume "\<forall>(a, z) \<in> set rest. length pre + length s \<le> a"
  from copyTo_skip [OF this, of "pre @ s @ post"]
  show "copyTo (shift (length pre) [] @ rest) (pre @ s @ post) (length pre) =
      s @ copyTo rest (pre @ s @ post) (length pre + length s)"
    by simp
qed

lemma renders_append:
  assumes "renders s hs e" and "renders t gs f"
  shows "renders (s @ t) (hs @ shift (length s) gs) (e @ f)"
  unfolding renders_def
proof (intro allI impI)
  fix pre post :: bytes and rest :: "(nat \<times> nat) list"
  assume rest: "\<forall>(a, z) \<in> set rest. length pre + length (s @ t) \<le> a"
  have "\<forall>(a, z) \<in> set (shift (length s + length pre) gs @ rest). length pre + length s \<le> a"
    using rest by (auto dest: shift_ge)
  with assms(1) have "copyTo (shift (length pre) hs @ shift (length s + length pre) gs @ rest)
      (pre @ s @ t @ post) (length pre) =
    e @ copyTo (shift (length s + length pre) gs @ rest) (pre @ s @ t @ post) (length pre + length s)"
    unfolding renders_def by blast
  moreover have "copyTo (shift (length (pre @ s)) gs @ rest) ((pre @ s) @ t @ post) (length (pre @ s)) =
    f @ copyTo rest ((pre @ s) @ t @ post) (length (pre @ s) + length t)"
    using assms(2) [unfolded renders_def, THEN spec [of _ "pre @ s"], THEN spec [of _ post],
        THEN spec [of _ rest]] rest
    by (simp add: add.assoc)
  ultimately show "copyTo (shift (length pre) (hs @ shift (length s) gs) @ rest)
      (pre @ (s @ t) @ post) (length pre) =
    (e @ f) @ copyTo rest (pre @ (s @ t) @ post) (length pre + length (s @ t))"
    by (simp add: ac_simps)
qed

lemma renders_list:
  assumes "renders s hs e"
  shows "renders s ((0, n) # hs) (listhead_encode n @ e)"
  using assms unfolding renders_def by simp

lemma extend_extend:
  "extend_buf (extend_buf buf s hs l) t gs m = extend_buf buf (s @ t) (hs @ shift (length s) gs) (l + m)"
  by (simp add: extend_buf_def ac_simps)

lemma append_str_extend: "append_str buf s = extend_buf buf s [] 0"
  by (simp add: extend_buf_def append_str_def)

lemma list_close:
  assumes "\<And>buf. encode_items xs buf = extend_buf buf s hs l"
    and len: "length s + l = n" and n: "n < 2 ^ 64"
  shows "listEnd (encode_items xs (fst (buf_list buf))) (snd (buf_list buf)) =
    extend_buf buf s ((0, n) # hs) (l + length (listhead_encode n))"
proof -
  have hl: "length (listhead_encode n) = (if n < 56 then 1 else 1 + intsize (word_of_nat n))"
    using n by (simp add: listhead_encode_def puthead_eq unat_of_nat_small)
  have "lheads (encode_items xs (fst (buf_list buf))) ! length (lheads buf) =
      (length (str buf), lhsize buf)"
    by (simp add: assms(1) extend_buf_def buf_list_def nth_append)
  then show ?thesis
    using len hl
    by (simp add: listEnd_def assms(1) extend_buf_def buf_list_def buf_size_def ac_simps
        list_update_append nth_append split: if_splits)
qed

definition extends_by :: "(encBuffer \<Rightarrow> encBuffer) \<Rightarrow> bytes \<Rightarrow> bool" where
  "extends_by f e \<longleftrightarrow> (\<exists>s hs l. (\<forall>buf. f buf = extend_buf buf s hs l) \<and>
     length s + l = length e \<and> renders s hs e)"

lemma extends_by_comp:
  assumes "extends_by f e" and "extends_by g e'"
  shows "extends_by (\<lambda>buf. g (f buf)) (e @ e')"
proof -
  obtain s hs l where f: "\<And>buf. f buf = extend_buf buf s hs l" "length s + l = length e" "renders s hs e"
    using assms(1) by (auto simp: extends_by_def)
  obtain t gs m where g: "\<And>buf. g buf = extend_buf buf t gs m" "length t + m = length e'" "renders t gs e'"
    using assms(2) by (auto simp: extends_by_def)
  have "\<forall>buf. g (f buf) = extend_buf buf (s @ t) (hs @ shift (length s) gs) (l + m)"
    by (simp add: f g extend_extend)
  moreover have "length (s @ t) + (l + m) = length (e @ e')"
    using f g by simp
  ultimately show ?thesis
    unfolding extends_by_def using renders_append [OF f(3) g(3)] by blast
qed

lemma extends_by_id: "extends_by (\<lambda>buf. buf) []"
  unfolding extends_by_def
  by (intro exI [of _ "[]"] exI [of _ 0]) (simp add: extend_buf_def renders_str)

lemma extends_by_append_str: "extends_by (\<lambda>buf. append_str buf s) s"
  unfolding extends_by_def append_str_extend
  by (intro exI [of _ s] exI [of _ "[]"] exI [of _ 0]) (simp add: renders_str)

lemma encode_items_extends:
  assumes "\<And>x. x \<in> set xs \<Longrightarrow> extends_by (encode_item x) (rlp_enc x)"
  shows "extends_by (encode_items xs) (concat (map rlp_enc xs))"
  using assms
proof (induction xs)
  case Nil
  then show ?case using extends_by_id by simp
next
  case (Cons x xs)
  then have "extends_by (encode_items xs) (concat (map rlp_enc xs))"
    and "extends_by (encode_item x) (rlp_enc x)" by simp_all
  from extends_by_comp [OF this(2,1)] show ?case by simp
qed

lemma list_extends:
  assumes "extends_by (encode_items xs) e" and "length e < 2 ^ 64"
  shows "extends_by (\<lambda>buf. listEnd (encode_items xs (fst (buf_list buf))) (snd (buf_list buf)))
    (listhead_encode (length e) @ e)"
proof -
  obtain s hs l where *: "\<And>buf. encode_items xs buf = extend_buf buf s hs l"
      "length s + l = length e" "renders s hs e"
    using assms(1) by (auto simp: extends_by_def)
  have "\<forall>buf. listEnd (encode_items xs (fst (buf_list buf))) (snd (buf_list buf)) =
      extend_buf buf s ((0, length e) # hs) (l + length (listhead_encode (length e)))"
    using list_close [OF *(1,2) assms(2)] by blast
  moreover have "length s + (l + length (listhead_encode (length e))) =
      length (listhead_encode (length e) @ e)"
    using *(2) by simp
  ultimately show ?thesis
    unfolding extends_by_def using renders_list [OF *(3)] by blast
qed

lemma length_concat_member: "x \<in> set xs \<Longrightarrow> length (f x) \<le> length (concat (map f xs))"
  by (induction xs) auto

lemma encode_extends: "length (rlp_enc x) < 2 ^ 64 \<Longrightarrow> extends_by (encode_item x) (rlp_enc x)"
proof (induction x)
  case (Str b)
  then have "length b < 2 ^ 64"
    by (auto simp: split: if_splits)
  then have "encode_item (Str b) = (\<lambda>buf. append_str buf (rlp_enc (Str b)))"
    by (simp add: fun_eq_iff writeBytes_eq del: rlp_enc.simps)
  then show ?case
    using extends_by_append_str by simp
next
  case (Lst xs)
  let ?c = "concat (map rlp_enc xs)"
  have c: "length ?c < 2 ^ 64"
    using Lst.prems by (simp add: Let_def)
  have "length (rlp_enc x) < 2 ^ 64" if "x \<in> set xs" for x
    using length_concat_member [OF that, of rlp_enc] c by simp
  then have "extends_by (encode_items xs) ?c"
    using Lst.IH by (intro encode_items_extends) blast
  note ext = list_extends [OF this c]
  show ?case
  proof (cases "xs = []")
    case True
    then have "encode_item (Lst xs) = (\<lambda>buf. append_str buf [0xC0])"
      and "rlp_enc (Lst xs) = [0xC0]"
      by (simp_all add: fun_eq_iff puthead_def)
    then show ?thesis
      using extends_by_append_str by simp
  next
    case False
    then have "encode_item (Lst xs) =
        (\<lambda>buf. listEnd (encode_items xs (fst (buf_list buf))) (snd (buf_list buf)))"
      by (simp add: fun_eq_iff split_beta)
    then show ?thesis
      using ext by (simp add: listhead_encode_def Let_def)
  qed
qed

lemma EncodeToBytes_eq:
  assumes "length (rlp_enc x) < 2 ^ 64"
  shows "EncodeToBytes x = rlp_enc x"
proof -
  obtain s hs l where *: "\<And>buf. encode_item x buf = extend_buf buf s hs l" "renders s hs (rlp_enc x)"
    using encode_extends [OF assms] by (auto simp: extends_by_def)
  have "copyTo hs s 0 = rlp_enc x"
    using *(2) [unfolded renders_def, THEN spec [of _ "[]"], THEN spec [of _ "[]"], THEN spec [of _ "[]"]]
    by simp
  then show ?thesis
    by (simp add: EncodeToBytes_def makeBytes_def *(1) extend_buf_def empty_encBuffer_def)
qed

lemma EncodeToBytes_Str: "length c < 2 ^ 64 \<Longrightarrow> EncodeToBytes (Str c) = rlp_enc (Str c)"
  by (simp add: EncodeToBytes_def makeBytes_def empty_encBuffer_def writeBytes_eq append_str_def
      del: rlp_enc.simps)

lemma length_EncodeToBytes_Str: "length c \<le> length (EncodeToBytes (Str c))"
  by (simp add: EncodeToBytes_def makeBytes_def empty_encBuffer_def writeBytes_def append_str_def
      encodeStringHeader_def Let_def)

section \<open>Splitting inverts the encoding\<close>

lemma unat_of_nat_byte: "n < 256 \<Longrightarrow> unat (word_of_nat n :: byte) = n"
  by (simp add: unat_of_nat_small)

lemma unat_byte_add: "unat c + n < 256 \<Longrightarrow> unat (c + word_of_nat n :: byte) = unat c + n"
  using unat_of_nat_byte [of n] by (simp add: unat_word_ariths)

lemma be_len_le8: "n < 2 ^ 64 \<Longrightarrow> be_len n \<le> 8"
proof (rule ccontr)
  assume n: "n < 2 ^ 64" and "\<not> be_len n \<le> 8"
  then have "256 ^ 8 \<le> (256 :: nat) ^ (be_len n - 1)"
    by (intro power_increasing) simp_all
  moreover have "256 ^ (be_len n - 1) \<le> n"
    using \<open>\<not> be_len n \<le> 8\<close> by (intro be_len_lower) (auto simp: be_len.simps [of n] split: if_splits)
  ultimately show False using n by simp
qed

lemma hd_be_bytes: "0 < k \<Longrightarrow> hd (be_bytes k n) = word_of_nat (n div 256 ^ (k - 1) mod 256)"
  by (cases k) (simp_all add: be_bytes_map)

lemma hd_be_len: "0 < n \<Longrightarrow> hd (be_bytes (be_len n) n) \<noteq> 0"
proof -
  assume n: "0 < n"
  let ?d = "n div 256 ^ (be_len n - 1)"
  have "256 ^ (be_len n - 1) \<le> n"
    using n be_len_lower [of n] by (cases "n < 256") (simp_all add: be_len.simps [of n])
  then have "0 < ?d"
    by (simp add: div_greater_zero_iff)
  moreover have "n < 256 * 256 ^ (be_len n - 1)"
    using be_len_upper [of n] be_len_pos [of n] by (simp flip: power_Suc)
  then have "?d < 256"
    by (simp add: div_less_iff_less_mult mult.commute)
  ultimately show ?thesis
    using unat_of_nat_byte [of ?d] by (auto simp: hd_be_bytes be_len_pos simp flip: unsigned_eq_0_iff)
qed

lemma be_len_be_nat: "bs \<noteq> [] \<Longrightarrow> hd bs \<noteq> 0 \<Longrightarrow> be_len (be_nat bs) = length bs"
proof (cases bs)
  case (Cons b cs)
  assume "hd bs \<noteq> 0"
  then have "1 \<le> unat b"
    using Cons by (simp add: unat_gt_0 Suc_le_eq)
  then have "1 * 256 ^ length cs \<le> unat b * 256 ^ length cs"
    by (rule mult_le_mono1)
  then have "256 ^ length cs \<le> be_nat bs"
    unfolding Cons be_nat.simps by linarith
  then show ?thesis
    using be_nat_less [of bs] Cons be_len_eqI [of "be_nat bs" "length cs"] by simp
qed simp

lemma readSize_be_bytes:
  "56 \<le> n \<Longrightarrow> readSize (be_bytes (be_len n) n @ r) (be_len n) = Inr n"
  using hd_be_len [of n] be_nat_be_bytes [OF be_len_upper [of n]] be_len_pos [of n]
  by (simp add: readSize_def hd_append) (metis length_be_bytes length_0_conv less_not_refl)

lemma readSize_Inr:
  assumes "readSize b slen = Inr s" and "0 < slen"
  shows "slen \<le> length b \<and> 56 \<le> s \<and> be_len s = slen \<and> take slen b = be_bytes slen s"
proof -
  have *: "slen \<le> length b" "s = be_nat (take slen b)" "56 \<le> s" "hd b \<noteq> 0"
    using assms(1) by (auto simp: readSize_def Let_def split: if_splits)
  have len: "length (take slen b) = slen"
    using *(1) by simp
  have "hd (take slen b) \<noteq> 0" "take slen b \<noteq> []"
    using * assms(2) by (auto simp: hd_take)
  then have "be_len s = slen"
    using be_len_be_nat [of "take slen b"] *(2) len by simp
  then show ?thesis
    using be_bytes_be_nat [of "take slen b"] * len by simp
qed

lemma check_size_eq:
  "check_size buf k t c = Inr r \<longleftrightarrow> r = (k, t, c) \<and> c \<le> length buf - t"
  by (auto simp: check_size_def)

text \<open>Reading a header that \<open>puthead\<close> has written.\<close>

lemma byte_less_numeral: "(b :: byte) < numeral k \<longleftrightarrow> unat b < unat (numeral k :: byte)"
  by (rule word_less_nat_alt)

lemma readKind_list_head:
  assumes "n < 2 ^ 64" and "n \<le> length r"
  shows "readKind (puthead 0xC0 0xF7 (word_of_nat n) @ r) =
    Inr (KList, length (puthead 0xC0 0xF7 (word_of_nat n)), n)"
proof (cases "n < 56")
  case True
  then show ?thesis
    using assms unat_byte_add [of "0xC0" n] unat_of_nat_byte [of n]
    by (simp add: puthead_eq readKind_def check_size_def byte_less_numeral)
next
  case False
  have len: "be_len n \<le> 8" "0 < be_len n"
    using be_len_le8 [OF assms(1)] be_len_pos by auto
  then have "unat (0xF7 + word_of_nat (be_len n) :: byte) = 247 + be_len n"
    "unat (word_of_nat (be_len n) :: byte) = be_len n"
    using unat_byte_add [of "0xF7" "be_len n"] unat_of_nat_byte [of "be_len n"] by simp_all
  then show ?thesis
    using assms False len readSize_be_bytes [of n r]
    by (simp add: puthead_eq readKind_def check_size_def byte_less_numeral)
qed

lemma readKind_str_head:
  assumes "n < 2 ^ 64" and "n \<le> length r" and "n = 1 \<Longrightarrow> r ! 0 > 0x7F"
  shows "readKind (puthead 0x80 0xB7 (word_of_nat n) @ r) =
    Inr (KString, length (puthead 0x80 0xB7 (word_of_nat n)), n)"
proof (cases "n < 56")
  case True
  then show ?thesis
    using assms unat_byte_add [of "0x80" n] unat_of_nat_byte [of n]
    by (auto simp: puthead_eq readKind_def check_size_def byte_less_numeral word_less_nat_alt)
next
  case False
  have len: "be_len n \<le> 8" "0 < be_len n"
    using be_len_le8 [OF assms(1)] be_len_pos by auto
  then have "unat (0xB7 + word_of_nat (be_len n) :: byte) = 183 + be_len n"
    "unat (word_of_nat (be_len n) :: byte) = be_len n"
    using unat_byte_add [of "0xB7" "be_len n"] unat_of_nat_byte [of "be_len n"] by simp_all
  then show ?thesis
    using assms False len readSize_be_bytes [of n r]
    by (simp add: puthead_eq readKind_def check_size_def byte_less_numeral)
qed

lemma Split_Str:
  assumes "length b < 2 ^ 64"
  shows "Split (rlp_enc (Str b) @ r) =
    Inr (if length b = 1 \<and> hd b \<le> 0x7F then KByte else KString, b, r)"
proof (cases "length b = 1 \<and> hd b \<le> 0x7F")
  case True
  then obtain c where b: "b = [c]" and "c \<le> 0x7F"
    by (cases b) auto
  then have "c < 0x80"
    by (simp add: word_less_nat_alt word_le_nat_alt)
  then show ?thesis
    using b \<open>c \<le> 0x7F\<close> by (simp add: Split_def readKind_def check_size_def)
next
  case False
  have "readKind (puthead 0x80 0xB7 (word_of_nat (length b)) @ (b @ r)) =
      Inr (KString, length (puthead 0x80 0xB7 (word_of_nat (length b))), length b)"
    using assms False by (intro readKind_str_head) (cases b, auto simp: not_le)+
  then show ?thesis
    unfolding Split_def using False by auto
qed

lemma Split_Lst:
  assumes "length (concat (map rlp_enc xs)) < 2 ^ 64"
  shows "Split (rlp_enc (Lst xs) @ r) = Inr (KList, concat (map rlp_enc xs), r)"
proof -
  let ?c = "concat (map rlp_enc xs)"
  have "readKind (puthead 0xC0 0xF7 (word_of_nat (length ?c)) @ (?c @ r)) =
      Inr (KList, length (puthead 0xC0 0xF7 (word_of_nat (length ?c))), length ?c)"
    using assms by (intro readKind_list_head) simp_all
  then show ?thesis
    unfolding Split_def rlp_enc.simps Let_def by simp
qed

lemma byte_tag: "c \<le> b \<Longrightarrow> unat (b - c :: byte) = unat b - unat c \<and> c + word_of_nat (unat (b - c)) = b"
proof -
  assume "c \<le> b"
  moreover have "c + word_of_nat (unat (b - c)) = b" by simp
  ultimately show ?thesis by (metis unat_sub)
qed

text \<open>
  The bytes a successful split consumes are the canonical header of the content it returns, one
  lemma per class of the first byte.
\<close>

lemma long_head:
  assumes "readSize bs n = Inr cs" and "0 < n" and "cs \<le> length (b0 # bs) - (n + 1)"
    and c: "c = take cs (drop (n + 1) (b0 # bs))" and r: "r = drop (n + 1 + cs) (b0 # bs)"
    and "length (b0 # bs) < 2 ^ 64"
  shows "length c = cs \<and> cs < 2 ^ 64 \<and> 56 \<le> cs \<and> be_len cs = n \<and> b0 # bs = b0 # be_bytes n cs @ c @ r"
proof -
  note size = readSize_Inr [OF assms(1,2)]
  have "length c = cs" "cs < 2 ^ 64"
    using assms(3,6) c by simp_all
  moreover have "bs = take n bs @ take cs (drop n bs) @ drop (n + cs) bs"
    by (metis append_take_drop_id drop_drop add.commute)
  ultimately show ?thesis
    using size c r by simp
qed

lemma readKind_Inr_cases:
  assumes "readKind (b0 # bs) = Inr (k, ts, cs)"
  obtains (byte) "b0 \<le> 0x7F" "k = KByte" "ts = 0" "cs = 1"
  | (str) "0x80 + word_of_nat cs = b0" "k = KString" "ts = 1" "cs < 56" "cs \<le> length bs"
      "\<not> (cs = 1 \<and> bs \<noteq> [] \<and> hd bs \<le> 0x7F)"
  | (long_str) n where "0xB7 + word_of_nat n = b0" "k = KString" "ts = n + 1" "0 < n"
      "readSize bs n = Inr cs" "cs \<le> length (b0 # bs) - (n + 1)"
  | (list) "0xC0 + word_of_nat cs = b0" "k = KList" "ts = 1" "cs < 56" "cs \<le> length bs"
  | (long_list) n where "0xF7 + word_of_nat n = b0" "k = KList" "ts = n + 1" "0 < n"
      "readSize bs n = Inr cs" "cs \<le> length (b0 # bs) - (n + 1)"
proof -
  note tag = byte_tag [of "0x80" b0] byte_tag [of "0xB7" b0] byte_tag [of "0xC0" b0] byte_tag [of "0xF7" b0]
  note cmp = word_less_nat_alt word_le_nat_alt
  consider "b0 < 0x80" | "\<not> b0 < 0x80" "b0 < 0xB8" | "\<not> b0 < 0x80" "\<not> b0 < 0xB8" "b0 < 0xC0"
    | "\<not> b0 < 0x80" "\<not> b0 < 0xB8" "\<not> b0 < 0xC0" "b0 < 0xF8"
    | "\<not> b0 < 0x80" "\<not> b0 < 0xB8" "\<not> b0 < 0xC0" "\<not> b0 < 0xF8"
    by blast
  then show thesis
  proof cases
    case 1
    then show thesis
      using assms by (intro byte) (simp_all add: readKind_def check_size_eq cmp)
  next
    case 2
    then have m: "unat (b0 - 0x80) < 56" "0x80 + word_of_nat (unat (b0 - 0x80)) = b0"
      using tag(1) by (simp_all add: cmp)
    have chk: "check_size (b0 # bs) KString 1 (unat (b0 - 0x80)) = Inr (k, ts, cs)"
      and canon: "\<not> (unat (b0 - 0x80) = 1 \<and> length (b0 # bs) > 1 \<and> (b0 # bs) ! 1 < 128)"
      using assms 2 by (simp_all add: readKind_def Let_def split: if_splits)
    then have eq: "k = KString" "ts = 1" "cs = unat (b0 - 0x80)" "cs \<le> length bs"
      by (auto simp: check_size_eq)
    moreover have "\<not> (cs = 1 \<and> bs \<noteq> [] \<and> hd bs \<le> 0x7F)"
      using canon eq(3) by (cases bs) (auto simp: cmp)
    ultimately show thesis
      using str m by simp
  next
    case 3
    then have m: "0 < unat (b0 - 0xB7)" "0xB7 + word_of_nat (unat (b0 - 0xB7)) = b0"
      using tag(2) by (simp_all add: cmp)
    from assms 3 have "readSize bs (unat (b0 - 0xB7)) = Inr cs \<and>
        check_size (b0 # bs) KString (unat (b0 - 0xB7) + 1) cs = Inr (k, ts, cs)"
      by (simp add: readKind_def check_size_eq split: sum.splits)
    then show thesis
      using long_str [OF m(2) _ _ m(1)] by (auto simp: check_size_eq)
  next
    case 4
    then have m: "unat (b0 - 0xC0) < 56" "0xC0 + word_of_nat (unat (b0 - 0xC0)) = b0"
      using tag(3) by (simp_all add: cmp)
    have "check_size (b0 # bs) KList 1 (unat (b0 - 0xC0)) = Inr (k, ts, cs)"
      using assms 4 by (simp add: readKind_def)
    then show thesis
      using list m by (auto simp: check_size_eq)
  next
    case 5
    then have m: "0 < unat (b0 - 0xF7)" "0xF7 + word_of_nat (unat (b0 - 0xF7)) = b0"
      using tag(4) by (simp_all add: cmp)
    from assms 5 have "readSize bs (unat (b0 - 0xF7)) = Inr cs \<and>
        check_size (b0 # bs) KList (unat (b0 - 0xF7) + 1) cs = Inr (k, ts, cs)"
      by (simp add: readKind_def check_size_eq split: sum.splits)
    then show thesis
      using long_list [OF m(2) _ _ m(1)] by (auto simp: check_size_eq)
  qed
qed

lemma Split_canonical:
  assumes "Split b = Inr (k, c, r)" and len: "length b < 2 ^ 64"
  shows "b = (if k = KList then puthead 0xC0 0xF7 (word_of_nat (length c)) @ c else rlp_enc (Str c)) @ r"
proof -
  obtain ts cs where rk: "readKind b = Inr (k, ts, cs)" and c: "c = take cs (drop ts b)"
    and r: "r = drop (ts + cs) b"
    using assms(1) by (auto simp: Split_def split: sum.splits)
  obtain b0 bs where b: "b = b0 # bs"
    using rk by (cases b) (simp_all add: readKind_def)
  from rk [unfolded b] show ?thesis
  proof (cases rule: readKind_Inr_cases)
    case byte
    then show ?thesis using b c r by simp
  next
    case str
    then have "c = take cs bs" "r = drop cs bs" "length c = cs"
      using b c r by simp_all
    moreover have "\<not> (length c = 1 \<and> hd c \<le> 0x7F)"
      using str(5,6) \<open>c = take cs bs\<close> by (cases bs) auto
    ultimately show ?thesis
      using str b by (auto simp: puthead_eq)
  next
    case (long_str n)
    have h: "length c = cs" "cs < 2 ^ 64" "56 \<le> cs" "be_len cs = n" "b = b0 # be_bytes n cs @ c @ r"
      using long_head [OF long_str(5,4,6), of c r] b c r len long_str(3) by simp_all
    have "rlp_enc (Str c) = b0 # be_bytes n cs @ c"
      using h(1-4) long_str(1) by (simp add: puthead_eq)
    then show ?thesis
      using h(5) long_str(2) by simp
  next
    case list
    then show ?thesis using b c r by (auto simp: puthead_eq)
  next
    case (long_list n)
    have h: "length c = cs" "cs < 2 ^ 64" "56 \<le> cs" "be_len cs = n" "b = b0 # be_bytes n cs @ c @ r"
      using long_head [OF long_list(5,4,6), of c r] b c r len long_list(3) by simp_all
    have "puthead 0xC0 0xF7 (word_of_nat (length c)) = b0 # be_bytes n cs"
      using h(1-4) long_list(1) by (simp add: puthead_eq)
    then show ?thesis
      using h(5) long_list(2) by simp
  qed
qed

lemma SplitString_rlp_enc:
  "length c < 2 ^ 64 \<Longrightarrow> SplitString (rlp_enc (Str c) @ r) = Inr (c, r)"
  by (simp add: SplitString_def Split_Str del: rlp_enc.simps)

lemma SplitString_canonical:
  assumes "SplitString b = Inr (c, r)" and "length b < 2 ^ 64"
  shows "b = rlp_enc (Str c) @ r"
proof -
  obtain k where "Split b = Inr (k, c, r)" "k \<noteq> KList"
    using assms(1) by (auto simp: SplitString_def split: sum.splits if_splits)
  then show ?thesis
    using Split_canonical assms(2) by fastforce
qed

lemma length_rlp_enc_Str: "length c \<le> length (rlp_enc (Str c))"
  by simp

lemma Split_rlp_enc:
  assumes "length (rlp_enc x) < 2 ^ 64"
  shows "Split (rlp_enc x @ r) =
    (case x of Str b \<Rightarrow> Inr (if length b = 1 \<and> hd b \<le> 0x7F then KByte else KString, b, r)
     | Lst xs \<Rightarrow> Inr (KList, concat (map rlp_enc xs), r))"
proof (cases x)
  case (Str b)
  have "length b < 2 ^ 64"
    using assms length_rlp_enc_Str [of b] unfolding Str by linarith
  then show ?thesis
    unfolding Str rlp.case by (rule Split_Str)
next
  case (Lst xs)
  have "length (concat (map rlp_enc xs)) < 2 ^ 64"
    using assms unfolding Lst by (simp add: Let_def)
  then show ?thesis
    unfolding Lst rlp.case by (rule Split_Lst)
qed

lemma concat_rlp_enc_inject:
  assumes "concat (map rlp_enc xs) = concat (map rlp_enc ys)"
    and "length (concat (map rlp_enc xs)) < 2 ^ 64"
    and "\<And>x y r s. x \<in> set xs \<Longrightarrow> rlp_enc x @ r = rlp_enc y @ s \<Longrightarrow> length (rlp_enc x) < 2 ^ 64 \<Longrightarrow>
      length (rlp_enc y) < 2 ^ 64 \<Longrightarrow> x = y \<and> r = s"
  shows "xs = ys"
  using assms
proof (induction xs arbitrary: ys)
  case Nil
  then show ?case by (cases ys) auto
next
  case (Cons x xs)
  then obtain z zs where ys: "ys = z # zs"
    by (cases ys) auto
  have eq: "rlp_enc x @ concat (map rlp_enc xs) = rlp_enc z @ concat (map rlp_enc zs)"
    using Cons.prems(1) ys by simp
  moreover from arg_cong [OF eq, of length] have "length (rlp_enc x) < 2 ^ 64" "length (rlp_enc z) < 2 ^ 64"
    using Cons.prems(2) by simp_all
  ultimately have xz: "x = z" "concat (map rlp_enc xs) = concat (map rlp_enc zs)"
    using Cons.prems(3) [of x] by auto
  have "xs = zs"
  proof (rule Cons.IH [OF xz(2)])
    show "length (concat (map rlp_enc xs)) < 2 ^ 64"
      using Cons.prems(2) by simp
    show "x' = y \<and> r = s" if "x' \<in> set xs" "rlp_enc x' @ r = rlp_enc y @ s"
      "length (rlp_enc x') < 2 ^ 64" "length (rlp_enc y) < 2 ^ 64" for x' y r s
      using that(1) by (intro Cons.prems(3) [OF _ that(2-4)]) simp
  qed
  then show ?case
    using xz ys by simp
qed

lemma rlp_enc_prefix_free:
  assumes "rlp_enc x @ r = rlp_enc y @ s" and "length (rlp_enc x) < 2 ^ 64" and "length (rlp_enc y) < 2 ^ 64"
  shows "x = y \<and> r = s"
  using assms
proof (induction x arbitrary: y r s)
  case (Str b)
  from arg_cong [OF Str.prems(1), of Split] show ?case
    unfolding Split_rlp_enc [OF Str.prems(2)] Split_rlp_enc [OF Str.prems(3)]
    by (auto split: rlp.splits if_splits)
next
  case (Lst xs)
  from arg_cong [OF Lst.prems(1), of Split] obtain ys where y: "y = Lst ys" "r = s"
    and eq: "concat (map rlp_enc xs) = concat (map rlp_enc ys)"
    unfolding Split_rlp_enc [OF Lst.prems(2)] Split_rlp_enc [OF Lst.prems(3)]
    by (auto split: rlp.splits if_splits)
  have "length (concat (map rlp_enc xs)) < 2 ^ 64"
    using Lst.prems(2) by (simp add: Let_def)
  then have "xs = ys"
    using eq Lst.IH by (intro concat_rlp_enc_inject) blast+
  with y show ?case by simp
qed

lemma count_loop_enc:
  assumes "length (concat (map rlp_enc xs)) < 2 ^ 64"
  shows "count_loop (concat (map rlp_enc xs)) i = Inr (i + length xs)"
  using assms
proof (induction xs arbitrary: i)
  case Nil
  then show ?case by (simp add: count_loop.simps)
next
  case (Cons x xs)
  let ?r = "concat (map rlp_enc xs)"
  have x: "length (rlp_enc x) < 2 ^ 64" and xs: "length ?r < 2 ^ 64"
    using Cons.prems by simp_all
  obtain k c where "Split (rlp_enc x @ ?r) = Inr (k, c, ?r)"
    using Split_rlp_enc [OF x, of ?r] by (auto split: rlp.splits)
  then obtain ts cs where "readKind (rlp_enc x @ ?r) = Inr (k, ts, cs)"
    "drop (ts + cs) (rlp_enc x @ ?r) = ?r"
    by (auto simp: Split_def split: sum.splits)
  then show ?case
    using Cons.IH [OF xs, of "i + 1"] by (simp add: count_loop.simps [of "rlp_enc x @ ?r"])
qed

section \<open>Unsigned integers\<close>

definition uint_bytes :: "u64 \<Rightarrow> bytes" where
  "uint_bytes i = (if i = 0 then [] else putint i)"

lemma putint_small: "i < 128 \<Longrightarrow> putint i = [ucast i] \<and> (ucast i :: byte) \<le> 0x7F"
proof -
  assume "i < 128"
  then have "unat i < 128" by (simp add: word_less_nat_alt)
  then have "unat (ucast i :: byte) = unat i"
    by (simp add: unsigned_ucast_eq take_bit_nat_eq_self)
  moreover have "i < 2 ^ 8"
    using \<open>unat i < 128\<close> by (simp add: word_less_nat_alt)
  ultimately show ?thesis
    using \<open>unat i < 128\<close> by (simp add: putint_def byte_at_def word_le_nat_alt)
qed

lemma putint_ge128: "\<not> i < 128 \<Longrightarrow> \<not> (length (putint i) = 1 \<and> hd (putint i) \<le> 0x7F)"
proof -
  assume "\<not> i < 128"
  then have i: "128 \<le> unat i" by (simp add: word_less_nat_alt)
  show ?thesis
  proof (cases "unat i < 256")
    case True
    then have "putint i = [word_of_nat (unat i)]"
      by (simp add: putint_be_bytes be_len.simps)
    then show ?thesis
      using True i unat_of_nat_byte [OF True] by (simp add: word_le_nat_alt)
  next
    case False
    then show ?thesis
      using be_len_pos [of "unat i div 256"] by (simp add: be_len.simps [of "unat i"])
  qed
qed

lemma rlp_enc_uint_bytes:
  "rlp_enc (Str (uint_bytes i)) =
    (if i = 0 then [0x80] else if i < 128 then [ucast i]
     else (0x80 + word_of_nat (length (putint i))) # putint i)"
proof -
  have "be_len (unat i) < 56"
    using be_len_le8 [OF u64_less_2p64, of i] by simp
  moreover have "puthead 0x80 0xB7 0 = [0x80]"
    by (simp add: puthead_def)
  ultimately show ?thesis
  proof (cases "i < 128")
    case True
    then have "length (putint i) = 1"
      using putint_small [of i] by (simp del: length_putint)
    with True show ?thesis
      using putint_small [of i] \<open>puthead 0x80 0xB7 0 = [0x80]\<close> by (simp add: uint_bytes_def)
  next
    case False
    then show ?thesis
      using putint_ge128 [of i] \<open>be_len (unat i) < 56\<close> by (auto simp: uint_bytes_def puthead_eq)
  qed
qed

lemma AppendUint64_eq: "AppendUint64 b i = b @ rlp_enc (Str (uint_bytes i))"
  unfolding rlp_enc_uint_bytes by (simp add: AppendUint64_def putint_def word_less_nat_alt del: length_putint)

lemma writeUint64_eq: "writeUint64 buf i = append_str buf (AppendUint64 [] i)"
  by (simp add: writeUint64_def AppendUint64_eq rlp_enc_uint_bytes Let_def del: rlp_enc.simps)

lemma length_uint_bytes: "length (uint_bytes i) \<le> 8"
  using be_len_le8 [OF u64_less_2p64, of i] by (simp add: uint_bytes_def)

lemma unat_ucast_byte: "unat (ucast (x :: byte) :: u64) = unat x"
  using unat_byte_less [of x] by (simp add: unsigned_ucast_eq take_bit_nat_eq_self)

lemma SplitUint64_content:
  assumes "SplitString b = Inr (c, r)" and "c = uint_bytes i"
  shows "SplitUint64 b = Inr (i, r)"
proof (cases "unat i < 256")
  case True
  then have "i \<noteq> 0 \<Longrightarrow> c = [word_of_nat (unat i)]"
    using assms(2) by (simp add: uint_bytes_def putint_be_bytes be_len.simps [of "unat i"])
  moreover have "unat (word_of_nat (unat i) :: byte) = unat i"
    by (rule unat_of_nat_byte [OF True])
  moreover from this have "i \<noteq> 0 \<Longrightarrow> (word_of_nat (unat i) :: byte) \<noteq> 0"
    by (metis unat_0 word_unat_eq_iff)
  moreover have "ucast (word_of_nat (unat i) :: byte) = i"
    by (simp only: word_unat_eq_iff unat_ucast_byte unat_of_nat_byte [OF True])
  ultimately show ?thesis
    using assms by (cases "i = 0") (simp_all add: SplitUint64_def uint_bytes_def)
next
  case False
  then have "i \<noteq> 0" "1 < be_len (unat i)"
    using be_len_pos [of "unat i div 256"] by (auto simp: be_len.simps [of "unat i"])
  moreover have "readSize c (length c) = Inr (unat i)"
    using assms(2) False \<open>i \<noteq> 0\<close> readSize_be_bytes [of "unat i" "[]"]
    by (simp add: uint_bytes_def putint_be_bytes)
  moreover have "putint i \<noteq> []"
    using be_len_pos by (simp flip: length_greater_0_conv)
  ultimately show ?thesis
    using assms length_uint_bytes [of i] by (simp add: SplitUint64_def uint_bytes_def)
qed

lemma SplitUint64_Inr:
  assumes "SplitUint64 b = Inr (i, r)"
  shows "SplitString b = Inr (uint_bytes i, r)"
proof -
  obtain c where c: "SplitString b = Inr (c, r)"
    using assms by (auto simp: SplitUint64_def split: sum.splits if_splits)
  have "c = uint_bytes i"
  proof (cases c rule: remdups_adj.cases)
    case 1
    then show ?thesis
      using assms c by (simp add: SplitUint64_def uint_bytes_def)
  next
    case (2 x)
    then have "x \<noteq> 0" "i = ucast x"
      using assms c by (auto simp: SplitUint64_def split: if_splits)
    then have "unat i = unat x" "unat x \<noteq> 0"
      using unat_ucast_byte [of x] by (simp_all add: word_unat_eq_iff)
    moreover from this have "i \<noteq> 0" by auto
    ultimately show ?thesis
      using 2 unat_byte_less [of x] by (simp add: uint_bytes_def putint_be_bytes be_len.simps)
  next
    case (3 x y zs)
    then have len: "2 \<le> length c" "length c \<le> 8"
      and rs: "readSize c (length c) = Inr (be_nat c)" "i = word_of_nat (be_nat c)"
      using assms c by (auto simp: SplitUint64_def readSize_def Let_def split: if_splits)
    have "be_nat c < 2 ^ 64"
      using be_nat_less [of c] power_increasing [OF len(2), of "256 :: nat"] by simp
    then have "unat i = be_nat c"
      using rs(2) by (simp add: unat_of_nat_small)
    moreover have "56 \<le> be_nat c" "be_len (be_nat c) = length c" "c = be_bytes (length c) (be_nat c)"
      using readSize_Inr [OF rs(1)] len(1) by (auto simp: length_greater_0_conv [symmetric] simp del: length_greater_0_conv)
    ultimately show ?thesis
      by (auto simp: uint_bytes_def putint_be_bytes)
  qed
  with c show ?thesis by simp
qed

text \<open>Big integers: the byte length computed from the bit length is the minimal one.\<close>

definition big_bytes :: "nat \<Rightarrow> bytes" where
  "big_bytes n = (if n = 0 then [] else be_bytes (be_len n) n)"

lemma bitlen_bounds: "0 < n \<Longrightarrow> 0 < bitlen n \<and> 2 ^ (bitlen n - 1) \<le> n \<and> n < 2 ^ bitlen n"
proof (induction n rule: bitlen.induct)
  case (1 n)
  have b: "bitlen n = 1 + bitlen (n div 2)"
    using 1 by (simp add: bitlen.simps)
  show ?case
  proof (cases "n div 2 = 0")
    case True
    then have "n = 1" using "1.prems" by simp
    then show ?thesis by (simp add: bitlen.simps)
  next
    case False
    then have IH: "0 < bitlen (n div 2)" "2 ^ (bitlen (n div 2) - 1) \<le> n div 2"
        "n div 2 < 2 ^ bitlen (n div 2)"
      using 1 by auto
    then have "2 * 2 ^ (bitlen (n div 2) - 1) \<le> n" "n < 2 * 2 ^ bitlen (n div 2)"
      by (simp_all add: less_eq_div_iff_mult_less_eq div_less_iff_less_mult mult.commute)
    with IH(1) show ?thesis
      unfolding b by (simp flip: power_Suc)
  qed
qed

lemma bytelen_eq_be_len: "0 < n \<Longrightarrow> (bitlen n + 7) div 8 = be_len n"
proof -
  assume n: "0 < n"
  let ?L = "(bitlen n + 7) div 8"
  note b = bitlen_bounds [OF n]
  have L: "0 < ?L" "8 * (?L - 1) \<le> bitlen n - 1" "bitlen n \<le> 8 * ?L"
    using b by linarith+
  have "(2::nat) ^ (8 * (?L - 1)) \<le> 2 ^ (bitlen n - 1)" "(2::nat) ^ bitlen n \<le> 2 ^ (8 * ?L)"
    using L(2,3) by (intro power_increasing; simp)+
  then have "256 ^ (?L - 1) \<le> n" "n < 256 ^ ?L"
    using b by (simp_all add: power_mult)
  then show ?thesis
    using be_len_eqI [of n "?L - 1"] L(1) by simp
qed

lemma writeBigInt_eq:
  assumes "be_len i < 2 ^ 64"
  shows "writeBigInt buf i = append_str buf (rlp_enc (Str (big_bytes i)))"
proof (cases "i < 2 ^ 64")
  case True
  have "bitlen i \<le> 64"
  proof (rule ccontr)
    assume long: "\<not> bitlen i \<le> 64"
    then have "0 < i" by (cases "i = 0") (simp_all add: bitlen.simps [of 0])
    then have "2 ^ (bitlen i - 1) \<le> i" using bitlen_bounds by blast
    moreover have "(2::nat) ^ 64 \<le> 2 ^ (bitlen i - 1)"
      using long by (intro power_increasing) simp_all
    ultimately show False using True by linarith
  qed
  moreover have u: "unat (word_of_nat i :: u64) = i"
    using True by (simp add: unat_of_nat_small)
  moreover have "uint_bytes (word_of_nat i) = big_bytes i"
    using u by (auto simp: uint_bytes_def big_bytes_def putint_be_bytes simp flip: unsigned_eq_0_iff)
  ultimately show ?thesis
    by (simp add: writeBigInt_def writeUint64_eq AppendUint64_eq del: rlp_enc.simps)
next
  case False
  then have i: "0 < i" "256 \<le> i" by simp_all
  have "\<not> bitlen i \<le> 64"
  proof
    assume "bitlen i \<le> 64"
    then have "(2::nat) ^ bitlen i \<le> 2 ^ 64" by (intro power_increasing) simp_all
    then show False using bitlen_bounds [OF i(1)] False by linarith
  qed
  moreover have "be_len i \<noteq> 1"
    using be_len_pos [of "i div 256"] i by (simp add: be_len.simps [of i])
  ultimately show ?thesis
    using assms i by (simp add: writeBigInt_def bytelen_eq_be_len encodeStringHeader_eq big_bytes_def
        Let_def)
qed

section \<open>Correctness of the codec\<close>

text \<open>
  C27. The encoder buffer, which collects string data and list headers separately and merges them at
  the end, produces exactly the recursive definition of the RLP encoding.
\<close>

theorem EncodeToBytes_correct:
  assumes "length (rlp_enc x) < 2 ^ 64"
  shows "EncodeToBytes x = rlp_enc x"
  using assms by (rule EncodeToBytes_eq)

theorem EncodeToBytes_correct_witness:
  "EncodeToBytes (Lst [Str [0x63, 0x61, 0x74], Lst [Str [5]], Str []]) =
    [0xC7, 0x83, 0x63, 0x61, 0x74, 0xC1, 5, 0x80]"
proof -
  let ?x = "Lst [Str [0x63, 0x61, 0x74], Lst [Str [5]], Str []]"
  have enc: "rlp_enc ?x = [0xC7, 0x83, 0x63, 0x61, 0x74, 0xC1, 5, 0x80]"
    by (simp add: puthead_def Let_def)
  then show ?thesis
    using EncodeToBytes_correct [of ?x] by simp
qed

text \<open>
  C28. Splitting a string off an input succeeds exactly when the input starts with the encoding of
  that string: encoding and splitting are inverse, and no other, non-canonical header for
  the same content is accepted.
\<close>

theorem SplitString_iff:
  assumes "length b < 2 ^ 64"
  shows "SplitString b = Inr (c, r) \<longleftrightarrow> b = EncodeToBytes (Str c) @ r"
proof
  assume split: "SplitString b = Inr (c, r)"
  then have "b = rlp_enc (Str c) @ r"
    by (rule SplitString_canonical [OF _ assms])
  then show "b = EncodeToBytes (Str c) @ r"
    using assms EncodeToBytes_eq [of "Str c"] by (simp del: rlp_enc.simps)
next
  assume b: "b = EncodeToBytes (Str c) @ r"
  have "length c < 2 ^ 64"
    using assms length_EncodeToBytes_Str [of c] unfolding b by simp
  then show "SplitString b = Inr (c, r)"
    unfolding b EncodeToBytes_Str [OF \<open>length c < 2 ^ 64\<close>] by (rule SplitString_rlp_enc)
qed

theorem SplitString_iff_witness:
  "SplitString [0x83, 0x64, 0x6F, 0x67, 0x05] = Inr ([0x64, 0x6F, 0x67], [0x05]) \<and>
   SplitString [0x81, 0x05] \<noteq> Inr ([0x05], [])"
  using SplitString_iff [of "[0x83, 0x64, 0x6F, 0x67, 0x05]" "[0x64, 0x6F, 0x67]" "[0x05]"]
    SplitString_iff [of "[0x81, 0x05]" "[0x05]" "[]"]
    EncodeToBytes_Str [of "[0x64, 0x6F, 0x67]"] EncodeToBytes_Str [of "[0x05]"]
  by (simp add: puthead_def)

text \<open>
  C29. The encoding is prefix-free, hence injective: if two encodings are prefixes of the same byte
  string, the encoded values are equal. A list of values and a string are never confused.
\<close>

theorem EncodeToBytes_prefix_free:
  assumes "EncodeToBytes x @ r = EncodeToBytes y @ s"
    and "length (rlp_enc x) < 2 ^ 64" and "length (rlp_enc y) < 2 ^ 64"
  shows "x = y \<and> r = s"
  using assms rlp_enc_prefix_free [of x r y s] by (simp add: EncodeToBytes_eq)

theorem EncodeToBytes_prefix_free_witness:
  "EncodeToBytes (Lst [Str [1, 2]]) \<noteq> EncodeToBytes (Lst [Str [1], Str [2]])"
  using EncodeToBytes_prefix_free [of "Lst [Str [1, 2]]" "[]" "Lst [Str [1], Str [2]]" "[]"]
  by (auto simp: puthead_def Let_def)

text \<open>
  Reading an unsigned integer accepts exactly the bytes that appending that integer writes:
  the two routines are inverse and leading zeros are rejected. The number of values counted in
  a concatenation of encodings is the number of encoded values.
\<close>

theorem SplitUint64_iff:
  assumes "length b < 2 ^ 64"
  shows "(SplitUint64 b = Inr (i, r) \<longleftrightarrow> b = AppendUint64 [] i @ r) \<and>
    (b = concat (map EncodeToBytes xs) \<longrightarrow> (\<forall>x \<in> set xs. length (rlp_enc x) < 2 ^ 64) \<longrightarrow>
      CountValues b = Inr (length xs))"
proof (intro conjI impI iffI)
  assume "SplitUint64 b = Inr (i, r)"
  then show "b = AppendUint64 [] i @ r"
    using SplitString_canonical [OF SplitUint64_Inr assms] by (simp add: AppendUint64_eq)
next
  assume "b = AppendUint64 [] i @ r"
  moreover have "length (uint_bytes i) < 2 ^ 64"
    using length_uint_bytes [of i] by simp
  ultimately have "SplitString b = Inr (uint_bytes i, r)"
    using SplitString_rlp_enc [of "uint_bytes i" r] by (simp add: AppendUint64_eq del: rlp_enc.simps)
  then show "SplitUint64 b = Inr (i, r)"
    by (rule SplitUint64_content) simp
next
  assume b: "b = concat (map EncodeToBytes xs)" and "\<forall>x \<in> set xs. length (rlp_enc x) < 2 ^ 64"
  then have "map EncodeToBytes xs = map rlp_enc xs"
    by (simp add: EncodeToBytes_eq)
  then have "b = concat (map rlp_enc xs)"
    using b by (simp only:)
  then show "CountValues b = Inr (length xs)"
    using count_loop_enc [of xs 0] assms by (simp add: CountValues_def)
qed

theorem SplitUint64_iff_witness:
  "SplitUint64 [0x82, 0x04, 0x00, 0xC0] = Inr (1024, [0xC0])"
  using SplitUint64_iff [of "[0x82, 0x04, 0x00, 0xC0]" 1024 "[0xC0]" "[]"]
  by (simp add: AppendUint64_def byte_at_def)

end
