(* ===== verification/Types.thy ===== *)
theory Types
  imports RLP StateDB
begin

text \<open>
  core/types: block headers with their hash, the checkpoint vote and certificate types, and the
  canonical evidence of a double vote (checkpoint.go, checkpoint_evidence.go). Hashes are
  \<open>Keccak256\<close> of the RLP encoding of RLP.thy; \<open>Keccak256\<close> and \<open>ed25519.Verify\<close> are
  parameters.
\<close>

type_synonym verifier = "bytes \<Rightarrow> bytes \<Rightarrow> bytes \<Rightarrow> bool"

section \<open>RLP of Go values\<close>

definition rlp_uint :: "u64 \<Rightarrow> rlp" where
  "rlp_uint i = Str (uint_bytes i)"

text \<open>A \<open>*big.Int\<close>: \<open>nil\<close> is encoded like zero. The numbers encoded here are not negative.\<close>

definition rlp_big :: "int option \<Rightarrow> rlp" where
  "rlp_big x = Str (case x of None \<Rightarrow> [] | Some i \<Rightarrow> big_bytes (nat i))"

definition rlp_hash :: "hash \<Rightarrow> rlp" where
  "rlp_hash h = Str (hash_bytes h)"

definition rlp_addr :: "address \<Rightarrow> rlp" where
  "rlp_addr a = Str (addr_bytes a)"

definition rlpHash :: "keccak \<Rightarrow> rlp \<Rightarrow> hash" where
  "rlpHash kh x = kh (EncodeToBytes x)"

section \<open>Headers\<close>

record Header =
  ParentHash :: hash
  UncleHash :: hash
  Coinbase :: address
  Root :: hash
  TxHash :: hash
  ReceiptHash :: hash
  Bloom :: bytes
  Difficulty :: "int option"
  Number :: "int option"
  GasLimit :: u64
  GasUsed :: u64
  Time :: u64
  Extra :: bytes
  MixDigest :: hash
  Nonce :: u64
  BaseFee :: "int option"

definition header_rlp :: "Header \<Rightarrow> rlp" where
  "header_rlp h = Lst
     ([rlp_hash (ParentHash h), rlp_hash (UncleHash h), rlp_addr (Coinbase h), rlp_hash (Root h),
       rlp_hash (TxHash h), rlp_hash (ReceiptHash h), Str (Bloom h), rlp_big (Difficulty h),
       rlp_big (Number h), rlp_uint (GasLimit h), rlp_uint (GasUsed h), rlp_uint (Time h),
       Str (Extra h), rlp_hash (MixDigest h), Str (u64_bytes (Nonce h))]
      @ (if BaseFee h \<noteq> None then [rlp_big (BaseFee h)] else []))"

definition header_Hash :: "keccak \<Rightarrow> Header \<Rightarrow> hash" where
  "header_Hash kh h = rlpHash kh (header_rlp h)"

definition EmptyUncleHash :: "keccak \<Rightarrow> hash" where
  "EmptyUncleHash kh = rlpHash kh (Lst [])"

definition header_number :: "Header \<Rightarrow> u64" where
  "header_number h = (case Number h of None \<Rightarrow> 0 | Some n \<Rightarrow> word_of_int \<bar>n\<bar>)"

section \<open>Checkpoint votes\<close>

record CheckpointVote =
  vote_ChainID :: "int option"
  vote_Number :: u64
  vote_Hash :: hash
  vote_ValidatorSetHash :: hash

definition vote_rlp :: "CheckpointVote \<Rightarrow> rlp" where
  "vote_rlp v = Lst
     [Str (str_bytes ''GTOS_CHECKPOINT_V1''), rlp_big (vote_ChainID v), rlp_uint (vote_Number v),
      rlp_hash (vote_Hash v), rlp_hash (vote_ValidatorSetHash v)]"

definition SigningHash :: "keccak \<Rightarrow> CheckpointVote \<Rightarrow> hash" where
  "SigningHash kh v = rlpHash kh (vote_rlp v)"

record CheckpointVoteEnvelope =
  env_Vote :: CheckpointVote
  env_Signer :: address
  env_Signature :: bytes

record CheckpointQC =
  qc_Vote :: CheckpointVote
  qc_Bitmap :: u64
  qc_Signatures :: "bytes list"

section \<open>Evidence of a double vote\<close>

definition hex_digit :: "nat \<Rightarrow> char" where
  "hex_digit n = (if n < 10 then char_of (48 + n) else char_of (87 + n))"

definition hex_value :: "char \<Rightarrow> nat option" where
  "hex_value c =
     (let n = of_char c :: nat in
      if 48 \<le> n \<and> n \<le> 57 then Some (n - 48)
      else if 97 \<le> n \<and> n \<le> 102 then Some (n - 87)
      else if 65 \<le> n \<and> n \<le> 70 then Some (n - 55)
      else None)"

definition hex_encode :: "bytes \<Rightarrow> string" where
  "hex_encode bs = concat (map (\<lambda>b. [hex_digit (unat b div 16), hex_digit (unat b mod 16)]) bs)"

fun hex_decode :: "string \<Rightarrow> bytes option" where
  "hex_decode [] = Some []"
| "hex_decode [c] = None"
| "hex_decode (c # d # cs) =
     (case (hex_value c, hex_value d, hex_decode cs) of
        (Some hi, Some lo, Some bs) \<Rightarrow> Some (word_of_nat (16 * hi + lo) # bs)
      | _ \<Rightarrow> None)"

definition trim0x :: "string \<Rightarrow> string" where
  "trim0x s = (if length s \<ge> 2 \<and> take 2 s = ''0x'' then drop 2 s else s)"

definition mustDecodeEvidencePub :: "string \<Rightarrow> bytes" where
  "mustDecodeEvidencePub s = (case hex_decode (trim0x s) of None \<Rightarrow> [] | Some b \<Rightarrow> b)"

record MaliciousVoteEvidence =
  ev_Version :: string
  ev_Kind :: string
  ev_ChainID :: "int option"
  ev_Number :: u64
  ev_Signer :: address
  ev_SignerType :: string
  ev_SignerPubKey :: string
  ev_First :: CheckpointVoteEnvelope
  ev_Second :: CheckpointVoteEnvelope

datatype evidence_error = errNilCheckpointVoteEvidence | errInvalidCheckpointEvidence

definition checkpointVoteEnvelopeLess ::
  "CheckpointVoteEnvelope \<Rightarrow> CheckpointVoteEnvelope \<Rightarrow> bool" where
  "checkpointVoteEnvelopeLess a b =
     (let cmp = bytes_compare (hash_bytes (vote_Hash (env_Vote a))) (hash_bytes (vote_Hash (env_Vote b))) in
      if cmp \<noteq> 0 then cmp < 0
      else
        let cmp = bytes_compare (hash_bytes (vote_ValidatorSetHash (env_Vote a)))
                    (hash_bytes (vote_ValidatorSetHash (env_Vote b))) in
        if cmp \<noteq> 0 then cmp < 0
        else bytes_compare (env_Signature a) (env_Signature b) < 0)"

definition NewMaliciousVoteEvidence ::
  "keccak \<Rightarrow> CheckpointVoteEnvelope option \<Rightarrow> CheckpointVoteEnvelope option \<Rightarrow> string \<Rightarrow> bytes \<Rightarrow>
   evidence_error + MaliciousVoteEvidence" where
  "NewMaliciousVoteEvidence kh ao bo signerType signerPub =
     (case (ao, bo) of
        (Some a, Some b) \<Rightarrow>
          if env_Signer a \<noteq> env_Signer b then Inl errInvalidCheckpointEvidence
          else if vote_Number (env_Vote a) \<noteq> vote_Number (env_Vote b) then Inl errInvalidCheckpointEvidence
          else if vote_Hash (env_Vote a) = vote_Hash (env_Vote b) then Inl errInvalidCheckpointEvidence
          else if vote_ChainID (env_Vote a) = None \<or> vote_ChainID (env_Vote b) = None \<or>
                  vote_ChainID (env_Vote a) \<noteq> vote_ChainID (env_Vote b)
          then Inl errInvalidCheckpointEvidence
          else
            let (first, second) = (if checkpointVoteEnvelopeLess b a then (b, a) else (a, b)) in
            if signerType \<noteq> ''ed25519'' then Inl errInvalidCheckpointEvidence
            else if length signerPub \<noteq> 32 then Inl errInvalidCheckpointEvidence
            else if kh signerPub \<noteq> env_Signer a then Inl errInvalidCheckpointEvidence
            else Inr \<lparr>ev_Version = ''GTOS_MALICIOUS_VOTE_EVIDENCE_V1'',
                      ev_Kind = ''checkpoint_equivocation'',
                      ev_ChainID = vote_ChainID (env_Vote a),
                      ev_Number = vote_Number (env_Vote a),
                      ev_Signer = env_Signer a,
                      ev_SignerType = signerType,
                      ev_SignerPubKey = ''0x'' @ hex_encode signerPub,
                      ev_First = first, ev_Second = second\<rparr>
      | _ \<Rightarrow> Inl errNilCheckpointVoteEvidence)"

definition evidence_Validate ::
  "keccak \<Rightarrow> verifier \<Rightarrow> MaliciousVoteEvidence option \<Rightarrow> evidence_error option" where
  "evidence_Validate kh verify eo =
     (case eo of None \<Rightarrow> Some errNilCheckpointVoteEvidence
      | Some e \<Rightarrow>
      if ev_Version e \<noteq> ''GTOS_MALICIOUS_VOTE_EVIDENCE_V1'' then Some errInvalidCheckpointEvidence
      else if ev_Kind e \<noteq> ''checkpoint_equivocation'' then Some errInvalidCheckpointEvidence
      else if ev_ChainID e = None then Some errInvalidCheckpointEvidence
      else
        (case NewMaliciousVoteEvidence kh (Some (ev_First e)) (Some (ev_Second e)) (ev_SignerType e)
                (mustDecodeEvidencePub (ev_SignerPubKey e)) of
           Inl err \<Rightarrow> Some err
         | Inr want \<Rightarrow>
             if ev_Number want \<noteq> ev_Number e \<or> ev_Signer want \<noteq> ev_Signer e \<or> ev_ChainID want \<noteq> ev_ChainID e
             then Some errInvalidCheckpointEvidence
             else if ev_SignerType want \<noteq> ev_SignerType e \<or> ev_SignerPubKey want \<noteq> ev_SignerPubKey e
             then Some errInvalidCheckpointEvidence
             else if ev_First want \<noteq> ev_First e \<or> ev_Second want \<noteq> ev_Second e
             then Some errInvalidCheckpointEvidence
             else
               (case hex_decode (trim0x (ev_SignerPubKey e)) of
                  None \<Rightarrow> Some errInvalidCheckpointEvidence
                | Some pub \<Rightarrow>
                    if length pub \<noteq> 32 then Some errInvalidCheckpointEvidence
                    else if \<not> verify pub (hash_bytes (SigningHash kh (env_Vote (ev_First e))))
                                (env_Signature (ev_First e))
                    then Some errInvalidCheckpointEvidence
                    else if \<not> verify pub (hash_bytes (SigningHash kh (env_Vote (ev_Second e))))
                                (env_Signature (ev_Second e))
                    then Some errInvalidCheckpointEvidence
                    else None)))"

definition vote_fields_rlp :: "CheckpointVote \<Rightarrow> rlp" where
  "vote_fields_rlp v = Lst [rlp_big (vote_ChainID v), rlp_uint (vote_Number v), rlp_hash (vote_Hash v),
     rlp_hash (vote_ValidatorSetHash v)]"

definition envelope_rlp :: "CheckpointVoteEnvelope \<Rightarrow> rlp" where
  "envelope_rlp e = Lst [vote_fields_rlp (env_Vote e), rlp_addr (env_Signer e), Str (env_Signature e)]"

definition evidence_Hash :: "keccak \<Rightarrow> MaliciousVoteEvidence option \<Rightarrow> hash" where
  "evidence_Hash kh eo = (case eo of None \<Rightarrow> 0 | Some e \<Rightarrow> rlpHash kh (Lst
     [Str (str_bytes (ev_Version e)), Str (str_bytes (ev_Kind e)), rlp_big (ev_ChainID e),
      rlp_uint (ev_Number e), rlp_addr (ev_Signer e), Str (str_bytes (ev_SignerType e)),
      Str (str_bytes (ev_SignerPubKey e)), envelope_rlp (ev_First e), envelope_rlp (ev_Second e)]))"

section \<open>Votes are bound by their signing hash\<close>

lemma be_nat_big_bytes: "be_nat (big_bytes n) = n"
  by (simp add: big_bytes_def be_nat_be_bytes [OF be_len_upper])

lemma be_nat_uint_bytes: "be_nat (uint_bytes i) = unat i"
  by (simp add: uint_bytes_def putint_be_bytes be_nat_be_bytes [OF be_len_upper])

lemma rlp_uint_inject [simp]: "rlp_uint i = rlp_uint j \<longleftrightarrow> i = j"
  unfolding rlp_uint_def by (metis be_nat_uint_bytes rlp.inject(1) word_unat_eq_iff)

lemma rlp_big_inject: "0 \<le> x \<Longrightarrow> 0 \<le> y \<Longrightarrow> rlp_big (Some x) = rlp_big (Some y) \<longleftrightarrow> x = y"
  unfolding rlp_big_def by (metis be_nat_big_bytes rlp.inject(1) option.case(2) eq_nat_nat_iff)

lemma rlp_hash_inject [simp]: "rlp_hash a = rlp_hash b \<longleftrightarrow> a = b"
  by (simp add: rlp_hash_def key_simps)

lemma rlp_addr_inject [simp]: "rlp_addr a = rlp_addr b \<longleftrightarrow> a = b"
  by (simp add: rlp_addr_def key_simps)

lemma length_puthead: "n < 2 ^ 64 \<Longrightarrow> length (puthead s l (word_of_nat n)) \<le> 9"
  using be_len_le8 [of n] by (simp add: puthead_eq)

lemma length_rlp_enc_Str_le: "length b < 2 ^ 64 \<Longrightarrow> length (rlp_enc (Str b)) \<le> length b + 9"
  using length_puthead [of "length b" "0x80" "0xB7"] by simp

lemma length_rlp_enc_Lst_le:
  "length (concat (map rlp_enc xs)) < 2 ^ 64 \<Longrightarrow>
    length (rlp_enc (Lst xs)) \<le> length (concat (map rlp_enc xs)) + 9"
  using length_puthead [of "length (concat (map rlp_enc xs))" "0xC0" "0xF7"] by (simp add: Let_def)

lemma be_len_le: "n < 256 ^ k \<Longrightarrow> 0 < k \<Longrightarrow> be_len n \<le> k"
proof (rule ccontr)
  assume n: "n < 256 ^ k" "0 < k" and "\<not> be_len n \<le> k"
  then have "(256 :: nat) ^ k \<le> 256 ^ (be_len n - 1)"
    by (intro power_increasing) simp_all
  moreover have "256 ^ (be_len n - 1) \<le> n"
    using n(2) \<open>\<not> be_len n \<le> k\<close>
    by (intro be_len_lower) (auto simp: be_len.simps [of n] split: if_splits)
  ultimately show False using n(1) by linarith
qed

lemma length_concat_map_le:
  "(\<And>x. x \<in> set xs \<Longrightarrow> length (f x) \<le> k) \<Longrightarrow> length (concat (map f xs)) \<le> length xs * k"
  by (induction xs) (auto intro: add_mono)

definition chain_id_ok :: "int option \<Rightarrow> bool" where
  "chain_id_ok x \<longleftrightarrow> (case x of None \<Rightarrow> False | Some i \<Rightarrow> 0 \<le> i \<and> i < 2 ^ 256)"

lemma length_big_bytes: "n < 2 ^ 256 \<Longrightarrow> length (big_bytes n) \<le> 32"
  using be_len_le [of n 32] by (simp add: big_bytes_def)

lemma vote_rlp_length: "chain_id_ok (vote_ChainID v) \<Longrightarrow> length (rlp_enc (vote_rlp v)) < 2 ^ 64"
proof -
  assume "chain_id_ok (vote_ChainID v)"
  then obtain i where i: "vote_ChainID v = Some i" "0 \<le> i" "i < 2 ^ 256"
    by (auto simp: chain_id_ok_def split: option.splits)
  let ?parts = "[str_bytes ''GTOS_CHECKPOINT_V1'', big_bytes (nat i), uint_bytes (vote_Number v),
      hash_bytes (vote_Hash v), hash_bytes (vote_ValidatorSetHash v)]"
  have len: "length b \<le> 32" if "b \<in> set ?parts" for b
    using that i length_big_bytes [of "nat i"] length_uint_bytes [of "vote_Number v"]
    by (auto simp: nat_less_iff)
  then have "length (rlp_enc (Str b)) \<le> 41" if "b \<in> set ?parts" for b
    using length_rlp_enc_Str_le [of b] that by fastforce
  then have "length (concat (map rlp_enc (map Str ?parts))) \<le> length (map Str ?parts) * 41"
    by (intro length_concat_map_le) (auto simp del: rlp_enc.simps)
  moreover have "vote_rlp v = Lst (map Str ?parts)"
    by (simp add: vote_rlp_def rlp_big_def rlp_uint_def rlp_hash_def i)
  ultimately show ?thesis
    using length_rlp_enc_Lst_le [of "map Str ?parts"] by (simp del: rlp_enc.simps list.map)
qed

lemma vote_rlp_inject:
  assumes "chain_id_ok (vote_ChainID v)" "chain_id_ok (vote_ChainID w)"
  shows "EncodeToBytes (vote_rlp v) = EncodeToBytes (vote_rlp w) \<longleftrightarrow> v = w"
proof
  assume "EncodeToBytes (vote_rlp v) = EncodeToBytes (vote_rlp w)"
  then have "vote_rlp v = vote_rlp w"
    using rlp_enc_prefix_free [of "vote_rlp v" "[]" "vote_rlp w" "[]"] vote_rlp_length assms
    by (simp add: EncodeToBytes_eq)
  then show "v = w"
    using assms
    by (auto simp: vote_rlp_def rlp_big_inject chain_id_ok_def split: option.splits
        intro!: CheckpointVote.equality)
qed simp

text \<open>
  C24. A validator's signature is over exactly one checkpoint: when the hash function does not
  collide on the two encodings, two votes of proper chains have the same signing hash only if
  chain, number, block hash and validator set all agree.
\<close>

theorem SigningHash_binds:
  assumes "no_collision kh {EncodeToBytes (vote_rlp v), EncodeToBytes (vote_rlp w)}"
    and "chain_id_ok (vote_ChainID v)" and "chain_id_ok (vote_ChainID w)"
  shows "SigningHash kh v = SigningHash kh w \<longleftrightarrow> v = w"
  using no_collision_eq [OF assms(1)] vote_rlp_inject [OF assms(2,3)]
  by (simp add: SigningHash_def rlpHash_def)

definition example_vote :: "hash \<Rightarrow> CheckpointVote" where
  "example_vote h = \<lparr>vote_ChainID = Some 1666, vote_Number = 400, vote_Hash = h, vote_ValidatorSetHash = 3\<rparr>"

definition example_vote_kh :: keccak where
  "example_vote_kh = key_index_hash [EncodeToBytes (vote_rlp (example_vote 1)), EncodeToBytes (vote_rlp (example_vote 2))]"

theorem SigningHash_binds_witness:
  "SigningHash example_vote_kh (example_vote 1) \<noteq> SigningHash example_vote_kh (example_vote 2)"
proof -
  have "no_collision example_vote_kh
      {EncodeToBytes (vote_rlp (example_vote 1)), EncodeToBytes (vote_rlp (example_vote 2))}"
    unfolding example_vote_kh_def by (rule no_collision_key_index_hash) simp_all
  from SigningHash_binds [OF this] show ?thesis
    by (simp add: example_vote_def chain_id_ok_def)
qed

section \<open>Evidence\<close>

lemma hex_value_digit: "n < 16 \<Longrightarrow> hex_value (hex_digit n) = Some n"
  by (auto simp: hex_digit_def hex_value_def Let_def)

lemma hex_decode_encode: "hex_decode (hex_encode bs) = Some bs"
proof (induction bs)
  case (Cons b bs)
  have "unat b < 256" by (rule unat_byte_less)
  then have "hex_value (hex_digit (unat b div 16)) = Some (unat b div 16)"
    and "hex_value (hex_digit (unat b mod 16)) = Some (unat b mod 16)"
    by (simp_all add: hex_value_digit)
  then show ?case
    using Cons by (simp add: hex_encode_def)
qed (simp add: hex_encode_def)

lemma mustDecodeEvidencePub_encode: "mustDecodeEvidencePub (''0x'' @ hex_encode bs) = bs"
  by (simp add: mustDecodeEvidencePub_def trim0x_def hex_decode_encode)

lemma checkpointVoteEnvelopeLess_hash:
  "vote_Hash (env_Vote a) \<noteq> vote_Hash (env_Vote b) \<Longrightarrow>
    checkpointVoteEnvelopeLess a b \<longleftrightarrow> vote_Hash (env_Vote a) < vote_Hash (env_Vote b)"
  by (simp add: checkpointVoteEnvelopeLess_def)

lemma NewMaliciousVoteEvidence_iff:
  "NewMaliciousVoteEvidence kh (Some a) (Some b) t pub = Inr e \<longleftrightarrow>
    env_Signer a = env_Signer b \<and> vote_Number (env_Vote a) = vote_Number (env_Vote b) \<and>
    vote_Hash (env_Vote a) \<noteq> vote_Hash (env_Vote b) \<and> vote_ChainID (env_Vote a) \<noteq> None \<and>
    vote_ChainID (env_Vote a) = vote_ChainID (env_Vote b) \<and> t = ''ed25519'' \<and> length pub = 32 \<and>
    kh pub = env_Signer a \<and>
    e = \<lparr>ev_Version = ''GTOS_MALICIOUS_VOTE_EVIDENCE_V1'', ev_Kind = ''checkpoint_equivocation'',
         ev_ChainID = vote_ChainID (env_Vote a), ev_Number = vote_Number (env_Vote a),
         ev_Signer = env_Signer a, ev_SignerType = t, ev_SignerPubKey = ''0x'' @ hex_encode pub,
         ev_First = (if vote_Hash (env_Vote b) < vote_Hash (env_Vote a) then b else a),
         ev_Second = (if vote_Hash (env_Vote b) < vote_Hash (env_Vote a) then a else b)\<rparr>"
  by (auto simp: NewMaliciousVoteEvidence_def checkpointVoteEnvelopeLess_hash)

lemma NewMaliciousVoteEvidence_fields:
  assumes "NewMaliciousVoteEvidence kh (Some a) (Some b) t pub = Inr e"
  shows "ev_Version e = ''GTOS_MALICIOUS_VOTE_EVIDENCE_V1''" "ev_Kind e = ''checkpoint_equivocation''"
    "ev_ChainID e \<noteq> None" "ev_Signer e = env_Signer a" "ev_Number e = vote_Number (env_Vote a)"
    "ev_SignerType e = t" "ev_SignerPubKey e = ''0x'' @ hex_encode pub"
    "ev_First e = (if vote_Hash (env_Vote b) < vote_Hash (env_Vote a) then b else a)"
    "ev_Second e = (if vote_Hash (env_Vote b) < vote_Hash (env_Vote a) then a else b)"
  using assms by (auto simp: NewMaliciousVoteEvidence_iff)

lemma NewMaliciousVoteEvidence_checks:
  assumes "NewMaliciousVoteEvidence kh (Some a) (Some b) t pub = Inr e"
  shows "env_Signer b = env_Signer a" "vote_Number (env_Vote b) = vote_Number (env_Vote a)"
    "vote_Hash (env_Vote a) \<noteq> vote_Hash (env_Vote b)" "vote_ChainID (env_Vote b) = vote_ChainID (env_Vote a)"
    "length pub = 32" "kh pub = env_Signer a"
  using assms by (auto simp: NewMaliciousVoteEvidence_iff)

lemma evidence_Validate_None:
  "evidence_Validate kh verify (Some e) = None \<longleftrightarrow>
    (\<exists>pub. NewMaliciousVoteEvidence kh (Some (ev_First e)) (Some (ev_Second e)) (ev_SignerType e) pub = Inr e \<and>
      verify pub (hash_bytes (SigningHash kh (env_Vote (ev_First e)))) (env_Signature (ev_First e)) \<and>
      verify pub (hash_bytes (SigningHash kh (env_Vote (ev_Second e)))) (env_Signature (ev_Second e)))"
  (is "?L \<longleftrightarrow> (\<exists>pub. ?new pub = Inr e \<and> ?v1 pub \<and> ?v2 pub)")
proof
  let ?pub = "mustDecodeEvidencePub (ev_SignerPubKey e)"
  assume L: ?L
  have version: "ev_Version e = ''GTOS_MALICIOUS_VOTE_EVIDENCE_V1''"
      "ev_Kind e = ''checkpoint_equivocation''" "ev_ChainID e \<noteq> None"
    using L by (auto simp: evidence_Validate_def split: if_splits)
  from L version obtain want where new: "?new ?pub = Inr want"
    by (auto simp: evidence_Validate_def split: sum.splits if_splits)
  from L version new have eq: "ev_Number want = ev_Number e" "ev_Signer want = ev_Signer e"
      "ev_ChainID want = ev_ChainID e" "ev_SignerType want = ev_SignerType e"
      "ev_SignerPubKey want = ev_SignerPubKey e" "ev_First want = ev_First e" "ev_Second want = ev_Second e"
    and sig: "?v1 ?pub" "?v2 ?pub"
    by (auto simp: evidence_Validate_def mustDecodeEvidencePub_def split: option.splits if_splits)
  have "want = e"
    using eq version new by (auto simp: NewMaliciousVoteEvidence_iff intro!: MaliciousVoteEvidence.equality)
  with new sig show "\<exists>pub. ?new pub = Inr e \<and> ?v1 pub \<and> ?v2 pub" by blast
next
  assume "\<exists>pub. ?new pub = Inr e \<and> ?v1 pub \<and> ?v2 pub"
  then obtain pub where new: "?new pub = Inr e" and sig: "?v1 pub" "?v2 pub" by blast
  from new have e: "length pub = 32" "ev_SignerPubKey e = ''0x'' @ hex_encode pub" "ev_ChainID e \<noteq> None"
      "ev_Version e = ''GTOS_MALICIOUS_VOTE_EVIDENCE_V1''" "ev_Kind e = ''checkpoint_equivocation''"
    using NewMaliciousVoteEvidence_fields [OF new] by (simp_all add: NewMaliciousVoteEvidence_iff)
  have pub: "mustDecodeEvidencePub (ev_SignerPubKey e) = pub"
    using e(2) mustDecodeEvidencePub_encode by simp
  have "hex_decode (trim0x (ev_SignerPubKey e)) = Some pub"
    using e(2) by (simp add: trim0x_def hex_decode_encode)
  with new sig e(1,3,4,5) pub show ?L
    by (simp add: evidence_Validate_def)
qed

text \<open>
  C25. Evidence that passes validation proves misbehaviour: one 32-byte key, whose hash is the
  accused address, has signed two votes for the same chain and checkpoint number with different
  block hashes.
\<close>

theorem evidence_sound:
  assumes "evidence_Validate kh verify (Some e) = None"
  shows "\<exists>pub. length pub = 32 \<and> kh pub = ev_Signer e \<and>
    env_Signer (ev_First e) = ev_Signer e \<and> env_Signer (ev_Second e) = ev_Signer e \<and>
    vote_Number (env_Vote (ev_First e)) = ev_Number e \<and> vote_Number (env_Vote (ev_Second e)) = ev_Number e \<and>
    vote_ChainID (env_Vote (ev_First e)) = vote_ChainID (env_Vote (ev_Second e)) \<and>
    vote_Hash (env_Vote (ev_First e)) < vote_Hash (env_Vote (ev_Second e)) \<and>
    verify pub (hash_bytes (SigningHash kh (env_Vote (ev_First e)))) (env_Signature (ev_First e)) \<and>
    verify pub (hash_bytes (SigningHash kh (env_Vote (ev_Second e)))) (env_Signature (ev_Second e))"
proof -
  let ?a = "ev_First e" and ?b = "ev_Second e"
  obtain pub where new: "NewMaliciousVoteEvidence kh (Some ?a) (Some ?b) (ev_SignerType e) pub = Inr e"
    and sig: "verify pub (hash_bytes (SigningHash kh (env_Vote ?a))) (env_Signature ?a)"
      "verify pub (hash_bytes (SigningHash kh (env_Vote ?b))) (env_Signature ?b)"
    using assms unfolding evidence_Validate_None by blast
  note checks = NewMaliciousVoteEvidence_checks [OF new]
  have "\<not> vote_Hash (env_Vote ?b) < vote_Hash (env_Vote ?a)"
    using NewMaliciousVoteEvidence_fields(8) [OF new] by (metis order_less_irrefl)
  then have "vote_Hash (env_Vote ?a) < vote_Hash (env_Vote ?b)"
    using checks(3) by (simp add: not_less order_less_le)
  moreover have "ev_Signer e = env_Signer ?a" "ev_Number e = vote_Number (env_Vote ?a)"
    by (rule NewMaliciousVoteEvidence_fields [OF new])+
  ultimately show ?thesis
    using checks sig by (intro exI [of _ pub]) simp
qed

lemma NewMaliciousVoteEvidence_swap:
  "NewMaliciousVoteEvidence kh (Some a) (Some b) t pub = Inr e \<Longrightarrow> NewMaliciousVoteEvidence kh (Some b) (Some a) t pub = Inr e"
  unfolding NewMaliciousVoteEvidence_iff by (auto simp: not_less)

lemma NewMaliciousVoteEvidence_valid:
  assumes "NewMaliciousVoteEvidence kh (Some a) (Some b) t pub = Inr e"
    and "verify pub (hash_bytes (SigningHash kh (env_Vote a))) (env_Signature a)"
    and "verify pub (hash_bytes (SigningHash kh (env_Vote b))) (env_Signature b)"
  shows "evidence_Validate kh verify (Some e) = None"
proof -
  have "ev_SignerType e = t"
    "ev_First e = a \<and> ev_Second e = b \<or> ev_First e = b \<and> ev_Second e = a"
    using NewMaliciousVoteEvidence_fields(6,8,9) [OF assms(1)] by auto
  then show ?thesis
    unfolding evidence_Validate_None using assms NewMaliciousVoteEvidence_swap [OF assms(1)] by auto
qed


definition example_envelope :: "hash \<Rightarrow> CheckpointVoteEnvelope" where
  "example_envelope h = \<lparr>env_Vote = example_vote h, env_Signer = 7, env_Signature = replicate 64 1\<rparr>"


theorem evidence_sound_witness:
  "\<exists>e (pub :: bytes). evidence_Validate (\<lambda>_. 7) (\<lambda>_ _ sig. length sig = 64) (Some e) = None \<and>
    length pub = 32 \<and> vote_Hash (env_Vote (ev_First e)) < vote_Hash (env_Vote (ev_Second e))"
proof -
  obtain e where new: "NewMaliciousVoteEvidence (\<lambda>_. 7) (Some (example_envelope 1)) (Some (example_envelope 2))
      ''ed25519'' (replicate 32 0) = Inr e"
    by (simp add: NewMaliciousVoteEvidence_iff example_envelope_def example_vote_def)
  then have "ev_First e = example_envelope 1" "ev_Second e = example_envelope 2" "ev_SignerType e = ''ed25519''"
    unfolding NewMaliciousVoteEvidence_iff by (auto simp: example_envelope_def example_vote_def)
  then have "evidence_Validate (\<lambda>_. 7) (\<lambda>_ _ sig. length sig = 64) (Some e) = None"
    unfolding evidence_Validate_None using new
    by (intro exI [of _ "replicate 32 0"]) (simp add: example_envelope_def)
  with evidence_sound [OF this] show ?thesis by blast
qed

end
