(* ===== verification/RLPStream.thy ===== *)
theory RLPStream
  imports Types
begin

text \<open>
  rlp/decode.go: the pull parser \<open>Stream\<close> with its stack of list limits, and the decoders built on it that
  the node uses for checkpoint certificates. Limits and sizes are 64-bit words, as in the source:
  \<open>List\<close> subtracts without a check and can wrap. The head of \<open>s_stack\<close> is the innermost list;
  \<open>s_kind = None\<close> is the value \<open>-1\<close> of the source.
\<close>

datatype stream_error =
    EOL
  | EOF
  | ErrElemTooLarge
  | errNotInList
  | errNotAtEOL
  | errInvalidBool
  | errTooFewElements
  | errStringTooLong
  | errStringTooShort
  | errWrongSize
  | ErrMoreThanOneValue
  | SErr rlp_error

record Stream =
  s_r :: bytes
  s_remaining :: u64
  s_size :: u64
  s_kinderr :: "stream_error option"
  s_stack :: "u64 list"
  s_kind :: "rlp_kind option"
  s_byteval :: byte
  s_limited :: bool

type_synonym 'a reader = "Stream \<Rightarrow> Stream \<times> (stream_error + 'a)"

definition stream_Reset :: "bytes \<Rightarrow> u64 \<Rightarrow> Stream" where
  "stream_Reset r inputLimit =
     \<lparr>s_r = r, s_remaining = (if inputLimit > 0 then inputLimit else word_of_nat (length r)), s_size = 0,
      s_kinderr = None, s_stack = [], s_kind = None, s_byteval = 0, s_limited = True\<rparr>"

definition listLimit :: "Stream \<Rightarrow> bool \<times> u64" where
  "listLimit s = (case s_stack s of [] \<Rightarrow> (False, 0) | l # _ \<Rightarrow> (True, l))"

definition willRead :: "u64 \<Rightarrow> Stream \<Rightarrow> Stream \<times> stream_error option" where
  "willRead n s =
     (let s = s\<lparr>s_kind := None\<rparr>; (inList, limit) = listLimit s in
      if inList \<and> n > limit then (s, Some ErrElemTooLarge)
      else
        let s = (if inList then s\<lparr>s_stack := (limit - n) # tl (s_stack s)\<rparr> else s) in
        if s_limited s then
          (if n > s_remaining s then (s, Some (SErr ErrValueTooLarge))
           else (s\<lparr>s_remaining := s_remaining s - n\<rparr>, None))
        else (s, None))"

definition readFull :: "u64 \<Rightarrow> bytes reader" where
  "readFull n s =
     (case willRead n s of
        (s, Some e) \<Rightarrow> (s, Inl e)
      | (s, None) \<Rightarrow>
          if length (s_r s) < unat n then (s\<lparr>s_r := []\<rparr>, Inl (SErr ErrUnexpectedEOF))
          else (s\<lparr>s_r := drop (unat n) (s_r s)\<rparr>, Inr (take (unat n) (s_r s))))"

definition readByte :: "byte reader" where
  "readByte s =
     (case willRead 1 s of
        (s, Some e) \<Rightarrow> (s, Inl e)
      | (s, None) \<Rightarrow>
          (case s_r s of [] \<Rightarrow> (s, Inl (SErr ErrUnexpectedEOF))
           | b # r \<Rightarrow> (s\<lparr>s_r := r\<rparr>, Inr b)))"

definition readUint :: "nat \<Rightarrow> u64 reader" where
  "readUint sz s =
     (if sz = 0 then (s\<lparr>s_kind := None\<rparr>, Inr 0)
      else if sz = 1 then
        (case readByte s of (s, Inl e) \<Rightarrow> (s, Inl e) | (s, Inr b) \<Rightarrow> (s, Inr (ucast b)))
      else
        (case readFull (word_of_nat sz) s of
           (s, Inl e) \<Rightarrow> (s, Inl e)
         | (s, Inr buffer) \<Rightarrow>
             if hd buffer = 0 then (s, Inl (SErr ErrCanonSize)) else (s, Inr (word_of_nat (be_nat buffer)))))"

text \<open>The kind, the size, and the error that comes with them.\<close>

definition long_size :: "rlp_kind \<Rightarrow> nat \<Rightarrow> Stream \<Rightarrow> Stream \<times> rlp_kind \<times> u64 \<times> stream_error option" where
  "long_size k sz s =
     (case readUint sz s of
        (s, Inl e) \<Rightarrow> (s, k, 0, Some e)
      | (s, Inr n) \<Rightarrow> (s, k, n, if n < 56 then Some (SErr ErrCanonSize) else None))"

definition stream_readKind :: "Stream \<Rightarrow> Stream \<times> rlp_kind \<times> u64 \<times> stream_error option" where
  "stream_readKind s =
     (case readByte s of
        (s, Inl e) \<Rightarrow>
          (s, KByte, 0, Some (if s_stack s = [] \<and> (e = SErr ErrUnexpectedEOF \<or> e = SErr ErrValueTooLarge)
                              then EOF else e))
      | (s, Inr b) \<Rightarrow>
          let s = s\<lparr>s_byteval := 0\<rparr> in
          if b < 0x80 then (s\<lparr>s_byteval := b\<rparr>, KByte, 0, None)
          else if b < 0xB8 then (s, KString, ucast (b - 0x80), None)
          else if b < 0xC0 then long_size KString (unat (b - 0xB7)) s
          else if b < 0xF8 then (s, KList, ucast (b - 0xC0), None)
          else long_size KList (unat (b - 0xF7)) s)"

definition kind_result :: "(rlp_kind \<times> u64) reader" where
  "kind_result s =
     (s, case s_kinderr s of Some e \<Rightarrow> Inl e
         | None \<Rightarrow> Inr (case s_kind s of None \<Rightarrow> KByte | Some k \<Rightarrow> k, s_size s))"

definition stream_Kind :: "(rlp_kind \<times> u64) reader" where
  "stream_Kind s =
     (if s_kind s \<noteq> None then kind_result s
      else
        let (inList, limit) = listLimit s in
        if inList \<and> limit = 0 then (s, Inl EOL)
        else
          (case stream_readKind s of (s, k, sz, err) \<Rightarrow>
             let err = (case err of Some e \<Rightarrow> Some e
                        | None \<Rightarrow>
                            if inList \<and> sz > limit then Some ErrElemTooLarge
                            else if s_limited s \<and> sz > s_remaining s then Some (SErr ErrValueTooLarge)
                            else None)
             in kind_result (s\<lparr>s_kind := Some k, s_size := sz, s_kinderr := err\<rparr>)))"

definition stream_Bytes :: "bytes reader" where
  "stream_Bytes s =
     (case stream_Kind s of (s, Inl e) \<Rightarrow> (s, Inl e)
      | (s, Inr (k, sz)) \<Rightarrow>
         (case k of
            KByte \<Rightarrow> (s\<lparr>s_kind := None\<rparr>, Inr [s_byteval s])
          | KString \<Rightarrow>
              (case readFull sz s of (s, Inl e) \<Rightarrow> (s, Inl e)
               | (s, Inr b) \<Rightarrow>
                   if sz = 1 \<and> b ! 0 < 128 then (s, Inl (SErr ErrCanonSize)) else (s, Inr b))
          | KList \<Rightarrow> (s, Inl (SErr ErrExpectedString))))"

definition stream_ReadBytes :: "nat \<Rightarrow> bytes reader" where
  "stream_ReadBytes n s =
     (case stream_Kind s of (s, Inl e) \<Rightarrow> (s, Inl e)
      | (s, Inr (k, sz)) \<Rightarrow>
         (case k of
            KByte \<Rightarrow> if n \<noteq> 1 then (s, Inl errWrongSize) else (s\<lparr>s_kind := None\<rparr>, Inr [s_byteval s])
          | KString \<Rightarrow>
              if word_of_nat n \<noteq> sz then (s, Inl errWrongSize)
              else
                (case readFull sz s of (s, Inl e) \<Rightarrow> (s, Inl e)
                 | (s, Inr b) \<Rightarrow>
                     if sz = 1 \<and> b ! 0 < 128 then (s, Inl (SErr ErrCanonSize)) else (s, Inr b))
          | KList \<Rightarrow> (s, Inl (SErr ErrExpectedString))))"

definition stream_Raw :: "bytes reader" where
  "stream_Raw s =
     (case stream_Kind s of (s, Inl e) \<Rightarrow> (s, Inl e)
      | (s, Inr (k, sz)) \<Rightarrow>
          if k = KByte then (s\<lparr>s_kind := None\<rparr>, Inr [s_byteval s])
          else
            (case readFull sz s of (s, Inl e) \<Rightarrow> (s, Inl e)
             | (s, Inr b) \<Rightarrow>
                 (s, Inr ((if k = KString then puthead 0x80 0xB7 sz else puthead 0xC0 0xF7 sz) @ b))))"

definition stream_uint :: "nat \<Rightarrow> u64 reader" where
  "stream_uint maxbits s =
     (case stream_Kind s of (s, Inl e) \<Rightarrow> (s, Inl e)
      | (s, Inr (k, sz)) \<Rightarrow>
         (case k of
            KByte \<Rightarrow>
              if s_byteval s = 0 then (s, Inl (SErr ErrCanonInt))
              else (s\<lparr>s_kind := None\<rparr>, Inr (ucast (s_byteval s)))
          | KString \<Rightarrow>
              if unat sz > maxbits div 8 then (s, Inl (SErr errUintOverflow))
              else
                (case readUint (unat sz) s of
                   (s, Inl e) \<Rightarrow> (s, Inl (if e = SErr ErrCanonSize then SErr ErrCanonInt else e))
                 | (s, Inr v) \<Rightarrow>
                     if sz > 0 \<and> v < 128 then (s, Inl (SErr ErrCanonSize)) else (s, Inr v))
          | KList \<Rightarrow> (s, Inl (SErr ErrExpectedString))))"

definition stream_Bool :: "bool reader" where
  "stream_Bool s =
     (case stream_uint 8 s of (s, Inl e) \<Rightarrow> (s, Inl e)
      | (s, Inr num) \<Rightarrow>
          if num = 0 then (s, Inr False) else if num = 1 then (s, Inr True) else (s, Inl errInvalidBool))"

definition stream_List :: "u64 reader" where
  "stream_List s =
     (case stream_Kind s of (s, Inl e) \<Rightarrow> (s, Inl e)
      | (s, Inr (k, sz)) \<Rightarrow>
          if k \<noteq> KList then (s, Inl (SErr ErrExpectedList))
          else
            let (inList, limit) = listLimit s;
                s = (if inList then s\<lparr>s_stack := (limit - sz) # tl (s_stack s)\<rparr> else s)
            in (s\<lparr>s_stack := sz # s_stack s, s_kind := None, s_size := 0\<rparr>, Inr sz))"

definition stream_ListEnd :: "unit reader" where
  "stream_ListEnd s =
     (let (inList, limit) = listLimit s in
      if \<not> inList then (s, Inl errNotInList)
      else if limit > 0 then (s, Inl errNotAtEOL)
      else (s\<lparr>s_stack := tl (s_stack s), s_kind := None, s_size := 0\<rparr>, Inr ()))"

definition MoreDataInList :: "Stream \<Rightarrow> bool" where
  "MoreDataInList s = (snd (listLimit s) > 0)"

definition stream_decodeBigInt :: "int reader" where
  "stream_decodeBigInt s =
     (case stream_Kind s of (s, Inl e) \<Rightarrow> (s, Inl e)
      | (s, Inr (k, sz)) \<Rightarrow>
          (case (case k of
                   KList \<Rightarrow> (s, Inl (SErr ErrExpectedString))
                 | KByte \<Rightarrow> (s\<lparr>s_kind := None\<rparr>, Inr [s_byteval s])
                 | KString \<Rightarrow>
                     if sz = 0 then (s\<lparr>s_kind := None\<rparr>, Inr [])
                     else
                       (case readFull sz s of (s, Inl e) \<Rightarrow> (s, Inl e)
                        | (s, Inr b) \<Rightarrow>
                            if sz = 1 \<and> b ! 0 < 128 then (s, Inl (SErr ErrCanonSize)) else (s, Inr b))) of
             (s, Inl e) \<Rightarrow> (s, Inl e)
           | (s, Inr buffer) \<Rightarrow>
               if length buffer > 0 \<and> buffer ! 0 = 0 then (s, Inl (SErr ErrCanonInt))
               else (s, Inr (int (be_nat buffer)))))"

section \<open>Decoders\<close>

definition decodeByteArray :: "nat \<Rightarrow> bytes reader" where
  "decodeByteArray n s =
     (case stream_Kind s of (s, Inl e) \<Rightarrow> (s, Inl e)
      | (s, Inr (k, sz)) \<Rightarrow>
         (case k of
            KByte \<Rightarrow>
              if n = 0 then (s, Inl errStringTooLong)
              else if n > 1 then (s, Inl errStringTooShort)
              else (s\<lparr>s_kind := None\<rparr>, Inr [s_byteval s])
          | KString \<Rightarrow>
              if word_of_nat n < sz then (s, Inl errStringTooLong)
              else if word_of_nat n > sz then (s, Inl errStringTooShort)
              else
                (case readFull (word_of_nat n) s of (s, Inl e) \<Rightarrow> (s, Inl e)
                 | (s, Inr b) \<Rightarrow>
                     if sz = 1 \<and> b ! 0 < 128 then (s, Inl (SErr ErrCanonSize)) else (s, Inr b))
          | KList \<Rightarrow> (s, Inl (SErr ErrExpectedString))))"

text \<open>
  The loop over the elements of a list ends with \<open>EOL\<close>; each element takes at least one byte of
  input, so the number of unread bytes is enough fuel.
\<close>

fun decodeSliceElems :: "nat \<Rightarrow> 'a reader \<Rightarrow> 'a list reader" where
  "decodeSliceElems 0 elemdec s = (s, Inl EOF)"
| "decodeSliceElems (Suc fuel) elemdec s =
     (case elemdec s of
        (s, Inl EOL) \<Rightarrow> (s, Inr [])
      | (s, Inl e) \<Rightarrow> (s, Inl e)
      | (s, Inr v) \<Rightarrow>
          (case decodeSliceElems fuel elemdec s of
             (s, Inl e) \<Rightarrow> (s, Inl e)
           | (s, Inr vs) \<Rightarrow> (s, Inr (v # vs))))"

definition end_list :: "'a \<Rightarrow> 'a reader" where
  "end_list v s = (case stream_ListEnd s of (s, Inl e) \<Rightarrow> (s, Inl e) | (s, Inr _) \<Rightarrow> (s, Inr v))"

definition decodeListSlice :: "'a reader \<Rightarrow> 'a list reader" where
  "decodeListSlice elemdec s =
     (case stream_List s of (s, Inl e) \<Rightarrow> (s, Inl e)
      | (s, Inr sz) \<Rightarrow>
          if sz = 0 then end_list [] s
          else
            (case decodeSliceElems (Suc (length (s_r s))) elemdec s of
               (s, Inl e) \<Rightarrow> (s, Inl e)
             | (s, Inr vs) \<Rightarrow> end_list vs s))"

text \<open>A field of a struct: the end of the list before it is an error.\<close>

definition field :: "'a reader \<Rightarrow> 'a reader" where
  "field dec s = (case dec s of (s, Inl e) \<Rightarrow> (s, Inl (if e = EOL then errTooFewElements else e)) | r \<Rightarrow> r)"

definition bind_reader :: "'a reader \<Rightarrow> ('a \<Rightarrow> 'b reader) \<Rightarrow> 'b reader" where
  "bind_reader m f s = (case m s of (s, Inl e) \<Rightarrow> (s, Inl e) | (s, Inr v) \<Rightarrow> f v s)"

definition decodeCheckpointVote :: "CheckpointVote reader" where
  "decodeCheckpointVote =
     bind_reader stream_List (\<lambda>_.
     bind_reader (field stream_decodeBigInt) (\<lambda>chainID.
     bind_reader (field (stream_uint 64)) (\<lambda>number.
     bind_reader (field (decodeByteArray 32)) (\<lambda>hash.
     bind_reader (field (decodeByteArray 32)) (\<lambda>vsHash.
       end_list \<lparr>vote_ChainID = Some chainID, vote_Number = number, vote_Hash = BytesToHash hash,
         vote_ValidatorSetHash = BytesToHash vsHash\<rparr>)))))"

definition decodeCheckpointQC :: "CheckpointQC reader" where
  "decodeCheckpointQC =
     bind_reader stream_List (\<lambda>_.
     bind_reader (field decodeCheckpointVote) (\<lambda>vote.
     bind_reader (field (stream_uint 64)) (\<lambda>bitmap.
     bind_reader (field (decodeListSlice (decodeByteArray 64))) (\<lambda>sigs.
       end_list \<lparr>qc_Vote = vote, qc_Bitmap = bitmap, qc_Signatures = sigs\<rparr>))))"

definition qc_rlp :: "CheckpointQC \<Rightarrow> rlp" where
  "qc_rlp qc = Lst [vote_fields_rlp (qc_Vote qc), rlp_uint (qc_Bitmap qc), Lst (map Str (qc_Signatures qc))]"

text \<open>What the Go type of a certificate guarantees: a chain id the encoder accepts, \<open>[64]byte\<close> signatures.\<close>

definition qc_wf :: "CheckpointQC \<Rightarrow> bool" where
  "qc_wf qc \<longleftrightarrow> (case vote_ChainID (qc_Vote qc) of None \<Rightarrow> False | Some i \<Rightarrow> 0 \<le> i) \<and>
     (\<forall>g\<in>set (qc_Signatures qc). length g = 64)"

definition DecodeBytes :: "'a reader \<Rightarrow> bytes \<Rightarrow> stream_error + 'a" where
  "DecodeBytes dec b =
     (case dec (stream_Reset b (word_of_nat (length b))) of
        (s, Inl e) \<Rightarrow> Inl e
      | (s, Inr v) \<Rightarrow> if length (s_r s) > 0 then Inl ErrMoreThanOneValue else Inr v)"


section \<open>What a successful read consumed\<close>

fun adjust :: "u64 list \<Rightarrow> nat \<Rightarrow> u64 list" where
  "adjust [] n = []"
| "adjust (l # ls) n = (l - word_of_nat n) # ls"

definition consumes :: "Stream \<Rightarrow> bytes \<Rightarrow> Stream \<Rightarrow> bool" where
  "consumes s e s' \<longleftrightarrow> s_limited s \<and> s_limited s' \<and> s_r s = e @ s_r s' \<and>
     s_remaining s' = s_remaining s - word_of_nat (length e) \<and> s_stack s' = adjust (s_stack s) (length e)"

lemma adjust_adjust: "adjust (adjust ls m) n = adjust ls (m + n)"
  by (cases ls) simp_all

lemma adjust_0 [simp]: "adjust ls 0 = ls"
  by (cases ls) simp_all

lemma adjust_Nil [simp]: "adjust ls n = [] \<longleftrightarrow> ls = []"
  by (cases ls) simp_all

lemma consumes_trans: "consumes s a s1 \<Longrightarrow> consumes s1 b s2 \<Longrightarrow> consumes s (a @ b) s2"
  by (auto simp: consumes_def adjust_adjust)

lemma consumes_refl: "s_limited s \<Longrightarrow> consumes s [] s"
  by (simp add: consumes_def)

text \<open>Fields that the bookkeeping does not look at.\<close>

lemma consumes_update [simp]:
  "consumes s e (s'\<lparr>s_kind := k\<rparr>) \<longleftrightarrow> consumes s e s'"
  "consumes s e (s'\<lparr>s_size := n\<rparr>) \<longleftrightarrow> consumes s e s'"
  "consumes s e (s'\<lparr>s_kinderr := x\<rparr>) \<longleftrightarrow> consumes s e s'"
  "consumes s e (s'\<lparr>s_byteval := b\<rparr>) \<longleftrightarrow> consumes s e s'"
  "consumes (s\<lparr>s_kind := k\<rparr>) e s' \<longleftrightarrow> consumes s e s'"
  "consumes (s\<lparr>s_byteval := b\<rparr>) e s' \<longleftrightarrow> consumes s e s'"
  by (simp_all add: consumes_def)

lemma willRead_ok:
  assumes "s_limited s" and "willRead n s = (s', None)"
  shows "s' = s\<lparr>s_kind := None, s_stack := adjust (s_stack s) (unat n), s_remaining := s_remaining s - n\<rparr>"
  using assms by (cases "s_stack s") (auto simp: willRead_def listLimit_def Let_def split: if_splits)

lemma readFull_ok:
  assumes "s_limited s" and "readFull n s = (s', Inr b)"
  shows "consumes s b s'" and "length b = unat n" and "s_kind s' = None"
proof -
  obtain s1 where w: "willRead n s = (s1, None)" and len: "unat n \<le> length (s_r s1)"
    and s': "s' = s1\<lparr>s_r := drop (unat n) (s_r s1)\<rparr>" and b: "b = take (unat n) (s_r s1)"
    using assms(2) by (auto simp: readFull_def split: prod.splits option.splits if_splits)
  note s1 = willRead_ok [OF assms(1) w]
  show "length b = unat n" using len b by simp
  then show "consumes s b s'" and "s_kind s' = None"
    using assms(1) b by (simp_all add: consumes_def s' s1)
qed

lemma readByte_ok:
  assumes "s_limited s" and "readByte s = (s', Inr b)"
  shows "consumes s [b] s'" and "s_kind s' = None"
proof -
  obtain s1 r where w: "willRead 1 s = (s1, None)" and r: "s_r s1 = b # r" and s': "s' = s1\<lparr>s_r := r\<rparr>"
    using assms(2) by (auto simp: readByte_def split: prod.splits option.splits list.splits)
  note s1 = willRead_ok [OF assms(1) w]
  show "consumes s [b] s'" and "s_kind s' = None"
    using assms(1) r by (simp_all add: consumes_def s' s1)
qed

lemma readUint_ok:
  assumes "s_limited s" and "readUint sz s = (s', Inr n)" and sz: "sz \<le> 8"
  shows "\<exists>e. consumes s e s' \<and> length e = sz \<and> n = word_of_nat (be_nat e) \<and> (1 < sz \<longrightarrow> hd e \<noteq> 0)"
    and "s_kind s' = None"
proof -
  have u: "unat (word_of_nat sz :: u64) = sz" using sz by (simp add: unat_of_nat_small)
  consider "sz = 0" | "sz = 1" | "1 < sz" by linarith
  then have "(\<exists>e. consumes s e s' \<and> length e = sz \<and> n = word_of_nat (be_nat e) \<and> (1 < sz \<longrightarrow> hd e \<noteq> 0)) \<and>
      s_kind s' = None"
  proof cases
    case 1
    then show ?thesis using assms(1,2) by (auto simp: readUint_def intro!: exI [of _ "[]"] consumes_refl)
  next
    case 2
    then obtain b where "readByte s = (s', Inr b)" "n = ucast b"
      using assms(2) by (auto simp: readUint_def split: prod.splits sum.splits)
    then show ?thesis
      using 2 readByte_ok [OF assms(1)] by (auto intro!: exI [of _ "[b]"] simp: word_unat_eq_iff unsigned_ucast_eq)
  next
    case 3
    then obtain b where "readFull (word_of_nat sz) s = (s', Inr b)" "hd b \<noteq> 0" "n = word_of_nat (be_nat b)"
      using assms(2) by (auto simp: readUint_def split: prod.splits sum.splits if_splits)
    then show ?thesis
      using readFull_ok [OF assms(1), of "word_of_nat sz" s' b] u by (auto intro!: exI [of _ b])
  qed
  then show "\<exists>e. consumes s e s' \<and> length e = sz \<and> n = word_of_nat (be_nat e) \<and> (1 < sz \<longrightarrow> hd e \<noteq> 0)"
    and "s_kind s' = None" by simp_all
qed

definition header_of :: "rlp_kind \<Rightarrow> u64 \<Rightarrow> byte \<Rightarrow> bytes \<Rightarrow> bool" where
  "header_of k sz b hdr \<longleftrightarrow>
     (case k of KByte \<Rightarrow> hdr = [b] \<and> b < 0x80 \<and> sz = 0
      | KString \<Rightarrow> hdr = puthead 0x80 0xB7 sz
      | KList \<Rightarrow> hdr = puthead 0xC0 0xF7 sz)"

lemma puthead_long:
  assumes "length e \<le> 8" and "n = word_of_nat (be_nat e)" and "1 < length e \<longrightarrow> hd e \<noteq> 0"
    and "\<not> n < 56" and "e \<noteq> []"
  shows "puthead small large n = (large + word_of_nat (length e)) # e"
proof -
  have "be_nat e < 256 ^ length e" by (rule be_nat_less)
  also have "\<dots> \<le> 256 ^ 8" using assms(1) by (intro power_increasing) simp_all
  finally have lt: "be_nat e < 2 ^ 64" by simp
  have "\<not> be_nat e < 56" using assms(2,4) lt by (simp add: word_less_nat_alt unat_of_nat_small)
  moreover from this have "hd e \<noteq> 0" using assms(3,5) by (cases e; cases "tl e") auto
  then have "be_len (be_nat e) = length e" using assms(5) by (intro be_len_be_nat)
  ultimately show ?thesis
    unfolding assms(2) using puthead_eq [OF lt] be_bytes_be_nat [of e] by simp
qed


lemma puthead_short: "n < 56 \<Longrightarrow> puthead small large n = [small + ucast n]"
  by (simp add: puthead_def)

lemma ucast_ucast_byte [simp]: "(ucast (ucast (b :: byte) :: u64) :: byte) = b"
  by (rule bit_word_eqI) (auto simp: bit_simps)

lemma long_size_ok:
  assumes "s_limited s" and "long_size k n s = (s', k', sz, None)" and "0 < n" "n \<le> 8"
  shows "\<exists>e. consumes s e s' \<and> k' = k \<and> length e = n \<and> (\<forall>small large. puthead small large sz = (large + word_of_nat n) # e)"
    and "s_kind s' = None"
proof -
  have r: "readUint n s = (s', Inr sz)" "k' = k" "\<not> sz < 56"
    using assms(2) by (auto simp: long_size_def split: prod.splits sum.splits if_splits)
  obtain e where e: "consumes s e s'" "length e = n" "sz = word_of_nat (be_nat e)" "1 < n \<longrightarrow> hd e \<noteq> 0"
    using readUint_ok(1) [OF assms(1) r(1) assms(4)] by blast
  then have "puthead small large sz = (large + word_of_nat n) # e" for small large
    using puthead_long [of e sz small large] assms(3,4) r(3) by auto
  then show "\<exists>e. consumes s e s' \<and> k' = k \<and> length e = n \<and> (\<forall>small large. puthead small large sz = (large + word_of_nat n) # e)"
    using e r by blast
  show "s_kind s' = None" using readUint_ok(2) [OF assms(1) r(1) assms(4)] .
qed

lemma readKind_ok:
  assumes "s_limited s" and "stream_readKind s = (s', k, sz, None)"
  shows "\<exists>hdr. consumes s hdr s' \<and> header_of k sz (s_byteval s') hdr"
proof -
  obtain s1 b where r: "readByte s = (s1, Inr b)"
    using assms(2) by (auto simp: stream_readKind_def split: prod.splits sum.splits)
  have c: "consumes s [b] s1" using readByte_ok(1) [OF assms(1) r] .
  let ?s = "s1\<lparr>s_byteval := 0\<rparr>"
  have lim: "s_limited ?s" using c by (simp add: consumes_def)
  note cmp = word_less_nat_alt
  have long: ?thesis
    if "long_size k0 (unat (b - t)) ?s = (s', k, sz, None)" and "t \<le> b" "0 < unat (b - t)" "unat (b - t) \<le> 8"
      and "k0 = KString \<and> t = 0xB7 \<or> k0 = KList \<and> t = 0xF7" for k0 t
  proof -
    note prem = that
    obtain e where e: "consumes ?s e s'" "k = k0"
      and h: "\<And>small large. puthead small large sz = (large + word_of_nat (unat (b - t))) # e"
      using long_size_ok(1) [OF lim prem(1,3,4)] by blast
    have "t + word_of_nat (unat (b - t)) = b" using byte_tag [OF that(2)] by blast
    then have "header_of k sz (s_byteval s') (b # e)"
      using that(5) e(2) h by (auto simp: header_of_def)
    moreover have "consumes s (b # e) s'"
      using consumes_trans [OF c, of e s'] e(1) by simp
    ultimately show ?thesis by blast
  qed
  consider "b < 0x80" | "\<not> b < 0x80" "b < 0xB8" | "\<not> b < 0x80" "\<not> b < 0xB8" "b < 0xC0"
    | "\<not> b < 0x80" "\<not> b < 0xB8" "\<not> b < 0xC0" "b < 0xF8"
    | "\<not> b < 0x80" "\<not> b < 0xB8" "\<not> b < 0xC0" "\<not> b < 0xF8"
    by blast
  then show ?thesis
  proof cases
    case 1
    then show ?thesis using assms(2) r c by (auto simp: stream_readKind_def header_of_def intro!: exI [of _ "[b]"])
  next
    case 2
    then have "unat (b - 0x80) < 56" using byte_tag [of "0x80" b] by (simp add: cmp word_le_nat_alt)
    then have "(ucast (b - 0x80) :: u64) < 56" by (simp add: cmp unat_ucast_byte)
    then have "puthead 0x80 0xB7 (ucast (b - 0x80)) = [b]" by (simp add: puthead_short)
    then show ?thesis using 2 assms(2) r c by (auto simp: stream_readKind_def header_of_def intro!: exI [of _ "[b]"])
  next
    case 3
    then show ?thesis
      using assms(2) r unat_byte_less [of b] byte_tag [of "0xB7" b]
      by (intro long [of KString "0xB7"]) (auto simp: stream_readKind_def cmp word_le_nat_alt)
  next
    case 4
    then have "unat (b - 0xC0) < 56" using byte_tag [of "0xC0" b] by (simp add: cmp word_le_nat_alt)
    then have "(ucast (b - 0xC0) :: u64) < 56" by (simp add: cmp unat_ucast_byte)
    then have "puthead 0xC0 0xF7 (ucast (b - 0xC0)) = [b]" by (simp add: puthead_short)
    then show ?thesis using 4 assms(2) r c by (auto simp: stream_readKind_def header_of_def intro!: exI [of _ "[b]"])
  next
    case 5
    then show ?thesis
      using assms(2) r unat_byte_less [of b] byte_tag [of "0xF7" b]
      by (intro long [of KList "0xF7"]) (auto simp: stream_readKind_def cmp word_le_nat_alt)
  qed
qed

lemma Kind_ok:
  assumes "s_limited s" and "s_kind s = None" and "stream_Kind s = (s', Inr (k, sz))"
  obtains hdr where "consumes s hdr s'" "header_of k sz (s_byteval s') hdr" "s_limited s'"
proof -
  obtain s1 err where r: "stream_readKind s = (s1, k, sz, None)"
    and s': "s' = s1\<lparr>s_kind := Some k, s_size := sz, s_kinderr := None\<rparr>"
    using assms(2,3)
    by (auto simp: stream_Kind_def kind_result_def Let_def split: prod.splits if_splits option.splits)
  show thesis
    using readKind_ok [OF assms(1) r] by (auto intro!: that simp: s' consumes_def)
qed


section \<open>Readers accept only the canonical encoding\<close>

definition ready :: "Stream \<Rightarrow> bool" where
  "ready s \<longleftrightarrow> s_limited s \<and> s_kind s = None"

definition only_canonical :: "'a reader \<Rightarrow> ('a \<Rightarrow> bytes) \<Rightarrow> ('a \<Rightarrow> bool) \<Rightarrow> bool" where
  "only_canonical dec enc P \<longleftrightarrow>
     (\<forall>s s' v. ready s \<longrightarrow> dec s = (s', Inr v) \<longrightarrow> ready s' \<and> consumes s (enc v) s' \<and> P v)"

lemma only_canonicalD:
  "only_canonical dec enc P \<Longrightarrow> ready s \<Longrightarrow> dec s = (s', Inr v) \<Longrightarrow> ready s' \<and> consumes s (enc v) s' \<and> P v"
  unfolding only_canonical_def by blast

lemma word_of_length: "length b = unat (n :: u64) \<Longrightarrow> word_of_nat (length b) = n"
  by simp

text \<open>The content of a string value: one byte below \<open>0x80\<close>, or a header and a body that is not such a byte.\<close>

lemma string_consumed:
  assumes "ready s" and "stream_Kind s = (s1, Inr (KString, sz))" and "readFull sz s1 = (s', Inr b)"
    and "\<not> (sz = 1 \<and> b ! 0 < 128)"
  shows "ready s' \<and> consumes s (rlp_enc (Str b)) s' \<and> length b = unat sz"
proof -
  obtain hdr where h: "consumes s hdr s1" "hdr = puthead 0x80 0xB7 sz" "s_limited s1"
    using assms(1,2) by (auto simp: ready_def header_of_def elim: Kind_ok)
  note r = readFull_ok [OF h(3) assms(3)]
  have "\<not> (length b = 1 \<and> hd b \<le> 0x7F)"
  proof
    assume "length b = 1 \<and> hd b \<le> 0x7F"
    then obtain x where "b = [x]" "x \<le> 0x7F" by (cases b) auto
    moreover from this have "sz = 1" using r(2) by (simp add: word_unat_eq_iff)
    ultimately show False using assms(4) by (simp add: word_le_nat_alt word_less_nat_alt)
  qed
  then have "rlp_enc (Str b) = hdr @ b"
    using h(2) word_of_length [OF r(2)] by auto
  then show ?thesis
    using consumes_trans [OF h(1) r(1)] r by (simp add: ready_def consumes_def)
qed

lemma byte_consumed:
  assumes "ready s" and "stream_Kind s = (s1, Inr (KByte, sz))"
  shows "ready (s1\<lparr>s_kind := None\<rparr>) \<and> consumes s (rlp_enc (Str [s_byteval s1])) (s1\<lparr>s_kind := None\<rparr>)"
proof -
  obtain hdr where "consumes s hdr s1" "hdr = [s_byteval s1]" "s_byteval s1 < 0x80" "s_limited s1"
    using assms by (auto simp: ready_def header_of_def elim: Kind_ok)
  then show ?thesis by (auto simp: ready_def word_le_nat_alt word_less_nat_alt)
qed

lemma stream_Bytes_canonical: "only_canonical stream_Bytes (\<lambda>b. rlp_enc (Str b)) (\<lambda>_. True)"
  unfolding only_canonical_def
proof (intro allI impI)
  fix s s' v
  assume "ready s" and ok: "stream_Bytes s = (s', Inr v)"
  then obtain s1 k sz where k: "stream_Kind s = (s1, Inr (k, sz))"
    by (auto simp: stream_Bytes_def split: prod.splits sum.splits)
  show "ready s' \<and> consumes s (rlp_enc (Str v)) s' \<and> True"
    using ok k string_consumed [OF \<open>ready s\<close>, of s1 sz s' v] byte_consumed [OF \<open>ready s\<close>, of s1 sz]
    by (cases k) (auto simp: stream_Bytes_def simp del: rlp_enc.simps split: prod.splits sum.splits if_splits)
qed

lemma decodeByteArray_canonical:
  assumes "n < 2 ^ 64"
  shows "only_canonical (decodeByteArray n) (\<lambda>b. rlp_enc (Str b)) (\<lambda>b. length b = n)"
  unfolding only_canonical_def
proof (intro allI impI)
  fix s s' v
  assume "ready s" and ok: "decodeByteArray n s = (s', Inr v)"
  then obtain s1 k sz where k: "stream_Kind s = (s1, Inr (k, sz))"
    by (auto simp: decodeByteArray_def split: prod.splits sum.splits)
  have n: "unat (word_of_nat n :: u64) = n" using assms by (simp add: unat_of_nat_small)
  show "ready s' \<and> consumes s (rlp_enc (Str v)) s' \<and> length v = n"
  proof (cases k)
    case KString
    then have "sz = word_of_nat n" and "readFull sz s1 = (s', Inr v)" "\<not> (sz = 1 \<and> v ! 0 < 128)"
      using ok k by (auto simp: decodeByteArray_def split: prod.splits sum.splits if_splits)
    then show ?thesis
      using string_consumed [OF \<open>ready s\<close>, of s1 sz s' v] k KString n by metis
  qed (use ok k byte_consumed [OF \<open>ready s\<close>, of s1 sz] in
      \<open>auto simp: decodeByteArray_def simp del: rlp_enc.simps split: if_splits\<close>)
qed

lemma big_bytes_be_nat: "b = [] \<or> hd b \<noteq> 0 \<Longrightarrow> big_bytes (be_nat b) = b"
proof (cases b)
  case (Cons x xs)
  assume "b = [] \<or> hd b \<noteq> 0"
  then have "0 < unat x" using Cons by (simp add: unat_gt_0)
  then have "be_nat b \<noteq> 0" using Cons by simp
  then show ?thesis
    using \<open>b = [] \<or> hd b \<noteq> 0\<close> Cons be_len_be_nat [of b] be_bytes_be_nat [of b] by (simp add: big_bytes_def)
qed (simp add: big_bytes_def)

lemma big_bytes_0: "big_bytes 0 = []"
  by (simp add: big_bytes_def)

lemma decodeBigInt_canonical:
  "only_canonical stream_decodeBigInt (\<lambda>i. rlp_enc (rlp_big (Some i))) (\<lambda>i. 0 \<le> i)"
  unfolding only_canonical_def
proof (intro allI impI)
  fix s s' v
  assume "ready s" and ok: "stream_decodeBigInt s = (s', Inr v)"
  then obtain s1 k sz where k: "stream_Kind s = (s1, Inr (k, sz))"
    by (auto simp: stream_decodeBigInt_def split: prod.splits sum.splits)
  have "\<exists>b. ready s' \<and> consumes s (rlp_enc (Str b)) s' \<and> (b = [] \<or> hd b \<noteq> 0) \<and> v = int (be_nat b)"
  proof (cases k)
    case KByte
    then show ?thesis
      using ok k byte_consumed [OF \<open>ready s\<close>, of s1 sz]
      by (auto simp: stream_decodeBigInt_def simp del: rlp_enc.simps split: if_splits intro!: exI [of _ "[s_byteval s1]"])
  next
    case KString
    show ?thesis
    proof (cases "sz = 0")
      case True
      then obtain hdr where "consumes s hdr s1" "hdr = puthead 0x80 0xB7 0" "s_limited s1"
        using k KString \<open>ready s\<close> by (auto simp: ready_def header_of_def elim: Kind_ok)
      then show ?thesis
        using ok k KString True by (auto simp: stream_decodeBigInt_def ready_def intro!: exI [of _ "[]"])
    next
      case False
      then obtain b where "readFull sz s1 = (s', Inr b)" "\<not> (sz = 1 \<and> b ! 0 < 128)" "v = int (be_nat b)"
        "\<not> (length b > 0 \<and> b ! 0 = 0)"
        using ok k KString by (auto simp: stream_decodeBigInt_def split: prod.splits sum.splits if_splits)
      moreover from this(4) have "b = [] \<or> hd b \<noteq> 0" by (cases b) auto
      ultimately show ?thesis
        using string_consumed [OF \<open>ready s\<close>, of s1 sz s' b] k KString by blast
    qed
  qed (use ok k in \<open>auto simp: stream_decodeBigInt_def\<close>)
  then show "ready s' \<and> consumes s (rlp_enc (rlp_big (Some v))) s' \<and> 0 \<le> v"
    by (auto simp: rlp_big_def big_bytes_be_nat big_bytes_0 simp del: rlp_enc.simps)
qed

lemma uint_bytes_big: "uint_bytes i = big_bytes (unat i)"
  by (simp add: uint_bytes_def big_bytes_def putint_be_bytes word_unat_eq_iff)

lemma stream_uint_canonical:
  "only_canonical (stream_uint 64) (\<lambda>i. rlp_enc (rlp_uint i)) (\<lambda>_. True)"
  unfolding only_canonical_def
proof (intro allI impI)
  fix s s' v
  assume "ready s" and ok: "stream_uint 64 s = (s', Inr v)"
  then obtain s1 k sz where k: "stream_Kind s = (s1, Inr (k, sz))"
    by (auto simp: stream_uint_def split: prod.splits sum.splits)
  have "\<exists>b. ready s' \<and> consumes s (rlp_enc (Str b)) s' \<and> (b = [] \<or> hd b \<noteq> 0) \<and> unat v = be_nat b"
  proof (cases k)
    case KByte
    then show ?thesis
      using ok k byte_consumed [OF \<open>ready s\<close>, of s1 sz]
      by (auto simp: stream_uint_def unat_ucast_byte simp del: rlp_enc.simps split: if_splits
          intro!: exI [of _ "[s_byteval s1]"])
  next
    case KString
    then obtain hdr where h: "consumes s hdr s1" "hdr = puthead 0x80 0xB7 sz" "s_limited s1"
      using k \<open>ready s\<close> by (auto simp: ready_def header_of_def elim: Kind_ok)
    have r: "readUint (unat sz) s1 = (s', Inr v)" "unat sz \<le> 8" and v: "\<not> (sz > 0 \<and> v < 128)"
      using ok k KString by (auto simp: stream_uint_def split: prod.splits sum.splits if_splits)
    obtain e where e: "consumes s1 e s'" "length e = unat sz" "v = word_of_nat (be_nat e)"
      "1 < unat sz \<longrightarrow> hd e \<noteq> 0"
      using readUint_ok(1) [OF h(3) r] by blast
    have "be_nat e < 256 ^ length e" by (rule be_nat_less)
    also have "\<dots> \<le> 256 ^ 8" using e(2) r(2) by (intro power_increasing) simp_all
    finally have uv: "unat v = be_nat e" using e(3) by (simp add: unat_of_nat_small)
    have one: "\<not> x \<le> 0x7F \<and> x \<noteq> 0" if "e = [x]" for x
    proof -
      have "sz = 1" using e(2) that by (simp add: word_unat_eq_iff)
      then have "128 \<le> unat x" using v uv that by (simp add: word_less_nat_alt)
      then show ?thesis by (auto simp: word_le_nat_alt)
    qed
    then have "\<not> (length e = 1 \<and> hd e \<le> 0x7F)" by (cases e) auto
    then have enc: "rlp_enc (Str e) = hdr @ e" using h(2) word_of_length [OF e(2)] by auto
    have "e = [] \<or> hd e \<noteq> 0"
    proof (cases "1 < length e")
      case False
      then show ?thesis using one by (cases e) auto
    qed (use e in simp)
    moreover have "consumes s (rlp_enc (Str e)) s'" unfolding enc by (rule consumes_trans [OF h(1) e(1)])
    moreover from this have "ready s'"
      using readUint_ok(2) [OF h(3) r] unfolding ready_def consumes_def by blast
    ultimately show ?thesis using uv by blast
  qed (use ok k in \<open>auto simp: stream_uint_def\<close>)
  then show "ready s' \<and> consumes s (rlp_enc (rlp_uint v)) s' \<and> True"
    by (auto simp: rlp_uint_def uint_bytes_big big_bytes_be_nat big_bytes_0 simp del: rlp_enc.simps)
qed

lemma field_canonical: "only_canonical dec enc P \<Longrightarrow> only_canonical (field dec) enc P"
  by (auto simp: only_canonical_def field_def split: prod.splits sum.splits)

lemma list_consumed:
  assumes "ready s" and "stream_List s = (s1, Inr sz)" and "consumes s1 c s2" and "end_list v s2 = (s', Inr w)"
  shows "ready s' \<and> consumes s (puthead 0xC0 0xF7 (word_of_nat (length c)) @ c) s' \<and> w = v"
proof -
  obtain s0 where k: "stream_Kind s = (s0, Inr (KList, sz))"
    and s1: "s1 = s0\<lparr>s_stack := sz # adjust (s_stack s0) (unat sz), s_kind := None, s_size := 0\<rparr>"
    using assms(2)
    by (cases "s_stack (fst (stream_Kind s))")
       (auto simp: stream_List_def listLimit_def Let_def split: prod.splits sum.splits if_splits)
  obtain hdr where h: "consumes s hdr s0" "hdr = puthead 0xC0 0xF7 sz" "s_limited s0"
    using k assms(1) by (auto simp: ready_def header_of_def elim: Kind_ok)
  have s2: "s_stack s2 = (sz - word_of_nat (length c)) # adjust (s_stack s0) (unat sz)"
    using assms(3) by (simp add: consumes_def s1)
  then have nz: "\<not> 0 < sz - word_of_nat (length c)"
    and s': "s' = s2\<lparr>s_stack := adjust (s_stack s0) (unat sz), s_kind := None, s_size := 0\<rparr>" "w = v"
    using assms(4) by (auto simp: end_list_def stream_ListEnd_def listLimit_def split: prod.splits sum.splits if_splits)
  from nz have "sz - word_of_nat (length c) = 0" by (simp only: word_gt_0 not_not)
  then have sz: "sz = word_of_nat (length c)" by simp
  have "adjust l (unat sz) = adjust l (length c)" for l
    by (cases l) (simp_all add: sz)
  then show ?thesis
    using h assms(3) unfolding s' by (auto simp: ready_def consumes_def s1 sz adjust_adjust)
qed


section \<open>Readers accept the canonical encoding\<close>

text \<open>The limits leave room for \<open>n\<close> more bytes.\<close>

definition room :: "Stream \<Rightarrow> nat \<Rightarrow> bool" where
  "room s n \<longleftrightarrow> n \<le> unat (s_remaining s) \<and> (case s_stack s of [] \<Rightarrow> True | l # _ \<Rightarrow> n \<le> unat l)"

lemma unat_minus_nat: "n \<le> unat l \<Longrightarrow> unat ((l :: u64) - word_of_nat n) = unat l - n"
proof -
  assume n: "n \<le> unat l"
  then have u: "unat (word_of_nat n :: u64) = n"
    using u64_less_2p64 [of l] by (simp add: unat_of_nat_small)
  then have "(word_of_nat n :: u64) \<le> l" using n by (simp add: word_le_nat_alt)
  then show ?thesis using u by (simp add: unat_sub)
qed

lemma room_mono: "room s n \<Longrightarrow> m \<le> n \<Longrightarrow> room s m"
  by (auto simp: room_def split: list.splits)

lemma room_consumes:
  assumes "room s (length e + n)" and "consumes s e s'"
  shows "room s' n"
  using assms by (cases "s_stack s") (auto simp: room_def consumes_def unat_minus_nat)

lemma room_update [simp]:
  "room (s\<lparr>s_kind := k\<rparr>) n \<longleftrightarrow> room s n"
  "room (s\<lparr>s_size := z\<rparr>) n \<longleftrightarrow> room s n"
  "room (s\<lparr>s_kinderr := x\<rparr>) n \<longleftrightarrow> room s n"
  "room (s\<lparr>s_byteval := b\<rparr>) n \<longleftrightarrow> room s n"
  by (simp_all add: room_def)

lemma willRead_room:
  assumes "s_limited s" and "room s (unat n)"
  shows "\<exists>s'. willRead n s = (s', None) \<and> s_r s' = s_r s"
  using assms
  by (cases "s_stack s") (auto simp: willRead_def listLimit_def Let_def room_def word_less_nat_alt)

lemma readFull_room:
  assumes "s_limited s" and "room s (length b)" and "s_r s = b @ rest"
  shows "\<exists>s'. readFull (word_of_nat (length b)) s = (s', Inr b)"
proof -
  have "length b \<le> unat (s_remaining s)" using assms(2) by (simp add: room_def)
  then have u: "unat (word_of_nat (length b) :: u64) = length b"
    using u64_less_2p64 [of "s_remaining s"] by (simp add: unat_of_nat_small)
  then obtain s1 where "willRead (word_of_nat (length b)) s = (s1, None)" "s_r s1 = s_r s"
    using willRead_room [OF assms(1), of "word_of_nat (length b)"] assms(2) by auto
  then show ?thesis using u assms(3) by (simp add: readFull_def)
qed

lemma readByte_room:
  assumes "s_limited s" and "room s 1" and "s_r s = b # rest"
  shows "\<exists>s'. readByte s = (s', Inr b)"
proof -
  obtain s1 where "willRead 1 s = (s1, None)" "s_r s1 = s_r s"
    using willRead_room [OF assms(1), of 1] assms(2) by auto
  then show ?thesis using assms(3) by (simp add: readByte_def)
qed

lemma readUint_room:
  assumes "s_limited s" and "room s (length e)" and "s_r s = e @ rest" and "1 < length e \<longrightarrow> hd e \<noteq> 0"
    and "length e \<le> 8"
  shows "\<exists>s'. readUint (length e) s = (s', Inr (word_of_nat (be_nat e)))"
proof -
  consider "e = []" | b where "e = [b]" | "1 < length e" by (cases e; cases "tl e") auto
  then show ?thesis
  proof cases
    case 2
    then obtain s' where "readByte s = (s', Inr b)"
      using readByte_room [OF assms(1), of b rest] assms(2,3) by auto
    moreover have "(ucast b :: u64) = word_of_nat (unat b)" by (simp add: word_unat_eq_iff unat_ucast_byte)
    ultimately show ?thesis using 2 by (simp add: readUint_def)
  next
    case 3
    then show ?thesis
      using readFull_room [OF assms(1-3)] assms(4) by (auto simp: readUint_def)
  qed (simp add: readUint_def)
qed


lemma readKind_byte: "readByte s = (s1, Inr b) \<Longrightarrow> b < 0x80 \<Longrightarrow>
    stream_readKind s = (s1\<lparr>s_byteval := b\<rparr>, KByte, 0, None)"
  by (simp add: stream_readKind_def)

lemma readKind_short:
  assumes "readByte s = (s1, Inr b)" and "sz < 56" and "k = KString \<and> t = 0x80 \<or> k = KList \<and> t = 0xC0"
    and "b = t + ucast sz"
  shows "stream_readKind s = (s1\<lparr>s_byteval := 0\<rparr>, k, sz, None)"
proof -
  have "unat (ucast sz :: byte) = unat sz"
    using assms(2) by (simp add: unsigned_ucast_eq take_bit_nat_eq_self word_less_nat_alt)
  then have z: "(ucast (ucast sz :: byte) :: u64) = sz"
    and w: "(ucast sz :: byte) = word_of_nat (unat sz)"
    by (simp_all add: word_unat_eq_iff unat_ucast_byte unat_of_nat_byte [OF order.strict_trans2 [OF unat_byte_less]])
  have "unat t + unat sz < 256" using assms(2,3) by (auto simp: word_less_nat_alt)
  then have u: "unat b = unat t + unat sz" unfolding assms(4) w by (rule unat_byte_add)
  have bt: "b - t = ucast sz" using assms(4) by simp
  from assms(3) show ?thesis
  proof
    assume "k = KString \<and> t = 0x80"
    then have "\<not> b < 0x80 \<and> b < 0xB8" using u assms(2) by (simp add: word_less_nat_alt)
    then show ?thesis using assms(1) bt z \<open>k = KString \<and> t = 0x80\<close> by (simp add: stream_readKind_def Let_def)
  next
    assume "k = KList \<and> t = 0xC0"
    then have "\<not> b < 0x80 \<and> \<not> b < 0xB8 \<and> \<not> b < 0xC0 \<and> b < 0xF8"
      using u assms(2) by (simp add: word_less_nat_alt)
    then show ?thesis using assms(1) bt z \<open>k = KList \<and> t = 0xC0\<close> by (simp add: stream_readKind_def Let_def)
  qed
qed

lemma readKind_long:
  assumes "readByte s = (s1, Inr b)" and "k = KString \<and> t = 0xB7 \<or> k = KList \<and> t = 0xF7"
    and "b = t + word_of_nat (length e)" and "0 < length e" "length e \<le> 8"
    and "readUint (length e) (s1\<lparr>s_byteval := 0\<rparr>) = (s2, Inr sz)" and "\<not> sz < 56"
  shows "stream_readKind s = (s2, k, sz, None)"
proof -
  have u: "unat b = unat t + length e"
    using assms(2-5) unat_byte_add [of t "length e"] by auto
  then have bt: "unat (b - t) = length e"
    using byte_tag [of t b] by (simp add: word_le_nat_alt)
  show ?thesis
    using assms(1,2,4-7) u bt by (auto simp: stream_readKind_def long_size_def Let_def word_less_nat_alt)
qed


lemma header_long:
  assumes "\<not> sz < 56"
  obtains e where "\<And>small large. puthead small large sz = (large + word_of_nat (length e)) # e"
    "0 < length e" "length e \<le> 8" "1 < length e \<longrightarrow> hd e \<noteq> 0" "word_of_nat (be_nat e) = sz"
proof
  let ?e = "be_bytes (be_len (unat sz)) (unat sz)"
  show "puthead small large sz = (large + word_of_nat (length ?e)) # ?e" for small large
    using puthead_eq [of "unat sz" small large] assms u64_less_2p64 [of sz] by (simp add: word_less_nat_alt)
  show "0 < length ?e" "length ?e \<le> 8"
    using be_len_pos be_len_le8 [OF u64_less_2p64] by simp_all
  show "1 < length ?e \<longrightarrow> hd ?e \<noteq> 0"
    using assms hd_be_len [of "unat sz"] by (simp add: word_less_nat_alt)
  show "word_of_nat (be_nat ?e) = sz"
    by (simp add: be_nat_be_bytes [OF be_len_upper])
qed

lemma readKind_room:
  assumes "s_limited s" and "header_of k sz b hdr" and "s_r s = hdr @ rest" and "room s (length hdr)"
  shows "\<exists>s'. stream_readKind s = (s', k, sz, None) \<and> (k = KByte \<longrightarrow> s_byteval s' = b)"
proof -
  have "hdr \<noteq> []" using assms(2) by (auto simp: header_of_def split: rlp_kind.splits)
  then obtain h e where hdr: "hdr = h # e" by (cases hdr) auto
  then obtain s1 where r: "readByte s = (s1, Inr h)"
    using readByte_room [OF assms(1), of h "e @ rest"] assms(3,4) by (auto intro: room_mono)
  note c = readByte_ok(1) [OF assms(1) r]
  show ?thesis
  proof (cases "k = KByte \<or> sz < 56")
    case True
    show ?thesis
    proof (cases k)
      case KByte
      then show ?thesis using readKind_byte [OF r] assms(2) hdr by (simp add: header_of_def)
    next
      case KString
      then show ?thesis
        using True readKind_short [OF r, of sz k "0x80"] assms(2) hdr by (simp add: header_of_def puthead_short)
    next
      case KList
      then show ?thesis
        using True readKind_short [OF r, of sz k "0xC0"] assms(2) hdr by (simp add: header_of_def puthead_short)
    qed
  next
    case False
    obtain f where f: "\<And>small large. puthead small large sz = (large + word_of_nat (length f)) # f"
      "0 < length f" "length f \<le> 8" "1 < length f \<longrightarrow> hd f \<noteq> 0" "word_of_nat (be_nat f) = sz"
      using header_long [of sz] False by blast
    let ?t = "if k = KString then 0xB7 else 0xF7 :: byte"
    have e: "h = ?t + word_of_nat (length f)" "e = f" and k: "k = KString \<and> ?t = 0xB7 \<or> k = KList \<and> ?t = 0xF7"
      using assms(2) False f(1) hdr by (cases k; simp add: header_of_def)+
    have "room (s1\<lparr>s_byteval := 0\<rparr>) (length f)"
      using room_consumes [OF _ c, of "length f"] assms(4) hdr e by simp
    moreover have "s_r (s1\<lparr>s_byteval := 0\<rparr>) = f @ rest" "s_limited (s1\<lparr>s_byteval := 0\<rparr>)"
      using c assms(3) hdr e by (simp_all add: consumes_def)
    ultimately obtain s2 where "readUint (length f) (s1\<lparr>s_byteval := 0\<rparr>) = (s2, Inr sz)"
      using readUint_room [of "s1\<lparr>s_byteval := 0\<rparr>" f rest] f(3-5) by auto
    then show ?thesis
      using readKind_long [OF r k e(1) f(2,3)] False by auto
  qed
qed

lemma Kind_room:
  assumes "ready s" and "header_of k sz b hdr" and "s_r s = hdr @ rest" and "room s (length hdr + unat sz)"
  shows "\<exists>s'. stream_Kind s = (s', Inr (k, sz)) \<and> (k = KByte \<longrightarrow> s_byteval s' = b) \<and> consumes s hdr s'"
proof -
  have lim: "s_limited s" using assms(1) by (simp add: ready_def)
  obtain s1 where r: "stream_readKind s = (s1, k, sz, None)" "k = KByte \<longrightarrow> s_byteval s1 = b"
    using readKind_room [OF lim assms(2,3)] room_mono [OF assms(4)] by auto
  obtain hdr' where c': "consumes s hdr' s1" "header_of k sz (s_byteval s1) hdr'"
    using readKind_ok [OF lim r(1)] by blast
  then have "hdr' = hdr" using assms(2) r(2) by (cases k) (auto simp: header_of_def)
  then have c: "consumes s hdr s1" using c' by simp
  have "hdr \<noteq> []" using assms(2) by (auto simp: header_of_def split: rlp_kind.splits)
  then have "stream_Kind s = (s1\<lparr>s_kind := Some k, s_size := sz, s_kinderr := None\<rparr>, Inr (k, sz))"
    using assms(1,4) r(1) room_consumes [OF assms(4) c]
    by (cases "s_stack s")
       (auto simp: stream_Kind_def ready_def listLimit_def kind_result_def room_def word_less_nat_alt Let_def)
  then show ?thesis using r(2) c by simp
qed


definition accepts :: "'a reader \<Rightarrow> bytes \<Rightarrow> 'a \<Rightarrow> bool" where
  "accepts dec e v \<longleftrightarrow>
     (\<forall>s rest. ready s \<longrightarrow> s_r s = e @ rest \<longrightarrow> room s (length e) \<longrightarrow> (\<exists>s'. dec s = (s', Inr v)))"

lemma acceptsI:
  "(\<And>s rest. ready s \<Longrightarrow> s_r s = e @ rest \<Longrightarrow> room s (length e) \<Longrightarrow> \<exists>s'. dec s = (s', Inr v)) \<Longrightarrow> accepts dec e v"
  by (simp add: accepts_def)

lemma acceptsD:
  "accepts dec e v \<Longrightarrow> ready s \<Longrightarrow> s_r s = e @ rest \<Longrightarrow> room s (length e) \<Longrightarrow> \<exists>s'. dec s = (s', Inr v)"
  by (simp add: accepts_def)

lemma room_less: "room s n \<Longrightarrow> n < 2 ^ 64"
  using u64_less_2p64 [of "s_remaining s"] by (auto simp: room_def)

text \<open>Reading the header, and then the body, of a string on the stream.\<close>

lemma Str_room:
  assumes "ready s" and "s_r s = rlp_enc (Str b) @ rest" and "room s (length (rlp_enc (Str b)))"
  obtains (byte) x s1 where "b = [x]" "x < 0x80" "stream_Kind s = (s1, Inr (KByte, 0))" "s_byteval s1 = x"
  | (str) s1 where "\<not> (length b = 1 \<and> hd b \<le> 0x7F)"
      "stream_Kind s = (s1, Inr (KString, word_of_nat (length b)))" "s_limited s1" "s_r s1 = b @ rest"
      "room s1 (length b)" "unat (word_of_nat (length b) :: u64) = length b"
      "\<not> ((word_of_nat (length b) :: u64) = 1 \<and> b ! 0 < 128)"
proof (cases "length b = 1 \<and> hd b \<le> 0x7F")
  case True
  then obtain x where x: "b = [x]" "x < 0x80" by (cases b) (auto simp: word_less_nat_alt word_le_nat_alt)
  then have "header_of KByte 0 x [x]" "rlp_enc (Str b) = [x]"
    using True by (auto simp: header_of_def)
  then show thesis
    using Kind_room [OF assms(1), of KByte 0 x "[x]" rest] assms(2,3) x by (auto intro: byte simp del: rlp_enc.simps)
next
  case False
  then have e: "rlp_enc (Str b) = puthead 0x80 0xB7 (word_of_nat (length b)) @ b" by auto
  have u: "unat (word_of_nat (length b) :: u64) = length b"
    using room_less [OF assms(3)] unfolding e by (simp add: unat_of_nat_small)
  have h: "header_of KString (word_of_nat (length b)) 0 (puthead 0x80 0xB7 (word_of_nat (length b)))"
    by (simp add: header_of_def)
  obtain s1 where s1: "stream_Kind s = (s1, Inr (KString, word_of_nat (length b)))"
    "consumes s (puthead 0x80 0xB7 (word_of_nat (length b))) s1"
    using Kind_room [OF assms(1) h, of "b @ rest"] assms(2,3) u unfolding e by auto
  have "\<not> ((word_of_nat (length b) :: u64) = 1 \<and> b ! 0 < 128)"
  proof
    assume one: "(word_of_nat (length b) :: u64) = 1 \<and> b ! 0 < 128"
    then have "length b = 1" using u by simp
    then show False using False one by (cases b) (auto simp: word_less_nat_alt word_le_nat_alt)
  qed
  then show thesis
    using str [OF False s1(1)] s1(2) assms(2) room_consumes [OF _ s1(2), of "length b"] assms(3) u unfolding e
    by (auto simp: consumes_def)
qed

lemma stream_Bytes_accepts: "accepts stream_Bytes (rlp_enc (Str b)) b"
proof (rule acceptsI)
  fix s rest
  assume a: "ready s" "s_r s = rlp_enc (Str b) @ rest" "room s (length (rlp_enc (Str b)))"
  then show "\<exists>s'. stream_Bytes s = (s', Inr b)"
  proof (cases rule: Str_room)
    case (str s1)
    then show ?thesis
      using readFull_room [OF str(3,5,4)] by (auto simp: stream_Bytes_def)
  qed (simp add: stream_Bytes_def)
qed

lemma decodeByteArray_accepts: "length b = n \<Longrightarrow> accepts (decodeByteArray n) (rlp_enc (Str b)) b"
proof (rule acceptsI)
  fix s rest
  assume n: "length b = n" and a: "ready s" "s_r s = rlp_enc (Str b) @ rest" "room s (length (rlp_enc (Str b)))"
  from a show "\<exists>s'. decodeByteArray n s = (s', Inr b)"
  proof (cases rule: Str_room)
    case (str s1)
    then show ?thesis
      using readFull_room [OF str(3,5,4)] n by (auto simp: decodeByteArray_def)
  qed (use n in \<open>simp add: decodeByteArray_def\<close>)
qed

lemma hd_big_bytes: "big_bytes n \<noteq> [] \<Longrightarrow> hd (big_bytes n) \<noteq> 0"
  using hd_be_len [of n] by (auto simp: big_bytes_def split: if_splits)

lemma decodeBigInt_accepts: "0 \<le> i \<Longrightarrow> accepts stream_decodeBigInt (rlp_enc (rlp_big (Some i))) i"
proof (rule acceptsI)
  fix s rest
  let ?b = "big_bytes (nat i)"
  assume i: "0 \<le> i" and a: "ready s" "s_r s = rlp_enc (rlp_big (Some i)) @ rest" "room s (length (rlp_enc (rlp_big (Some i))))"
  have nz: "\<not> (0 < length ?b \<and> ?b ! 0 = 0)" using hd_big_bytes [of "nat i"] by (auto simp: hd_conv_nth)
  have v: "int (be_nat ?b) = i" using i by (simp add: be_nat_big_bytes)
  have a': "s_r s = rlp_enc (Str ?b) @ rest" "room s (length (rlp_enc (Str ?b)))"
    using a(2,3) by (simp_all add: rlp_big_def)
  from a(1) a' show "\<exists>s'. stream_decodeBigInt s = (s', Inr i)"
  proof (cases rule: Str_room)
    case (byte x s1)
    then show ?thesis using nz v by (simp add: stream_decodeBigInt_def)
  next
    case (str s1)
    show ?thesis
    proof (cases "?b = []")
      case True
      then show ?thesis using str v by (simp add: stream_decodeBigInt_def)
    next
      case False
      then have "(word_of_nat (length ?b) :: u64) \<noteq> 0" using str(6) by (metis length_0_conv unat_0)
      then show ?thesis
        using readFull_room [OF str(3,5,4)] str nz v by (auto simp: stream_decodeBigInt_def)
    qed
  qed
qed


lemma stream_uint_accepts: "accepts (stream_uint 64) (rlp_enc (rlp_uint i)) i"
proof (rule acceptsI)
  fix s rest
  let ?b = "uint_bytes i"
  assume a: "ready s" "s_r s = rlp_enc (rlp_uint i) @ rest" "room s (length (rlp_enc (rlp_uint i)))"
  have nz: "?b \<noteq> [] \<Longrightarrow> hd ?b \<noteq> 0" using hd_big_bytes [of "unat i"] by (simp add: uint_bytes_big)
  have v: "word_of_nat (be_nat ?b) = i" by (simp add: be_nat_uint_bytes)
  from a show "\<exists>s'. stream_uint 64 s = (s', Inr i)"
    unfolding rlp_uint_def
  proof (cases rule: Str_room)
    case (byte x s1)
    then have "x \<noteq> 0" "i = ucast x" using nz v by (auto simp: word_unat_eq_iff unat_ucast_byte)
    then show ?thesis using byte by (simp add: stream_uint_def)
  next
    case (str s1)
    have len: "length ?b \<le> 8" by (rule length_uint_bytes)
    have "1 < length ?b \<longrightarrow> hd ?b \<noteq> 0" using nz by (cases ?b) auto
    then obtain s2 where r: "readUint (length ?b) s1 = (s2, Inr i)"
      using readUint_room [OF str(3,5,4) _ len] v by auto
    have "\<not> (0 < (word_of_nat (length ?b) :: u64) \<and> i < 128)"
    proof
      assume "0 < (word_of_nat (length ?b) :: u64) \<and> i < 128"
      then have "?b \<noteq> []" "i < 128" by auto
      then have "length ?b = 1 \<and> hd ?b \<le> 0x7F"
        using putint_small [of i] by (auto simp: uint_bytes_def simp del: length_putint)
      then show False using str(1) by blast
    qed
    then show ?thesis using str(2,6) r len by (simp add: stream_uint_def)
  qed
qed

lemma List_room:
  assumes "ready s" and "s_r s = puthead 0xC0 0xF7 (word_of_nat (length c)) @ c @ rest"
    and "room s (length (puthead 0xC0 0xF7 (word_of_nat (length c)) @ c))"
  obtains s1 where "stream_List s = (s1, Inr (word_of_nat (length c)))" "ready s1" "s_r s1 = c @ rest"
    "room s1 (length c)" "s_stack s1 \<noteq> []" "hd (s_stack s1) = word_of_nat (length c)"
proof -
  let ?h = "puthead 0xC0 0xF7 (word_of_nat (length c))"
  have u: "unat (word_of_nat (length c) :: u64) = length c"
    using room_less [OF assms(3)] by (simp add: unat_of_nat_small)
  have h: "header_of KList (word_of_nat (length c)) 0 ?h" by (simp add: header_of_def)
  obtain s1 where s1: "stream_Kind s = (s1, Inr (KList, word_of_nat (length c)))" "consumes s ?h s1"
    using Kind_room [OF assms(1) h assms(2)] assms(3) u by auto
  have "room s1 (length c)" using room_consumes [OF _ s1(2)] assms(3) by simp
  then show thesis
    using s1 assms(2) u
    by (intro that [of "fst (stream_List s)"])
       (auto simp: stream_List_def listLimit_def ready_def consumes_def room_def Let_def split: list.splits)
qed

lemma end_list_room:
  assumes "consumes s1 c s2" and "s_stack s1 \<noteq> []" "hd (s_stack s1) = word_of_nat (length c)"
  shows "\<exists>s'. end_list v s2 = (s', Inr v)"
  using assms by (cases "s_stack s1") (auto simp: consumes_def end_list_def stream_ListEnd_def listLimit_def)

text \<open>One field after the other.\<close>

lemma bind_reader_Inr:
  "bind_reader m f s = (s', Inr v) \<longleftrightarrow> (\<exists>s1 x. m s = (s1, Inr x) \<and> f x s1 = (s', Inr v))"
  by (auto simp: bind_reader_def split: prod.splits sum.splits)

lemma field_step:
  assumes "accepts dec (enc v) v" and "only_canonical dec enc P" and "ready s" and "s_r s = enc v @ rest"
    and "room s (length (enc v) + n)"
  obtains s' where "field dec s = (s', Inr v)" "ready s'" "consumes s (enc v) s'" "s_r s' = rest" "room s' n"
proof -
  obtain s' where s': "dec s = (s', Inr v)"
    using acceptsD [OF assms(1,3,4)] room_mono [OF assms(5)] by auto
  note c = only_canonicalD [OF assms(2,3) s']
  show thesis
    using that [of s'] s' c room_consumes [OF assms(5), of s'] assms(4) by (auto simp: field_def consumes_def)
qed

section \<open>Lists of elements\<close>

definition stops :: "'a reader \<Rightarrow> bool" where
  "stops dec \<longleftrightarrow> (\<forall>s s'. ready s \<longrightarrow> dec s = (s', Inl EOL) \<longrightarrow> s' = s) \<and>
     (\<forall>s ls. ready s \<longrightarrow> s_stack s = 0 # ls \<longrightarrow> dec s = (s, Inl EOL))"

lemma readByte_not_EOL: "readByte s \<noteq> (s', Inl EOL)"
  by (auto simp: readByte_def willRead_def Let_def split: prod.splits option.splits list.splits if_splits)

lemma readFull_not_EOL: "readFull n s \<noteq> (s', Inl EOL)"
  by (auto simp: readFull_def willRead_def Let_def split: prod.splits option.splits list.splits if_splits)

lemma readUint_not_EOL: "readUint n s \<noteq> (s', Inl EOL)"
  using readByte_not_EOL [of s s'] readFull_not_EOL [of _ s s']
  by (auto simp: readUint_def split: prod.splits sum.splits if_splits)

lemma readKind_not_EOL: "stream_readKind s \<noteq> (s', k, sz, Some EOL)"
  using readByte_not_EOL readUint_not_EOL
  by (auto simp: stream_readKind_def long_size_def Let_def split: prod.splits sum.splits if_splits)

lemma Kind_EOL: "ready s \<Longrightarrow> stream_Kind s = (s', Inl EOL) \<Longrightarrow> s' = s"
  using readKind_not_EOL [of s]
  by (auto simp: stream_Kind_def ready_def kind_result_def Let_def split: prod.splits if_splits option.splits)

lemma decodeByteArray_stops: "stops (decodeByteArray n)"
  unfolding stops_def
proof (intro conjI allI impI)
  fix s s'
  assume "ready s" and "decodeByteArray n s = (s', Inl EOL)"
  moreover from this have "stream_Kind s = (s', Inl EOL)"
    using readFull_not_EOL
    by (auto simp: decodeByteArray_def split: prod.splits sum.splits rlp_kind.splits if_splits)
  ultimately show "s' = s" by (auto dest: Kind_EOL)
next
  fix s ls
  assume "ready s" and "s_stack s = 0 # ls"
  then show "decodeByteArray n s = (s, Inl EOL)"
    by (simp add: decodeByteArray_def stream_Kind_def ready_def listLimit_def)
qed

lemma decodeSliceElems_ok:
  assumes "only_canonical dec enc P" and "stops dec"
  shows "ready s \<Longrightarrow> decodeSliceElems fuel dec s = (s', Inr vs) \<Longrightarrow>
    ready s' \<and> consumes s (concat (map enc vs)) s' \<and> (\<forall>v\<in>set vs. P v)"
proof (induction fuel arbitrary: s vs)
  case (Suc fuel)
  show ?case
  proof (cases vs)
    case Nil
    then have "dec s = (s', Inl EOL)"
      using Suc.prems(2) by (auto split: prod.splits sum.splits stream_error.splits)
    then have "s' = s" using assms(2) Suc.prems(1) unfolding stops_def by blast
    then show ?thesis using Suc.prems(1) Nil by (auto simp: ready_def intro: consumes_refl)
  next
    case (Cons w ws)
    then obtain s1 where d: "dec s = (s1, Inr w)" and rest: "decodeSliceElems fuel dec s1 = (s', Inr ws)"
      using Suc.prems(2) by (auto split: prod.splits sum.splits stream_error.splits)
    note w = only_canonicalD [OF assms(1) Suc.prems(1) d]
    show ?thesis
      using Suc.IH [OF _ rest] w Cons consumes_trans by fastforce
  qed
qed simp


lemma decodeSliceElems_accepts:
  assumes dec: "only_canonical dec enc P" "stops dec" and "\<And>v. v \<in> set vs \<Longrightarrow> accepts dec (enc v) v"
    and "ready s" "s_r s = concat (map enc vs) @ rest" "room s (length (concat (map enc vs)))"
    and "s_stack s \<noteq> []" "hd (s_stack s) = word_of_nat (length (concat (map enc vs)))" "length vs < fuel"
  shows "\<exists>s'. decodeSliceElems fuel dec s = (s', Inr vs)"
  using assms(3-)
proof (induction vs arbitrary: s fuel)
  case Nil
  then have "dec s = (s, Inl EOL)"
    using dec(2) by (cases "s_stack s") (auto simp: stops_def)
  then show ?case using Nil by (cases fuel) auto
next
  case (Cons v vs)
  obtain s1 where d: "dec s = (s1, Inr v)"
    using acceptsD [of dec "enc v" v s "concat (map enc vs) @ rest"] Cons.prems room_mono [OF Cons.prems(4)] by auto
  have s1: "ready s1" "consumes s (enc v) s1" using only_canonicalD [OF dec(1) Cons.prems(2) d] by auto
  obtain f where f: "fuel = Suc f" using Cons.prems(7) by (cases fuel) auto
  obtain s2 where "decodeSliceElems f dec s1 = (s2, Inr vs)"
  proof (rule exE [OF Cons.IH [of s1 f]])
    show "room s1 (length (concat (map enc vs)))" using room_consumes [OF _ s1(2)] Cons.prems(4) by simp
    show "hd (s_stack s1) = word_of_nat (length (concat (map enc vs)))"
      using s1(2) Cons.prems(5,6) by (cases "s_stack s") (auto simp: consumes_def)
  qed (use s1 Cons.prems f in \<open>auto simp: consumes_def\<close>)
  then show ?case using d f by auto
qed

lemma List_ready:
  assumes "ready s" and "stream_List s = (s1, Inr sz)"
  shows "ready s1"
proof -
  obtain s0 where k: "stream_Kind s = (s0, Inr (KList, sz))" and s1: "s_kind s1 = None" "s_limited s1 = s_limited s0"
    using assms(2) by (auto simp: stream_List_def listLimit_def Let_def split: prod.splits sum.splits if_splits)
  from assms(1) obtain hdr where "s_limited s0"
    by (auto simp: ready_def intro: Kind_ok [OF _ _ k])
  then show ?thesis using s1 by (simp add: ready_def)
qed

lemma end_list_Inr: "end_list v s = (s', Inr w) \<Longrightarrow> w = v"
  by (auto simp: end_list_def split: prod.splits sum.splits)

definition list_enc :: "('a \<Rightarrow> bytes) \<Rightarrow> 'a list \<Rightarrow> bytes" where
  "list_enc enc vs = puthead 0xC0 0xF7 (word_of_nat (length (concat (map enc vs)))) @ concat (map enc vs)"

lemma decodeListSlice_canonical:
  assumes "only_canonical dec enc P" and "stops dec"
  shows "only_canonical (decodeListSlice dec) (list_enc enc) (\<lambda>vs. \<forall>v\<in>set vs. P v)"
  unfolding only_canonical_def
proof (intro allI impI)
  fix s s' vs
  assume "ready s" and ok: "decodeListSlice dec s = (s', Inr vs)"
  then obtain s1 sz where l: "stream_List s = (s1, Inr sz)"
    by (auto simp: decodeListSlice_def split: prod.splits sum.splits)
  have s1: "ready s1"
    using \<open>ready s\<close> l by (rule List_ready)
  have "\<exists>s2. consumes s1 (concat (map enc vs)) s2 \<and> (\<forall>v\<in>set vs. P v) \<and> end_list vs s2 = (s', Inr vs)"
  proof (cases "sz = 0")
    case True
    then have e: "end_list [] s1 = (s', Inr vs)" using ok l by (simp add: decodeListSlice_def)
    then have "vs = []" by (rule end_list_Inr)
    then show ?thesis using e s1 consumes_refl [of s1] by (auto simp: ready_def)
  next
    case False
    then obtain s2 ws where "decodeSliceElems (Suc (length (s_r s1))) dec s1 = (s2, Inr ws)" "end_list ws s2 = (s', Inr vs)"
      using ok l by (auto simp: decodeListSlice_def simp del: decodeSliceElems.simps split: prod.splits sum.splits)
    then show ?thesis
      using decodeSliceElems_ok [OF assms s1, of _ s2 ws] end_list_Inr [of ws s2 s' vs] by blast
  qed
  then obtain s2 where "consumes s1 (concat (map enc vs)) s2" "\<forall>v\<in>set vs. P v" "end_list vs s2 = (s', Inr vs)"
    by blast
  with list_consumed [OF \<open>ready s\<close> l this(1,3)]
  show "ready s' \<and> consumes s (list_enc enc vs) s' \<and> (\<forall>v\<in>set vs. P v)"
    unfolding list_enc_def by simp
qed

lemma length_concat_enc: "(\<And>v. v \<in> set vs \<Longrightarrow> enc v \<noteq> []) \<Longrightarrow> length vs \<le> length (concat (map enc vs))"
proof (induction vs)
  case (Cons v vs)
  then have "0 < length (enc v)" "length vs \<le> length (concat (map enc vs))" by simp_all
  then have "Suc (length vs) \<le> length (enc v) + length (concat (map enc vs))" by linarith
  then show ?case by simp
qed simp

lemma decodeListSlice_accepts:
  assumes dec: "only_canonical dec enc P" "stops dec"
    and vs: "\<And>v. v \<in> set vs \<Longrightarrow> accepts dec (enc v) v" "\<And>v. v \<in> set vs \<Longrightarrow> enc v \<noteq> []"
  shows "accepts (decodeListSlice dec) (list_enc enc vs) vs"
proof (rule acceptsI)
  fix s rest
  let ?c = "concat (map enc vs)"
  assume "ready s" "s_r s = list_enc enc vs @ rest" "room s (length (list_enc enc vs))"
  then obtain s1 where l: "stream_List s = (s1, Inr (word_of_nat (length ?c)))"
    and s1: "ready s1" "s_r s1 = ?c @ rest" "room s1 (length ?c)" "s_stack s1 \<noteq> []" "hd (s_stack s1) = word_of_nat (length ?c)"
    by (auto simp: list_enc_def elim: List_room)
  show "\<exists>s'. decodeListSlice dec s = (s', Inr vs)"
  proof (cases "(word_of_nat (length ?c) :: u64) = 0")
    case True
    have "unat (word_of_nat (length ?c) :: u64) = length ?c"
      using room_less [OF s1(3)] by (simp add: unat_of_nat_small)
    then have "length ?c = 0" using True by (metis unat_0)
    then have "vs = []" using length_concat_enc [of vs enc] vs(2) by simp
    then show ?thesis
      using l end_list_room [OF consumes_refl, of s1 "[]"] s1 by (auto simp: decodeListSlice_def ready_def)
  next
    case False
    have "length vs < Suc (length (s_r s1))" using length_concat_enc [of vs enc] vs(2) s1(2) by simp
    then obtain s2 where d: "decodeSliceElems (Suc (length (s_r s1))) dec s1 = (s2, Inr vs)"
      using decodeSliceElems_accepts [OF dec vs(1) s1] by blast
    then show ?thesis
      using False l end_list_room [OF _ s1(4,5), of s2 vs] decodeSliceElems_ok [OF dec s1(1) d]
      by (simp add: decodeListSlice_def del: decodeSliceElems.simps)
  qed
qed


section \<open>Checkpoint votes and certificates\<close>

lemma rlp_enc_Lst: "rlp_enc (Lst xs) = list_enc rlp_enc xs"
  by (simp add: list_enc_def Let_def)

lemma hash_field: "length b = 32 \<Longrightarrow> rlp_enc (Str b) = rlp_enc (rlp_hash (BytesToHash b))"
  by (simp add: rlp_hash_def hash_bytes_BytesToHash del: rlp_enc.simps)

lemma field_consumed:
  assumes "only_canonical dec enc P" and "ready s" and "field dec s = (s1, Inr v)"
  shows "ready s1" "consumes s (enc v) s1" "P v"
  using only_canonicalD [OF field_canonical [OF assms(1)] assms(2,3)] by auto

lemma hash32_canonical: "only_canonical (decodeByteArray 32) (\<lambda>b. rlp_enc (Str b)) (\<lambda>b. length b = 32)"
  by (rule decodeByteArray_canonical) simp

lemma sig64_canonical: "only_canonical (decodeByteArray 64) (\<lambda>b. rlp_enc (Str b)) (\<lambda>b. length b = 64)"
  by (rule decodeByteArray_canonical) simp

lemma decodeCheckpointVote_canonical:
  "only_canonical decodeCheckpointVote (\<lambda>v. rlp_enc (vote_fields_rlp v))
     (\<lambda>v. case vote_ChainID v of None \<Rightarrow> False | Some i \<Rightarrow> 0 \<le> i)"
  unfolding only_canonical_def
proof (intro allI impI)
  fix s s' v
  assume s: "ready s" and ok: "decodeCheckpointVote s = (s', Inr v)"
  obtain s0 s1 s2 s3 s4 sz i n h w where
    r: "stream_List s = (s0, Inr sz)" "field stream_decodeBigInt s0 = (s1, Inr i)"
      "field (stream_uint 64) s1 = (s2, Inr n)" "field (decodeByteArray 32) s2 = (s3, Inr h)"
      "field (decodeByteArray 32) s3 = (s4, Inr w)"
    and e: "end_list \<lparr>vote_ChainID = Some i, vote_Number = n, vote_Hash = BytesToHash h,
       vote_ValidatorSetHash = BytesToHash w\<rparr> s4 = (s', Inr v)"
    using ok unfolding decodeCheckpointVote_def by (auto simp: bind_reader_Inr)
  note a = List_ready [OF s r(1)]
  note i = field_consumed [OF decodeBigInt_canonical a r(2)]
  note n = field_consumed [OF stream_uint_canonical i(1) r(3)]
  note h = field_consumed [OF hash32_canonical n(1) r(4)]
  note w = field_consumed [OF hash32_canonical h(1) r(5)]
  note c = consumes_trans [OF i(2) consumes_trans [OF n(2) consumes_trans [OF h(2) w(2)]]]
  note l = list_consumed [OF s r(1) c e]
  show "ready s' \<and> consumes s (rlp_enc (vote_fields_rlp v)) s' \<and> (case vote_ChainID v of None \<Rightarrow> False | Some i \<Rightarrow> 0 \<le> i)"
    using l i(3) by (simp add: vote_fields_rlp_def rlp_enc_Lst list_enc_def hash_field [OF h(3)] hash_field [OF w(3)] del: rlp_enc.simps)
qed


lemma decodeCheckpointVote_accepts:
  assumes "vote_ChainID v = Some i" and "0 \<le> i"
  shows "accepts decodeCheckpointVote (rlp_enc (vote_fields_rlp v)) v"
proof (rule acceptsI)
  fix s rest
  let ?f = "\<lambda>h. rlp_enc (Str (hash_bytes h))"
  let ?c = "rlp_enc (rlp_big (Some i)) @ rlp_enc (rlp_uint (vote_Number v)) @ ?f (vote_Hash v) @ ?f (vote_ValidatorSetHash v)"
  have enc: "rlp_enc (vote_fields_rlp v) = puthead 0xC0 0xF7 (word_of_nat (length ?c)) @ ?c"
    by (simp add: vote_fields_rlp_def rlp_enc_Lst list_enc_def assms(1) rlp_hash_def del: rlp_enc.simps)
  assume s: "ready s" "s_r s = rlp_enc (vote_fields_rlp v) @ rest" "room s (length (rlp_enc (vote_fields_rlp v)))"
  obtain s0 where l: "stream_List s = (s0, Inr (word_of_nat (length ?c)))" "ready s0" "s_r s0 = ?c @ rest"
    "room s0 (length ?c)" "s_stack s0 \<noteq> []" "hd (s_stack s0) = word_of_nat (length ?c)"
    by (rule List_room [OF s(1), of ?c rest]) (use s(2,3) enc in \<open>simp_all del: rlp_enc.simps\<close>)
  have arr: "accepts (decodeByteArray 32) (?f h) (hash_bytes h)" for h
    by (rule decodeByteArray_accepts) simp
  obtain s1 where s1: "field stream_decodeBigInt s0 = (s1, Inr i)" "ready s1" "consumes s0 (rlp_enc (rlp_big (Some i))) s1"
    "s_r s1 = rlp_enc (rlp_uint (vote_Number v)) @ ?f (vote_Hash v) @ ?f (vote_ValidatorSetHash v) @ rest"
    "room s1 (length (rlp_enc (rlp_uint (vote_Number v)) @ ?f (vote_Hash v) @ ?f (vote_ValidatorSetHash v)))"
    by (rule field_step [OF decodeBigInt_accepts [OF assms(2)] decodeBigInt_canonical l(2)]) (use l(3,4) in \<open>simp_all del: rlp_enc.simps\<close>)
  obtain s2 where s2: "field (stream_uint 64) s1 = (s2, Inr (vote_Number v))" "ready s2"
    "consumes s1 (rlp_enc (rlp_uint (vote_Number v))) s2" "s_r s2 = ?f (vote_Hash v) @ ?f (vote_ValidatorSetHash v) @ rest"
    "room s2 (length (?f (vote_Hash v) @ ?f (vote_ValidatorSetHash v)))"
    by (rule field_step [OF stream_uint_accepts stream_uint_canonical s1(2)]) (use s1(4,5) in \<open>simp_all del: rlp_enc.simps\<close>)
  obtain s3 where s3: "field (decodeByteArray 32) s2 = (s3, Inr (hash_bytes (vote_Hash v)))" "ready s3"
    "consumes s2 (?f (vote_Hash v)) s3" "s_r s3 = ?f (vote_ValidatorSetHash v) @ rest" "room s3 (length (?f (vote_ValidatorSetHash v)))"
    by (rule field_step [OF arr hash32_canonical s2(2)]) (use s2(4,5) in \<open>simp_all del: rlp_enc.simps\<close>)
  obtain s4 where s4: "field (decodeByteArray 32) s3 = (s4, Inr (hash_bytes (vote_ValidatorSetHash v)))"
    "consumes s3 (?f (vote_ValidatorSetHash v)) s4"
    by (rule field_step [OF arr hash32_canonical s3(2), of _ rest 0]) (use s3(4,5) in \<open>simp_all del: rlp_enc.simps\<close>)
  note c = consumes_trans [OF s1(3) consumes_trans [OF s2(3) consumes_trans [OF s3(3) s4(2)]]]
  obtain s' where "end_list v s4 = (s', Inr v)"
    using end_list_room [OF c l(5,6)] by (rule exE)
  moreover have "\<lparr>vote_ChainID = Some i, vote_Number = vote_Number v, vote_Hash = vote_Hash v,
      vote_ValidatorSetHash = vote_ValidatorSetHash v\<rparr> = v"
    using assms(1) by simp
  ultimately show "\<exists>s'. decodeCheckpointVote s = (s', Inr v)"
    using l(1) s1(1) s2(1) s3(1) s4(1) by (auto simp: decodeCheckpointVote_def bind_reader_def)
qed


lemma decodeCheckpointQC_canonical:
  "only_canonical decodeCheckpointQC (\<lambda>qc. rlp_enc (qc_rlp qc)) qc_wf"
  unfolding only_canonical_def
proof (intro allI impI)
  fix s s' qc
  assume s: "ready s" and ok: "decodeCheckpointQC s = (s', Inr qc)"
  obtain s0 s1 s2 s3 sz v b sigs where
    r: "stream_List s = (s0, Inr sz)" "field decodeCheckpointVote s0 = (s1, Inr v)"
      "field (stream_uint 64) s1 = (s2, Inr b)" "field (decodeListSlice (decodeByteArray 64)) s2 = (s3, Inr sigs)"
    and e: "end_list \<lparr>qc_Vote = v, qc_Bitmap = b, qc_Signatures = sigs\<rparr> s3 = (s', Inr qc)"
    using ok unfolding decodeCheckpointQC_def by (auto simp: bind_reader_Inr)
  note a = List_ready [OF s r(1)]
  note v = field_consumed [OF decodeCheckpointVote_canonical a r(2)]
  note b = field_consumed [OF stream_uint_canonical v(1) r(3)]
  note g = field_consumed [OF decodeListSlice_canonical [OF sig64_canonical decodeByteArray_stops] b(1) r(4)]
  note c = consumes_trans [OF v(2) consumes_trans [OF b(2) g(2)]]
  show "ready s' \<and> consumes s (rlp_enc (qc_rlp qc)) s' \<and> qc_wf qc"
    using list_consumed [OF s r(1) c e] v(3) g(3)
    by (auto simp: qc_rlp_def qc_wf_def rlp_enc_Lst list_enc_def o_def simp del: rlp_enc.simps)
qed

lemma decodeCheckpointQC_accepts:
  assumes "qc_wf qc"
  shows "accepts decodeCheckpointQC (rlp_enc (qc_rlp qc)) qc"
proof (rule acceptsI)
  fix s rest
  let ?v = "rlp_enc (vote_fields_rlp (qc_Vote qc))" and ?b = "rlp_enc (rlp_uint (qc_Bitmap qc))"
    and ?g = "list_enc (\<lambda>b. rlp_enc (Str b)) (qc_Signatures qc)"
  let ?c = "?v @ ?b @ ?g"
  have enc: "rlp_enc (qc_rlp qc) = puthead 0xC0 0xF7 (word_of_nat (length ?c)) @ ?c"
    by (simp add: qc_rlp_def rlp_enc_Lst list_enc_def o_def del: rlp_enc.simps)
  obtain i where i: "vote_ChainID (qc_Vote qc) = Some i" "0 \<le> i"
    using assms by (auto simp: qc_wf_def split: option.splits)
  assume s: "ready s" "s_r s = rlp_enc (qc_rlp qc) @ rest" "room s (length (rlp_enc (qc_rlp qc)))"
  obtain s0 where l: "stream_List s = (s0, Inr (word_of_nat (length ?c)))" "ready s0" "s_r s0 = ?c @ rest"
    "room s0 (length ?c)" "s_stack s0 \<noteq> []" "hd (s_stack s0) = word_of_nat (length ?c)"
    by (rule List_room [OF s(1), of ?c rest]) (use s(2,3) enc in \<open>simp_all del: rlp_enc.simps\<close>)
  obtain s1 where s1: "field decodeCheckpointVote s0 = (s1, Inr (qc_Vote qc))" "ready s1" "consumes s0 ?v s1"
    "s_r s1 = ?b @ ?g @ rest" "room s1 (length (?b @ ?g))"
    by (rule field_step [OF decodeCheckpointVote_accepts [OF i] decodeCheckpointVote_canonical l(2)])
       (use l(3,4) in \<open>simp_all del: rlp_enc.simps\<close>)
  obtain s2 where s2: "field (stream_uint 64) s1 = (s2, Inr (qc_Bitmap qc))" "ready s2" "consumes s1 ?b s2"
    "s_r s2 = ?g @ rest" "room s2 (length ?g)"
    by (rule field_step [OF stream_uint_accepts stream_uint_canonical s1(2)]) (use s1(4,5) in \<open>simp_all del: rlp_enc.simps\<close>)
  have arr: "accepts (decodeListSlice (decodeByteArray 64)) ?g (qc_Signatures qc)"
    using assms by (intro decodeListSlice_accepts [OF sig64_canonical decodeByteArray_stops] decodeByteArray_accepts)
      (auto simp: qc_wf_def simp del: rlp_enc.simps)
  obtain s3 where s3: "field (decodeListSlice (decodeByteArray 64)) s2 = (s3, Inr (qc_Signatures qc))" "consumes s2 ?g s3"
    by (rule field_step [OF arr decodeListSlice_canonical [OF sig64_canonical decodeByteArray_stops] s2(2), of rest 0])
       (use s2(4,5) in \<open>simp_all del: rlp_enc.simps\<close>)
  note c = consumes_trans [OF s1(3) consumes_trans [OF s2(3) s3(2)]]
  obtain s' where "end_list qc s3 = (s', Inr qc)"
    using end_list_room [OF c l(5,6)] by (rule exE)
  moreover have eq: "\<lparr>qc_Vote = qc_Vote qc, qc_Bitmap = qc_Bitmap qc, qc_Signatures = qc_Signatures qc\<rparr> = qc"
    by simp
  ultimately have "end_list \<lparr>qc_Vote = qc_Vote qc, qc_Bitmap = qc_Bitmap qc, qc_Signatures = qc_Signatures qc\<rparr> s3 = (s', Inr qc)"
    unfolding eq by simp
  then show "\<exists>s'. decodeCheckpointQC s = (s', Inr qc)"
    using l(1) s1(1) s2(1) s3(1)
    unfolding decodeCheckpointQC_def bind_reader_def by (simp del: rlp_enc.simps)
qed

lemma DecodeBytes_iff:
  assumes "only_canonical dec enc P" and "length b < 2 ^ 64" and "\<And>v. P v \<Longrightarrow> accepts dec (enc v) v"
  shows "DecodeBytes dec b = Inr v \<longleftrightarrow> b = enc v \<and> P v"
proof -
  let ?s = "stream_Reset b (word_of_nat (length b))"
  have u: "unat (word_of_nat (length b) :: u64) = length b" using assms(2) by (simp add: unat_of_nat_small)
  have s: "ready ?s" "s_r ?s = b" "room ?s (length b)"
    using u by (simp_all add: stream_Reset_def ready_def room_def)
  show ?thesis
  proof
    assume "DecodeBytes dec b = Inr v"
    then obtain s' where "dec ?s = (s', Inr v)" "s_r s' = []"
      by (auto simp: DecodeBytes_def split: prod.splits sum.splits if_splits)
    then show "b = enc v \<and> P v"
      using only_canonicalD [OF assms(1) s(1)] s(2) by (auto simp: consumes_def)
  next
    assume b: "b = enc v \<and> P v"
    then obtain s' where d: "dec ?s = (s', Inr v)"
      using acceptsD [OF assms(3) s(1), of v "[]"] s(2,3) by auto
    then have "s_r s' = []"
      using only_canonicalD [OF assms(1) s(1) d] s(2) b by (auto simp: consumes_def)
    then show "DecodeBytes dec b = Inr v" using d by (simp add: DecodeBytes_def)
  qed
qed

lemma length_qc_rlp:
  assumes "chain_id_ok (vote_ChainID (qc_Vote qc))" and "qc_wf qc" and "length (qc_Signatures qc) \<le> 64"
  shows "length (rlp_enc (qc_rlp qc)) < 2 ^ 64"
proof -
  let ?v = "qc_Vote qc" and ?sigs = "map Str (qc_Signatures qc)"
  obtain i where i: "vote_ChainID ?v = Some i" "0 \<le> i" "i < 2 ^ 256"
    using assms(1) by (auto simp: chain_id_ok_def split: option.splits)
  have str: "length (rlp_enc (Str b)) \<le> 73" if "length b \<le> 64" for b
    using length_rlp_enc_Str_le [of b] that by simp
  have parts: "length (rlp_enc (rlp_big (Some i))) \<le> 73" "length (rlp_enc (rlp_uint n)) \<le> 73"
    "length (rlp_enc (rlp_hash h)) \<le> 73" for n h
    using i length_big_bytes [of "nat i"] length_uint_bytes [of n]
    unfolding rlp_big_def rlp_uint_def rlp_hash_def option.case by (intro str; simp add: nat_less_iff)+
  have "length (rlp_enc (vote_fields_rlp ?v)) \<le> 301"
    using length_rlp_enc_Lst_le [of "[rlp_big (Some i), rlp_uint (vote_Number ?v), rlp_hash (vote_Hash ?v),
        rlp_hash (vote_ValidatorSetHash ?v)]"] parts(1) parts(2) [of "vote_Number ?v"]
      parts(3) [of "vote_Hash ?v"] parts(3) [of "vote_ValidatorSetHash ?v"]
    by (simp add: vote_fields_rlp_def i(1) del: rlp_enc.simps)
  moreover have "length (concat (map rlp_enc ?sigs)) \<le> length ?sigs * 73"
    by (intro length_concat_map_le) (use assms(2) str in \<open>auto simp: qc_wf_def simp del: rlp_enc.simps\<close>)
  then have "length (concat (map rlp_enc ?sigs)) \<le> 4672" using assms(3) by simp
  then have "length (rlp_enc (Lst ?sigs)) \<le> 4681"
    using length_rlp_enc_Lst_le [of ?sigs] by simp
  ultimately have "length (concat (map rlp_enc [vote_fields_rlp ?v, rlp_uint (qc_Bitmap qc), Lst ?sigs])) \<le> 5055"
    using parts(2) [of "qc_Bitmap qc"] by (simp del: rlp_enc.simps)
  then show ?thesis
    using length_rlp_enc_Lst_le [of "[vote_fields_rlp ?v, rlp_uint (qc_Bitmap qc), Lst ?sigs]"]
    by (simp add: qc_rlp_def del: rlp_enc.simps)
qed

text \<open>
  C38. A checkpoint certificate has exactly one byte string. Whatever the stream decoder accepts, among
  all inputs shorter than \<open>2^64\<close> bytes, is the RLP encoding of the certificate it returns, so a
  certificate is not malleable; and it reads back the encoding of every certificate of a proper chain
  with at most 64 signatures of 64 bytes.
\<close>

theorem DecodeBytes_CheckpointQC:
  assumes "length b < 2 ^ 64"
  shows "(DecodeBytes decodeCheckpointQC b = Inr qc \<longrightarrow> b = EncodeToBytes (qc_rlp qc) \<and> qc_wf qc) \<and>
    (qc_wf qc \<and> chain_id_ok (vote_ChainID (qc_Vote qc)) \<and> length (qc_Signatures qc) \<le> 64 \<longrightarrow>
      DecodeBytes decodeCheckpointQC (EncodeToBytes (qc_rlp qc)) = Inr qc)"
proof (intro conjI impI)
  note iff = DecodeBytes_iff [OF decodeCheckpointQC_canonical _ decodeCheckpointQC_accepts]
  assume "DecodeBytes decodeCheckpointQC b = Inr qc"
  then have "b = rlp_enc (qc_rlp qc)" "qc_wf qc" using iff [OF assms] by auto
  then show "b = EncodeToBytes (qc_rlp qc)" "qc_wf qc" using EncodeToBytes_eq [of "qc_rlp qc"] assms by auto
next
  assume qc: "qc_wf qc \<and> chain_id_ok (vote_ChainID (qc_Vote qc)) \<and> length (qc_Signatures qc) \<le> 64"
  then have "length (rlp_enc (qc_rlp qc)) < 2 ^ 64" by (intro length_qc_rlp) auto
  then show "DecodeBytes decodeCheckpointQC (EncodeToBytes (qc_rlp qc)) = Inr qc"
    using qc EncodeToBytes_eq [of "qc_rlp qc"]
      DecodeBytes_iff [OF decodeCheckpointQC_canonical _ decodeCheckpointQC_accepts, of "rlp_enc (qc_rlp qc)" qc]
    by simp
qed

definition example_qc :: CheckpointQC where
  "example_qc = \<lparr>qc_Vote = example_vote 1, qc_Bitmap = 7, qc_Signatures = replicate 3 (replicate 64 1)\<rparr>"

theorem DecodeBytes_CheckpointQC_witness:
  "DecodeBytes decodeCheckpointQC (EncodeToBytes (qc_rlp example_qc)) = Inr example_qc"
  using DecodeBytes_CheckpointQC [of "[]" example_qc]
  by (simp add: example_qc_def qc_wf_def example_vote_def chain_id_ok_def)

end
