(* ===== verification/Snapshot.thy ===== *)
theory Snapshot
  imports Params Types "HOL-Library.AList"
begin

text \<open>
  consensus/dpos: the slot clock, the seal of a header, the layout of \<open>Extra\<close>, and the validator
  snapshot (snapshot.go) with its replay of headers. \<open>Recents\<close>, a Go map from slots to signers,
  is an association list with distinct keys; the code sorts the keys before it iterates, so no
  result depends on their order. The signature cache is left out: it maps a header hash to
  the signer that is recomputed here.
\<close>

datatype dpos_error =
    errUnknownBlock
  | errInvalidMixDigest
  | errInvalidUncleHash
  | errInvalidDifficulty
  | errInvalidCoinbase
  | errUnauthorizedValidator
  | errRecentlySigned
  | errWrongDifficulty
  | errMissingVanity
  | errMissingSignature
  | errInvalidSignature
  | errExtraValidators
  | errInvalidCheckpointValidators
  | errInvalidTimestamp
  | errInvalidChain
  | errInvalidSlot
  | errInvalidNonce
  | errMissingParentState
  | errInvalidCheckpointQC
  | errInvalidQCChainID
  | errInvalidQCNumber
  | errQCTooStale
  | errQCBitmapOverflow
  | errQCSignatureCountMismatch
  | errQCInsufficientSignatures
  | errQCInvalidSignature
  | errQCValidatorSetHashMismatch
  | errQCNotAncestor
  | ErrUnknownAncestor
  | ErrFutureBlock
  | errEpochValidatorCount
  | errEpochValidatorMismatch
  | errEmptyValidatorSet
  | errEmptyEpochSet
  | errMissingGenesis
  | errMissingDatabase
  | errMissingHeader
  | errNoActiveValidators
  | errNoSignerMetadata
  | errSignerNormalize
  | errSignerMismatch
  | errGasLimit
  | errGasUsed
  | errSealLength
  | errSignerNotConfigured
  | panicNilConfig
  | panicDivideByZero

section \<open>Slots\<close>

definition headerSlot :: "u64 \<Rightarrow> u64 \<Rightarrow> u64 \<Rightarrow> u64 option" where
  "headerSlot headerTime genesisTime periodMs =
     (if periodMs = 0 \<or> headerTime < genesisTime then None
      else Some ((headerTime - genesisTime) div periodMs))"

definition diffInTurn :: int where
  "diffInTurn = 2"

definition diffNoTurn :: int where
  "diffNoTurn = 1"

definition extraVanity :: nat where
  "extraVanity = 32"

definition extraSealEd25519 :: nat where
  "extraSealEd25519 = 96"

section \<open>Seals\<close>

definition sealLengthForSignerType :: "string \<Rightarrow> nat" where
  "sealLengthForSignerType signerType = extraSealEd25519"

definition sig_header_rlp :: "nat \<Rightarrow> Header \<Rightarrow> rlp" where
  "sig_header_rlp sealLen h =
     (let extraNoSeal = (if length (Extra h) \<ge> sealLen
                         then take (length (Extra h) - sealLen) (Extra h) else Extra h)
      in Lst [rlp_hash (ParentHash h), rlp_hash (UncleHash h), rlp_addr (Coinbase h),
          rlp_hash (Root h), rlp_hash (TxHash h), rlp_hash (ReceiptHash h), Str (Bloom h),
          rlp_big (Difficulty h), rlp_big (Number h), rlp_uint (GasLimit h), rlp_uint (GasUsed h),
          rlp_uint (Time h), Str extraNoSeal, rlp_hash (MixDigest h), Str (u64_bytes (Nonce h))])"

definition sealHashWithSealLength :: "keccak \<Rightarrow> Header \<Rightarrow> nat \<Rightarrow> hash" where
  "sealHashWithSealLength kh h sealLen = rlpHash kh (sig_header_rlp sealLen h)"

definition SealHash :: "keccak \<Rightarrow> Header \<Rightarrow> hash" where
  "SealHash kh h = sealHashWithSealLength kh h extraSealEd25519"

definition recoverHeaderSigner ::
  "keccak \<Rightarrow> verifier \<Rightarrow> DPoSConfig option \<Rightarrow> Header \<Rightarrow> dpos_error + address" where
  "recoverHeaderSigner kh verify config header =
     (let sealLen = (case config of
            Some c \<Rightarrow> if SealSignerType c \<noteq> '''' then sealLengthForSignerType (SealSignerType c)
                      else sealLengthForSignerType DPoSSealSignerTypeEd25519
          | None \<Rightarrow> sealLengthForSignerType DPoSSealSignerTypeEd25519)
      in if length (Extra header) < sealLen then Inl errMissingSignature
         else
           let sig = drop (length (Extra header) - sealLen) (Extra header);
               digest = hash_bytes (sealHashWithSealLength kh header sealLen);
               pub = take 32 sig;
               signature = drop 32 sig
           in if \<not> verify pub digest signature then Inl errInvalidSignature
              else Inr (kh pub))"

section \<open>Validator lists in Extra\<close>

definition addr_chunks :: "nat \<Rightarrow> bytes \<Rightarrow> address list" where
  "addr_chunks n payload = map (\<lambda>i. BytesToAddress (take 32 (drop (i * 32) payload))) [0..<n]"

fun strictly_ascending :: "address list \<Rightarrow> bool" where
  "strictly_ascending (a # b # as) =
     (if bytes_compare (addr_bytes a) (addr_bytes b) \<ge> 0 then False else strictly_ascending (b # as))"
| "strictly_ascending as = True"

definition parseEpochValidators ::
  "bytes \<Rightarrow> DPoSConfig option \<Rightarrow> bool \<Rightarrow> dpos_error + address list" where
  "parseEpochValidators extra cfg isCheckpointFinality =
     (let maxValidators = (case cfg of None \<Rightarrow> 0 | Some c \<Rightarrow> sint (MaxValidators c)) in
      if length extra < extraVanity + extraSealEd25519 then Inl errMissingSignature
      else
        let middle = take (length extra - extraSealEd25519 - extraVanity) (drop extraVanity extra);
            payload =
              (if isCheckpointFinality then
                 (if length middle = 0 then Inl errInvalidCheckpointValidators
                  else
                    let n = unat (middle ! 0); valEnd = 1 + n * 32 in
                    if valEnd > length middle then Inl errInvalidCheckpointValidators
                    else Inr (drop 1 (take valEnd middle)))
               else if length middle mod 32 \<noteq> 0 then Inl errInvalidCheckpointValidators
               else Inr middle)
        in (case payload of Inl e \<Rightarrow> Inl e
            | Inr payload \<Rightarrow>
                let n = length payload div 32 in
                if maxValidators > 0 \<and> int n > maxValidators then Inl errEpochValidatorCount
                else
                  let out = addr_chunks n payload in
                  if strictly_ascending out then Inr out else Inl errInvalidCheckpointValidators))"

definition parseGenesisValidators :: "bytes \<Rightarrow> dpos_error + address list" where
  "parseGenesisValidators extra =
     (if length extra < extraVanity then Inl errMissingVanity
      else
        let payload = drop extraVanity extra in
        if length payload mod 32 \<noteq> 0 then Inl errInvalidCheckpointValidators
        else
          let out = addr_chunks (length payload div 32) payload in
          if strictly_ascending out then Inr out else Inl errInvalidCheckpointValidators)"

section \<open>Snapshots\<close>

record Snapshot =
  snap_config :: "DPoSConfig option"
  snap_Number :: u64
  snap_Hash :: hash
  Validators :: "address list"
  ValidatorsMap :: "address set"
  Recents :: "(u64 \<times> address) list"
  GenesisTime :: u64
  snap_PeriodMs :: u64
  FinalizedNumber :: u64
  FinalizedHash :: hash

definition newSnapshot ::
  "DPoSConfig option \<Rightarrow> u64 \<Rightarrow> hash \<Rightarrow> address list \<Rightarrow> u64 \<Rightarrow> u64 \<Rightarrow> dpos_error + Snapshot" where
  "newSnapshot config number hash validators genesisTime periodMs =
     (if length validators = 0 then Inl errEmptyValidatorSet
      else Inr \<lparr>snap_config = config, snap_Number = number, snap_Hash = hash,
        Validators = validators, ValidatorsMap = set validators, Recents = [],
        GenesisTime = genesisTime, snap_PeriodMs = periodMs, FinalizedNumber = 0, FinalizedHash = 0\<rparr>)"

definition snap_turnLength :: "Snapshot \<Rightarrow> u64" where
  "snap_turnLength s =
     (case snap_config s of None \<Rightarrow> 1 | Some c \<Rightarrow> if TurnLength c > 0 then TurnLength c else 1)"

text \<open>The index \<open>-1\<close> is \<open>None\<close>.\<close>

definition proposerIndexForSlot :: "Snapshot \<Rightarrow> u64 \<Rightarrow> nat option" where
  "proposerIndexForSlot s slot =
     (if length (Validators s) = 0 \<or> slot = 0 then None
      else Some (unat (((slot - 1) div snap_turnLength s) mod word_of_nat (length (Validators s)))))"

definition inturnSlot :: "Snapshot \<Rightarrow> u64 \<Rightarrow> address \<Rightarrow> bool" where
  "inturnSlot s slot validator =
     (if length (Validators s) = 0 \<or> slot = 0 then False
      else case proposerIndexForSlot s slot of
        None \<Rightarrow> False
      | Some index \<Rightarrow> Validators s ! index = validator)"

definition recentSignerWindowSize :: "Snapshot \<Rightarrow> u64" where
  "recentSignerWindowSize s =
     (case snap_config s of None \<Rightarrow> 1 | Some c \<Rightarrow> RecentSignerWindowSize (Some c) (length (Validators s)))"

definition recentlySignedAt :: "Snapshot \<Rightarrow> u64 \<Rightarrow> address \<Rightarrow> bool" where
  "recentlySignedAt s slot validator =
     (if length (Validators s) \<le> 1 then False
      else case snap_config s of None \<Rightarrow> False
        | Some c \<Rightarrow>
            if TurnLength c = 0 then False
            else
              let window = recentSignerWindowSize s;
                  left = (if slot > window then slot - window else 0);
                  seen = length (filter (\<lambda>(seenSlot, signer). \<not> seenSlot \<le> left \<and> signer = validator)
                                  (Recents s))
              in word_of_nat seen \<ge> TurnLength c)"

definition prune_recents :: "u64 \<Rightarrow> Snapshot \<Rightarrow> Snapshot" where
  "prune_recents slot s =
     (let limit = recentSignerWindowSize s in
      if slot \<ge> limit
      then s\<lparr>Recents := filter (\<lambda>(seenSlot, signer). \<not> seenSlot \<le> slot - limit) (Recents s)\<rparr>
      else s)"

text \<open>One iteration of the loop of \<open>apply\<close>.\<close>

definition apply_header ::
  "keccak \<Rightarrow> verifier \<Rightarrow> Snapshot \<Rightarrow> Header \<Rightarrow> dpos_error + Snapshot" where
  "apply_header kh verify snap header =
     (let number = header_number header in
      case headerSlot (Time header) (GenesisTime snap) (snap_PeriodMs snap) of
        None \<Rightarrow> Inl errInvalidTimestamp
      | Some slot \<Rightarrow>
          let snap = prune_recents slot snap in
          (case recoverHeaderSigner kh verify (snap_config snap) header of
             Inl e \<Rightarrow> Inl e
           | Inr signer \<Rightarrow>
               if signer \<notin> ValidatorsMap snap then Inl errUnauthorizedValidator
               else if recentlySignedAt snap slot signer then Inl errRecentlySigned
               else
                 let snap = snap\<lparr>Recents := AList.update slot signer (Recents snap)\<rparr> in
                 (case snap_config snap of None \<Rightarrow> Inl panicNilConfig
                  | Some cfg \<Rightarrow>
                      if Epoch cfg = 0 then Inl panicDivideByZero
                      else if number mod Epoch cfg = 0 then
                        (case parseEpochValidators (Extra header) (Some cfg)
                                (IsCheckpointFinality (Some cfg) (Number header)) of
                           Inl e \<Rightarrow> Inl e
                         | Inr validators \<Rightarrow>
                             if length validators = 0 then Inl errEmptyEpochSet
                             else Inr (prune_recents slot
                                    (snap\<lparr>Validators := validators, ValidatorsMap := set validators\<rparr>)))
                      else Inr snap)))"

fun apply_headers ::
  "keccak \<Rightarrow> verifier \<Rightarrow> Snapshot \<Rightarrow> Header list \<Rightarrow> dpos_error + Snapshot" where
  "apply_headers kh verify snap [] = Inr snap"
| "apply_headers kh verify snap (h # hs) =
     (case apply_header kh verify snap h of Inl e \<Rightarrow> Inl e
      | Inr snap' \<Rightarrow> apply_headers kh verify snap' hs)"

fun contiguous :: "Header list \<Rightarrow> bool" where
  "contiguous (g # h # hs) = (if header_number h \<noteq> header_number g + 1 then False else contiguous (h # hs))"
| "contiguous hs = True"

definition snapshot_apply ::
  "keccak \<Rightarrow> verifier \<Rightarrow> Snapshot \<Rightarrow> Header list \<Rightarrow> dpos_error + Snapshot" where
  "snapshot_apply kh verify s headers =
     (if length headers = 0 then Inr s
      else if \<not> contiguous headers then Inl errInvalidChain
      else if header_number (hd headers) \<noteq> snap_Number s + 1 then Inl errInvalidChain
      else
        (case apply_headers kh verify s headers of Inl e \<Rightarrow> Inl e
         | Inr snap \<Rightarrow> Inr (snap\<lparr>snap_Number := snap_Number snap + word_of_nat (length headers),
                                snap_Hash := header_Hash kh (last headers)\<rparr>)))"

definition validatorList :: "Snapshot \<Rightarrow> address list" where
  "validatorList s = addr_sort (Validators s)"

definition calcDifficultySlot :: "Snapshot \<Rightarrow> u64 \<Rightarrow> address \<Rightarrow> int" where
  "calcDifficultySlot snap headerTime v =
     (case headerSlot headerTime (GenesisTime snap) (snap_PeriodMs snap) of
        None \<Rightarrow> diffNoTurn
      | Some slot \<Rightarrow> if inturnSlot snap slot v then diffInTurn else diffNoTurn)"


section \<open>The validator list in Extra\<close>

lemma strictly_ascending_iff: "strictly_ascending as \<longleftrightarrow> sorted_wrt (<) as"
  by (induction as rule: strictly_ascending.induct) (auto simp: sorted_wrt2_simps not_le)

definition concat_addrs :: "address list \<Rightarrow> bytes" where
  "concat_addrs as = concat (map addr_bytes as)"

lemma concat_addrs_simps [simp]:
  "concat_addrs [] = []"
  "concat_addrs (a # as) = addr_bytes a @ concat_addrs as"
  by (simp_all add: concat_addrs_def)

lemma length_concat_addrs [simp]: "length (concat_addrs as) = length as * 32"
  by (induction as) auto

lemma addr_chunks_Suc:
  "addr_chunks (Suc n) bs = BytesToAddress (take 32 bs) # addr_chunks n (drop 32 bs)"
  unfolding addr_chunks_def by (simp add: map_upt_Suc del: upt_Suc) (simp add: add.commute)

lemma addr_chunks_concat: "addr_chunks (length as) (concat_addrs as @ bs) = as"
proof (induction as)
  case Nil
  show ?case by (simp add: addr_chunks_def)
next
  case (Cons a as)
  then show ?case by (simp add: addr_chunks_Suc)
qed

lemma length_addr_chunks [simp]: "length (addr_chunks n bs) = n"
  by (simp add: addr_chunks_def)

lemma concat_addr_chunks: "length bs = n * 32 \<Longrightarrow> concat_addrs (addr_chunks n bs) = bs"
proof (induction n arbitrary: bs)
  case 0
  then show ?case by (simp add: addr_chunks_def)
next
  case (Suc n)
  then have "concat_addrs (addr_chunks n (drop 32 bs)) = drop 32 bs" by simp
  with Suc.prems show ?case
    by (simp add: addr_chunks_Suc addr_bytes_BytesToAddress)
qed

text \<open>The three parts of a sealed \<open>Extra\<close>.\<close>

lemma sealed_extra_parts:
  assumes "length vanity = extraVanity" and "length seal = extraSealEd25519"
  shows "take (length (vanity @ m @ seal) - extraSealEd25519 - extraVanity)
           (drop extraVanity (vanity @ m @ seal)) = m"
    and "\<not> length (vanity @ m @ seal) < extraVanity + extraSealEd25519"
  using assms by simp_all

lemma sealed_extra_split:
  assumes "extraVanity + extraSealEd25519 \<le> length extra"
    and "m = take (length extra - extraSealEd25519 - extraVanity) (drop extraVanity extra)"
  shows "\<exists>vanity seal. extra = vanity @ m @ seal \<and> length vanity = extraVanity \<and>
    length seal = extraSealEd25519"
proof (intro exI conjI)
  show "extra = take extraVanity extra @ m @ drop (length extra - extraSealEd25519) extra"
    using assms by (metis add.commute append_take_drop_id diff_diff_left drop_drop le_add_diff_inverse2
        le_add_diff_inverse add_le_imp_le_diff)
qed (use assms in simp_all)

definition list_fits :: "DPoSConfig option \<Rightarrow> nat \<Rightarrow> bool" where
  "list_fits cfg n = (case cfg of None \<Rightarrow> True
     | Some c \<Rightarrow> sint (MaxValidators c) > 0 \<longrightarrow> int n \<le> sint (MaxValidators c))"

definition epoch_middle :: "bool \<Rightarrow> address list \<Rightarrow> bytes \<Rightarrow> bytes" where
  "epoch_middle cf as qc =
     (if cf then [word_of_nat (length as)] @ concat_addrs as @ qc else concat_addrs as)"

lemma parse_epoch_middle:
  assumes v: "length vanity = extraVanity" "length seal = extraSealEd25519"
    and fits: "list_fits cfg (length as)" and sorted: "sorted_wrt (<) as"
    and cf: "cf \<Longrightarrow> length as < 256"
  shows "parseEpochValidators (vanity @ epoch_middle cf as qc @ seal) cfg cf = Inr as"
proof -
  have chunks: "addr_chunks (length as) (concat_addrs as) = as"
    using addr_chunks_concat [of as "[]"] by simp
  have max: "\<not> ((case cfg of None \<Rightarrow> 0 | Some c \<Rightarrow> sint (MaxValidators c)) > 0 \<and>
      int (length as) > (case cfg of None \<Rightarrow> 0 | Some c \<Rightarrow> sint (MaxValidators c)))"
    using fits by (auto simp: list_fits_def split: option.splits)
  have n: "cf \<Longrightarrow> unat (word_of_nat (length as) :: byte) = length as"
    using cf by (simp add: unat_of_nat_small)
  show ?thesis
    unfolding parseEpochValidators_def sealed_extra_parts(1) [OF v] Let_def
    using v max n chunks sorted
    by (cases cf) (simp_all add: epoch_middle_def strictly_ascending_iff)
qed

lemma parse_epoch_inverse:
  assumes "parseEpochValidators extra cfg cf = Inr as"
  shows "\<exists>vanity seal qc. extra = vanity @ epoch_middle cf as qc @ seal \<and>
    length vanity = extraVanity \<and> length seal = extraSealEd25519 \<and>
    list_fits cfg (length as) \<and> sorted_wrt (<) as \<and> (cf \<longrightarrow> length as < 256)"
proof -
  define m where "m = take (length extra - extraSealEd25519 - extraVanity) (drop extraVanity extra)"
  have len: "extraVanity + extraSealEd25519 \<le> length extra"
    using assms by (auto simp: parseEpochValidators_def Let_def split: if_splits)
  obtain vanity seal where extra: "extra = vanity @ m @ seal"
    and v: "length vanity = extraVanity" "length seal = extraSealEd25519"
    using sealed_extra_split [OF len m_def] by blast
  note parse = assms [unfolded extra parseEpochValidators_def sealed_extra_parts(1) [OF v] Let_def]
  show ?thesis
  proof (cases cf)
    case True
    from parse True have m0: "m \<noteq> []" and n: "1 + unat (m ! 0) * 32 \<le> length m"
      by (auto split: if_splits)
    then obtain b r where m: "m = b # r" and r: "unat b * 32 \<le> length r"
      by (cases m) auto
    have as: "as = addr_chunks (unat b) (take (unat b * 32) r)"
      and "sorted_wrt (<) as" and "list_fits cfg (length as)"
      using parse True r by (auto simp: m strictly_ascending_iff list_fits_def min_absorb2
          split: if_splits option.splits)
    moreover have "concat_addrs as = take (unat b * 32) r"
      unfolding as using r by (intro concat_addr_chunks) simp
    moreover have "length as = unat b" by (simp add: as)
    ultimately have "extra = vanity @ epoch_middle cf as (drop (unat b * 32) r) @ seal"
      by (simp add: extra m epoch_middle_def True)
    then show ?thesis
      using v \<open>sorted_wrt (<) as\<close> \<open>list_fits cfg (length as)\<close> \<open>length as = unat b\<close>
        unat_byte_less [of b] by metis
  next
    case False
    from parse False have len32: "length m mod 32 = 0"
      and as: "as = addr_chunks (length m div 32) m"
      and *: "sorted_wrt (<) as" "list_fits cfg (length as)"
      by (auto simp: strictly_ascending_iff list_fits_def split: if_splits option.splits)
    then have "concat_addrs as = m"
      unfolding as by (intro concat_addr_chunks) (simp add: dvd_div_mult_self mod_0_imp_dvd)
    with False have "extra = vanity @ epoch_middle cf as [] @ seal"
      by (simp add: extra epoch_middle_def)
    with v * False show ?thesis by blast
  qed
qed


section \<open>Turns\<close>

lemma turn_slots:
  fixes t n i k :: nat
  assumes "t > 0" and "i < n"
  shows "{y. k * n * t \<le> y \<and> y < (k + 1) * n * t \<and> y div t mod n = i} =
    {(k * n + i) * t ..< (k * n + i) * t + t}" (is "?A = ?B")
proof (intro equalityI subsetI)
  fix y assume "y \<in> ?A"
  then have y: "k * n * t \<le> y" "y < (k + 1) * n * t" "y div t mod n = i" by auto
  have "k * n \<le> y div t" "y div t < (k + 1) * n"
    using y assms(1) by (auto simp: less_eq_div_iff_mult_less_eq div_less_iff_less_mult)
  then have "y div t div n = k" using assms(2) by (intro div_nat_eqI) (auto simp: mult.commute)
  then have "y div t = k * n + i" using y(3) by (metis div_mult_mod_eq)
  then show "y \<in> ?B"
    using assms(1) div_mult_mod_eq [of y t] mod_less_divisor [OF assms(1), of y]
    by (auto simp del: div_mult_mod_eq)
next
  fix y assume "y \<in> ?B"
  then have y: "(k * n + i) * t \<le> y" "y < (k * n + i + 1) * t" by auto
  then have d: "y div t = k * n + i" by (intro div_nat_eqI) (auto simp: mult.commute)
  have "(k * n + i + 1) * t \<le> (k + 1) * n * t"
    using assms(2) by (intro mult_le_mono1) simp
  with y(2) have "y < (k + 1) * n * t" by linarith
  moreover have "k * n * t \<le> (k * n + i) * t" by (intro mult_le_mono1) simp
  with y(1) have "k * n * t \<le> y" by (rule order_trans [rotated])
  ultimately show "y \<in> ?A" using d assms(2) by simp
qed

lemma proposerIndex_nat:
  assumes "length (Validators s) < 2 ^ 64" and "Validators s \<noteq> []" and "slot \<noteq> 0"
  shows "proposerIndexForSlot s slot =
    Some ((unat slot - 1) div unat (snap_turnLength s) mod length (Validators s))"
proof -
  have "unat (slot - 1) = unat slot - 1"
    using assms(3) u64_sub_nowrap [of 1 slot] by (simp add: word_le_nat_alt unat_gt_0 Suc_le_eq)
  moreover have "unat (word_of_nat (length (Validators s)) :: u64) = length (Validators s)"
    using assms(1) by (simp add: unat_of_nat_small)
  ultimately show ?thesis
    using assms(2,3) by (simp add: proposerIndexForSlot_def unat_mod_distrib unat_div_distrib)
qed

lemma snap_turnLength_pos [simp]: "0 < unat (snap_turnLength s)"
  by (auto simp: snap_turnLength_def unat_gt_0 word_gt_0 split: option.split)

lemma inturnSlot_nth:
  assumes "length (Validators s) < 2 ^ 64" and "distinct (Validators s)"
    and "i < length (Validators s)" and "slot \<noteq> 0"
  shows "inturnSlot s slot (Validators s ! i) \<longleftrightarrow>
    (unat slot - 1) div unat (snap_turnLength s) mod length (Validators s) = i"
proof -
  have ne: "Validators s \<noteq> []" using assms(3) by auto
  then show ?thesis
    using assms proposerIndex_nat [OF assms(1) ne assms(4)]
    by (simp add: inturnSlot_def nth_eq_iff_index_eq)
qed

lemma inturn_slots_image:
  assumes n: "length (Validators s) < 2 ^ 64" and d: "distinct (Validators s)"
    and i: "i < length (Validators s)"
    and n_def: "n = length (Validators s)" and t_def: "t = unat (snap_turnLength s)"
    and fits: "(k + 1) * n * t < 2 ^ 64"
  shows "unat ` {slot. k * n * t < unat slot \<and> unat slot \<le> (k + 1) * n * t \<and>
      inturnSlot s slot (Validators s ! i)} = Suc ` {(k * n + i) * t ..< (k * n + i) * t + t}"
    (is "unat ` ?S = Suc ` ?I")
proof -
  have I: "?I = {y. k * n * t \<le> y \<and> y < (k + 1) * n * t \<and> y div t mod n = i}"
    using turn_slots [of t i n k] i by (simp add: n_def t_def)
  show ?thesis
  proof (intro equalityI subsetI)
    fix x assume "x \<in> unat ` ?S"
    then obtain slot where x: "x = unat slot" and s: "slot \<in> ?S" by blast
    then have "slot \<noteq> 0" by auto
    with s x have "x - 1 \<in> ?I" "x = Suc (x - 1)"
      unfolding I using inturnSlot_nth [OF n d i] by (auto simp: n_def t_def)
    then show "x \<in> Suc ` ?I" by blast
  next
    fix x assume "x \<in> Suc ` ?I"
    then obtain y where x: "x = Suc y" and y: "k * n * t \<le> y" "y < (k + 1) * n * t"
      "y div t mod n = i" unfolding I by blast
    define slot :: u64 where "slot = word_of_nat x"
    have u: "unat slot = x"
      unfolding slot_def using x y fits by (intro unat_of_nat_small) simp
    then have "slot \<noteq> 0" using x by auto
    then have "slot \<in> ?S"
      using inturnSlot_nth [OF n d i, of slot] x y u by (auto simp: n_def t_def)
    then show "x \<in> unat ` ?S" using u by blast
  qed
qed

text \<open>
  C23. The turn schedule is fair: among the slots of one round (\<open>n\<close> validators times the turn length,
  counted from slot 1), every validator of the snapshot is in turn exactly turn-length times.
\<close>

theorem rotation_fair:
  assumes n: "length (Validators s) < 2 ^ 64" and d: "distinct (Validators s)"
    and v: "v \<in> set (Validators s)"
    and n_def: "n = length (Validators s)" and t_def: "t = unat (snap_turnLength s)"
    and fits: "(k + 1) * n * t < 2 ^ 64"
  shows "card {slot. k * n * t < unat slot \<and> unat slot \<le> (k + 1) * n * t \<and> inturnSlot s slot v} = t"
proof -
  obtain i where i: "i < length (Validators s)" and vi: "v = Validators s ! i"
    using v by (auto simp: in_set_conv_nth)
  let ?S = "{slot. k * n * t < unat slot \<and> unat slot \<le> (k + 1) * n * t \<and> inturnSlot s slot v}"
  have "card ?S = card (unat ` ?S)"
    by (intro card_image [symmetric] inj_onI) (simp add: word_unat_eq_iff)
  also have "\<dots> = t"
    unfolding vi inturn_slots_image [OF n d i n_def t_def fits] by (simp add: card_image)
  finally show ?thesis .
qed


definition example_config :: DPoSConfig where
  "example_config = \<lparr>PeriodMs = 360, Epoch = 1664, MaxValidators = 15, RecentSignerWindow = 0,
     TurnLength = 16, SealSignerType = ''ed25519'', MaintenanceMaxBlocks = 0,
     CheckpointInterval = 200, CheckpointFinalityBlock = Some 0\<rparr>"

definition example_snapshot :: Snapshot where
  "example_snapshot = \<lparr>snap_config = Some example_config, snap_Number = 0, snap_Hash = 0,
     Validators = [1, 2, 3], ValidatorsMap = {1, 2, 3}, Recents = [], GenesisTime = 1000,
     snap_PeriodMs = 360, FinalizedNumber = 0, FinalizedHash = 0\<rparr>"

lemma example_snapshot_simps [simp]:
  "snap_config example_snapshot = Some example_config"
  "Validators example_snapshot = [1, 2, 3]"
  "ValidatorsMap example_snapshot = {1, 2, 3}"
  "Recents example_snapshot = []"
  "GenesisTime example_snapshot = 1000"
  "snap_PeriodMs example_snapshot = 360"
  "snap_Number example_snapshot = 0"
  by (simp_all add: example_snapshot_def)

theorem rotation_fair_witness:
  "card {slot. 48 < unat slot \<and> unat slot \<le> 96 \<and> inturnSlot example_snapshot slot 2} = 16"
proof -
  have "16 = unat (snap_turnLength example_snapshot)"
    by (simp add: snap_turnLength_def example_config_def)
  moreover have "3 = length (Validators example_snapshot)" by simp
  ultimately have "card {slot. 1 * 3 * 16 < unat slot \<and> unat slot \<le> (1 + 1) * 3 * 16 \<and>
      inturnSlot example_snapshot slot 2} = 16"
    by (intro rotation_fair) simp_all
  then show ?thesis by simp
qed

section \<open>Recency\<close>

lemma window_count:
  fixes n t s :: nat
  assumes n: "2 \<le> n" and t: "0 < t" and s: "0 < s"
    and W: "W = (n div 2 + 1) * t - 1"
  shows "card {x. s - W < x \<and> x < s \<and> (x - 1) div t mod n = (s - 1) div t mod n} < t"
    (is "card ?A < t")
proof -
  define g j where "g = (s - 1) div t" and "j = (s - 1) mod t"
  have sg: "s = g * t + j + 1" using s by (simp add: g_def j_def)
  have j: "j < t" using t by (simp add: j_def)
  let ?own = "{g * t <..< s}" and ?prev = "if n \<le> g then {s - W <.. (g - n + 1) * t} else {}"
  have sub: "?A \<subseteq> ?own \<union> ?prev"
  proof
    fix x assume x: "x \<in> ?A"
    define h where "h = (x - 1) div t"
    have hg: "h \<le> g" unfolding h_def g_def using x by (intro div_le_mono diff_le_mono) simp
    have "h mod n = g mod n" using x by (simp add: h_def g_def)
    then have dvd: "n dvd g - h" using hg by (metis mod_eq_dvd_iff_nat)
    have x1: "x - 1 = h * t + (x - 1) mod t" by (simp add: h_def)
    have xh: "x \<le> (h + 1) * t" using x1 mod_less_divisor [OF t, of "x - 1"] by simp
    show "x \<in> ?own \<union> ?prev"
    proof (cases "h = g")
      case True
      then show ?thesis using x x1 by auto
    next
      case False
      then have gn: "h + n \<le> g" using hg dvd by (auto dest: dvd_imp_le)
      then have "(h + 1) * t \<le> (g - n + 1) * t" by (intro mult_le_mono1) simp
      with xh have "x \<le> (g - n + 1) * t" by (rule order_trans)
      then show ?thesis using x gn by simp
    qed
  qed
  have "card ?A \<le> card (?own \<union> ?prev)" by (intro card_mono sub) auto
  also have "\<dots> \<le> card ?own + card ?prev" by (rule card_Un_le)
  also have "\<dots> < t"
  proof (cases "n \<le> g")
    case False
    then show ?thesis using sg j by simp
  next
    case True
    then obtain r where g: "g = n + r" using le_Suc_ex by blast
    have "j + ((r + 1) * t - (s - W)) < t"
    proof (cases "n = 2")
      case True
      then have W2: "W = 2 * t - 1" using W by simp
      have s2: "s = 2 * t + r * t + j + 1" using sg g True by (simp add: distrib_right)
      have "s - W = r * t + j + 2" unfolding W2 s2 using t by linarith
      then show ?thesis using j by (simp add: distrib_right)
    next
      case False
      then have "n div 2 + 1 + (r + 1) \<le> n + r" using n by simp
      then have "(n div 2 + 1 + (r + 1)) * t \<le> (n + r) * t" by (rule mult_le_mono1)
      then have "(n div 2 + 1) * t + (r + 1) * t \<le> g * t" by (simp only: distrib_right g)
      then have "(r + 1) * t \<le> s - W" using sg W by linarith
      then show ?thesis using j by simp
    qed
    then show ?thesis using True sg g by simp
  qed
  finally show ?thesis .
qed


lemma recents_count:
  fixes R :: "(u64 \<times> address) list"
  assumes "distinct (map fst R)"
  shows "length (filter P R) = card ((unat \<circ> fst) ` set (filter P R))"
proof -
  have d: "distinct (map (unat \<circ> fst) R)"
    using assms by (simp add: distinct_map inj_on_def word_unat_eq_iff)
  then have "distinct (map (unat \<circ> fst) (filter P R))" by (rule distinct_map_filter)
  then show ?thesis using distinct_card by (metis length_map list.set_map)
qed

lemma inturn_index:
  assumes "inturnSlot s slot v" and "length (Validators s) < 2 ^ 64"
  shows "slot \<noteq> 0" and "Validators s \<noteq> []"
    and "Validators s ! ((unat slot - 1) div unat (snap_turnLength s) mod length (Validators s)) = v"
proof -
  show slot: "slot \<noteq> 0" and ne: "Validators s \<noteq> []"
    using assms(1) by (auto simp: inturnSlot_def split: if_splits)
  show "Validators s ! ((unat slot - 1) div unat (snap_turnLength s) mod length (Validators s)) = v"
    using assms(1) proposerIndex_nat [OF assms(2) ne slot] slot ne by (simp add: inturnSlot_def)
qed

lemma inturn_same_group:
  assumes "inturnSlot s x v" and "inturnSlot s y v" and "length (Validators s) < 2 ^ 64"
    and "distinct (Validators s)"
  shows "(unat x - 1) div unat (snap_turnLength s) mod length (Validators s) =
    (unat y - 1) div unat (snap_turnLength s) mod length (Validators s)"
  using inturn_index [OF assms(1,3)] inturn_index(3) [OF assms(2,3)] assms(4)
  by (metis nth_eq_iff_index_eq mod_less_divisor length_greater_0_conv)

text \<open>The set-up in which the recency window is the default one and the sizes do not wrap.\<close>

definition default_window :: "Snapshot \<Rightarrow> DPoSConfig \<Rightarrow> bool" where
  "default_window s c \<longleftrightarrow> snap_config s = Some c \<and> RecentSignerWindow c = 0 \<and> TurnLength c \<noteq> 0 \<and>
     2 \<le> length (Validators s) \<and> length (Validators s) < 2 ^ 64 \<and>
     (length (Validators s) div 2 + 1) * unat (TurnLength c) < 2 ^ 64"

lemma default_windowD:
  assumes "default_window s c"
  shows "unat (recentSignerWindowSize s) = (length (Validators s) div 2 + 1) * unat (TurnLength c) - 1"
    and "unat (snap_turnLength s) = unat (TurnLength c)"
    and "0 < unat (TurnLength c)"
proof -
  note w = assms [unfolded default_window_def]
  have "length (Validators s) > 0" using w by linarith
  then show "unat (recentSignerWindowSize s) =
      (length (Validators s) div 2 + 1) * unat (TurnLength c) - 1"
    using w RecentSignerWindowSize_default [of c "length (Validators s)"]
    by (simp only: recentSignerWindowSize_def option.case simp_thms)
qed (use assms in \<open>auto simp: default_window_def snap_turnLength_def word_gt_0 unat_gt_0\<close>)

lemma window_left:
  "unat (if slot > window then slot - window else 0 :: u64) = unat slot - unat window"
  using u64_sub_nowrap [of window slot] by (auto simp: word_less_nat_alt word_le_nat_alt)

lemma in_turn_not_recent:
  assumes w: "default_window s c" and d: "distinct (Validators s)"
    and keys: "distinct (map fst (Recents s))"
    and past: "\<And>x a. (x, a) \<in> set (Recents s) \<Longrightarrow> inturnSlot s x a \<and> x < slot"
    and v: "inturnSlot s slot v"
  shows "\<not> recentlySignedAt s slot v"
proof -
  let ?n = "length (Validators s)" and ?t = "unat (TurnLength c)"
  let ?W = "unat (recentSignerWindowSize s)"
  define left where "left = (if slot > recentSignerWindowSize s then slot - recentSignerWindowSize s else 0)"
  define P where "P = (\<lambda>(x, a). \<not> x \<le> left \<and> a = v)"
  have n: "2 \<le> ?n" "?n < 2 ^ 64" using w by (auto simp: default_window_def)
  have left: "unat left = unat slot - ?W" unfolding left_def by (rule window_left)
  have slot: "0 < unat slot" using inturn_index(1) [OF v n(2)] by (simp add: unat_gt_0)
  let ?A = "{x. unat slot - ?W < x \<and> x < unat slot \<and>
    (x - 1) div ?t mod ?n = (unat slot - 1) div ?t mod ?n}"
  have sub: "(unat \<circ> fst) ` set (filter P (Recents s)) \<subseteq> ?A"
  proof (clarsimp simp: P_def, intro conjI)
    fix x assume x: "(x, v) \<in> set (Recents s)" "\<not> x \<le> left"
    show "unat slot - ?W < unat x" using x(2) left by (simp add: word_le_nat_alt)
    show "unat x < unat slot" using past [OF x(1)] by (simp add: word_less_nat_alt)
    show "(unat x - Suc 0) div ?t mod ?n = (unat slot - Suc 0) div ?t mod ?n"
      using inturn_same_group [OF conjunct1 [OF past [OF x(1)]] v n(2) d] default_windowD(2) [OF w]
      by simp
  qed
  have "length (filter P (Recents s)) \<le> card ?A"
    unfolding recents_count [OF keys] by (intro card_mono sub) auto
  also have "\<dots> < ?t"
    using window_count [OF n(1) default_windowD(3) [OF w] slot default_windowD(1) [OF w]] .
  finally have seen: "length (filter P (Recents s)) < ?t" .
  then have "length (filter P (Recents s)) < 2 ^ LENGTH(64)"
    using u64_less_2p64 [of "TurnLength c"] by simp
  then have "unat (word_of_nat (length (filter P (Recents s))) :: u64) < ?t"
    using seen by (simp add: unat_of_nat_small)
  then have "\<not> word_of_nat (length (filter P (Recents s))) \<ge> TurnLength c"
    by (simp add: word_le_nat_alt)
  then show ?thesis
    using w n(1) unfolding recentlySignedAt_def default_window_def P_def left_def
    by (simp add: Let_def)
qed


section \<open>Replay inside an epoch\<close>

definition pruned :: "u64 \<Rightarrow> u64 \<Rightarrow> (u64 \<times> address) list \<Rightarrow> (u64 \<times> address) list" where
  "pruned slot limit R =
     (if slot \<ge> limit then filter (\<lambda>(x, a). \<not> x \<le> slot - limit) R else R)"

lemma prune_recents_eq:
  "prune_recents slot s = s\<lparr>Recents := pruned slot (recentSignerWindowSize s) (Recents s)\<rparr>"
  by (simp add: prune_recents_def pruned_def Let_def)

lemma pruned_subset: "set (pruned slot limit R) \<subseteq> set R"
  by (auto simp: pruned_def)

lemma pruned_distinct: "distinct (map fst R) \<Longrightarrow> distinct (map fst (pruned slot limit R))"
  by (simp add: pruned_def distinct_map_filter)

lemma pruned_keeps:
  "(x, a) \<in> set R \<Longrightarrow> unat slot - unat limit < unat x \<Longrightarrow> (x, a) \<in> set (pruned slot limit R)"
  using u64_sub_nowrap [of limit slot] by (auto simp: pruned_def word_le_nat_alt)

lemma recents_update_simps [simp]:
  "snap_turnLength (s\<lparr>Recents := R\<rparr>) = snap_turnLength s"
  "inturnSlot (s\<lparr>Recents := R\<rparr>) slot v = inturnSlot s slot v"
  "recentSignerWindowSize (s\<lparr>Recents := R\<rparr>) = recentSignerWindowSize s"
  "default_window (s\<lparr>Recents := R\<rparr>) c = default_window s c"
  by (simp_all add: snap_turnLength_def inturnSlot_def proposerIndexForSlot_def
      recentSignerWindowSize_def default_window_def split: option.split)

lemma update_fresh: "k \<notin> fst ` set al \<Longrightarrow> AList.update k v al = al @ [(k, v)]"
  by (induction al) auto

lemma apply_header_non_epoch:
  assumes "snap_config s = Some c" and "Epoch c \<noteq> 0" and "header_number h mod Epoch c \<noteq> 0"
  shows "apply_header kh verify s h = Inr s' \<longleftrightarrow>
    (\<exists>slot v R. headerSlot (Time h) (GenesisTime s) (snap_PeriodMs s) = Some slot \<and>
       recoverHeaderSigner kh verify (Some c) h = Inr v \<and> v \<in> ValidatorsMap s \<and>
       R = pruned slot (recentSignerWindowSize s) (Recents s) \<and>
       \<not> recentlySignedAt (s\<lparr>Recents := R\<rparr>) slot v \<and> s' = s\<lparr>Recents := AList.update slot v R\<rparr>)"
  using assms by (auto simp: apply_header_def prune_recents_eq Let_def split: option.splits sum.splits)

fun in_turn_chain ::
  "keccak \<Rightarrow> verifier \<Rightarrow> DPoSConfig \<Rightarrow> Snapshot \<Rightarrow> u64 \<Rightarrow> Header list \<Rightarrow> bool" where
  "in_turn_chain kh verify c s prev [] = True"
| "in_turn_chain kh verify c s prev (h # hs) =
     (case headerSlot (Time h) (GenesisTime s) (snap_PeriodMs s) of None \<Rightarrow> False
      | Some slot \<Rightarrow>
         (case recoverHeaderSigner kh verify (Some c) h of Inl _ \<Rightarrow> False
          | Inr v \<Rightarrow> prev < slot \<and> inturnSlot s slot v \<and> header_number h mod Epoch c \<noteq> 0 \<and>
                     in_turn_chain kh verify c s slot hs))"

lemma in_turn_chain_recents [simp]:
  "in_turn_chain kh verify c (s\<lparr>Recents := R\<rparr>) prev hs = in_turn_chain kh verify c s prev hs"
  by (induction hs arbitrary: prev) (auto split: option.splits sum.splits)

definition past_in_turn :: "Snapshot \<Rightarrow> u64 \<Rightarrow> bool" where
  "past_in_turn s prev \<longleftrightarrow> distinct (map fst (Recents s)) \<and>
     (\<forall>(x, a) \<in> set (Recents s). inturnSlot s x a \<and> x \<le> prev)"

lemma inturn_member:
  assumes "inturnSlot s slot v" and "length (Validators s) < 2 ^ 64"
  shows "v \<in> set (Validators s)"
  using inturn_index(2,3) [OF assms] by (metis length_greater_0_conv mod_less_divisor nth_mem)

lemma in_turn_step:
  assumes w: "default_window s c" and d: "distinct (Validators s)"
    and m: "ValidatorsMap s = set (Validators s)" and e: "Epoch c \<noteq> 0"
    and past: "past_in_turn s prev"
    and slot: "headerSlot (Time h) (GenesisTime s) (snap_PeriodMs s) = Some slot"
    and v: "recoverHeaderSigner kh verify (Some c) h = Inr v"
    and turn: "prev < slot" "inturnSlot s slot v" and ne: "header_number h mod Epoch c \<noteq> 0"
  shows "\<exists>R. apply_header kh verify s h = Inr (s\<lparr>Recents := R\<rparr>) \<and>
    past_in_turn (s\<lparr>Recents := R\<rparr>) slot"
proof -
  have c: "snap_config s = Some c" and n: "length (Validators s) < 2 ^ 64"
    using w by (auto simp: default_window_def)
  define R where "R = pruned slot (recentSignerWindowSize s) (Recents s)"
  have keys: "distinct (map fst R)"
    unfolding R_def using past by (intro pruned_distinct) (simp add: past_in_turn_def)
  have R: "inturnSlot s x a \<and> x < slot" if "(x, a) \<in> set R" for x a
  proof -
    have "(x, a) \<in> set (Recents s)" using that pruned_subset unfolding R_def by blast
    then have "inturnSlot s x a \<and> x \<le> prev" using past by (auto simp: past_in_turn_def)
    then show ?thesis using turn(1) by auto
  qed
  have "\<not> recentlySignedAt (s\<lparr>Recents := R\<rparr>) slot v"
    by (rule in_turn_not_recent [of _ c]) (use w d keys R turn in simp_all)
  then have "apply_header kh verify s h = Inr (s\<lparr>Recents := AList.update slot v R\<rparr>)"
    using inturn_member [OF turn(2) n] m slot v
    unfolding apply_header_non_epoch [OF c e ne] R_def by blast
  moreover have "slot \<notin> fst ` set R" using R by fastforce
  then have "AList.update slot v R = R @ [(slot, v)]" by (rule update_fresh)
  moreover have "past_in_turn (s\<lparr>Recents := R @ [(slot, v)]\<rparr>) slot"
    using keys R turn(2) \<open>slot \<notin> fst ` set R\<close> by (fastforce simp: past_in_turn_def)
  ultimately show ?thesis by metis
qed



definition example_header :: "int \<Rightarrow> u64 \<Rightarrow> Header" where
  "example_header n t = \<lparr>ParentHash = 0, UncleHash = 0, Coinbase = 1, Root = 0, TxHash = 0,
     ReceiptHash = 0, Bloom = [], Difficulty = Some 2, Number = Some n, GasLimit = 5000,
     GasUsed = 0, Time = t, Extra = replicate 128 0, MixDigest = 0, Nonce = 0, BaseFee = None\<rparr>"

lemma example_header_simps [simp]:
  "Time (example_header n t) = t" "Number (example_header n t) = Some n"
  "header_number (example_header n t) = word_of_int \<bar>n\<bar>"
  by (simp_all add: example_header_def header_number_def)

lemma example_signer [simp]:
  "recoverHeaderSigner (\<lambda>_. a) (\<lambda>_ _ _. True) (Some example_config) (example_header n t) = Inr a"
  by (simp add: recoverHeaderSigner_def example_header_def example_config_def Let_def
      sealLengthForSignerType_def extraSealEd25519_def)

lemma example_default_window: "default_window example_snapshot example_config"
  by (simp add: default_window_def example_config_def)


text \<open>What a replay inside an epoch recorded: the slot and the signer of each header.\<close>

fun signed_trace :: "keccak \<Rightarrow> verifier \<Rightarrow> Snapshot \<Rightarrow> Header list \<Rightarrow> (u64 \<times> address) list" where
  "signed_trace kh verify s [] = []"
| "signed_trace kh verify s (h # hs) =
     (case (headerSlot (Time h) (GenesisTime s) (snap_PeriodMs s),
            recoverHeaderSigner kh verify (snap_config s) h) of
        (Some slot, Inr v) \<Rightarrow> (slot, v) # signed_trace kh verify s hs
      | _ \<Rightarrow> [])"

lemma signed_trace_recents [simp]:
  "signed_trace kh verify (s\<lparr>Recents := R\<rparr>) hs = signed_trace kh verify s hs"
  by (induction hs) (auto split: option.splits sum.splits)

definition in_window :: "address \<Rightarrow> nat \<Rightarrow> nat \<Rightarrow> u64 \<times> address \<Rightarrow> bool" where
  "in_window v x W = (\<lambda>(slot, a). a = v \<and> x < unat slot \<and> unat slot \<le> x + W)"

text \<open>Of the trace \<open>T\<close>, the snapshot remembers everything the window can still see.\<close>

definition remembers :: "Snapshot \<Rightarrow> (u64 \<times> address) list \<Rightarrow> u64 \<Rightarrow> bool" where
  "remembers s T prev \<longleftrightarrow> distinct (map fst T) \<and> distinct (map fst (Recents s)) \<and>
     (\<forall>(slot, a) \<in> set T \<union> set (Recents s). slot \<le> prev) \<and>
     (\<forall>(slot, a) \<in> set T. unat prev - unat (recentSignerWindowSize s) < unat slot \<longrightarrow>
        (slot, a) \<in> set (Recents s))"

lemma not_recent_count:
  assumes c: "snap_config s = Some c" "TurnLength c \<noteq> 0" "2 \<le> length (Validators s)"
    and keys: "distinct (map fst (Recents s))" and past: "\<And>x a. (x, a) \<in> set (Recents s) \<Longrightarrow> x < slot"
    and ok: "\<not> recentlySignedAt s slot v"
  shows "length (filter (\<lambda>(x, a). unat slot - unat (recentSignerWindowSize s) < unat x \<and> a = v)
    (Recents s)) < unat (TurnLength c)" (is "length (filter ?P _) < _")
proof -
  define left where "left = (if slot > recentSignerWindowSize s then slot - recentSignerWindowSize s else 0)"
  have "unat left = unat slot - unat (recentSignerWindowSize s)"
    unfolding left_def by (rule window_left)
  then have P: "?P = (\<lambda>(x, a). \<not> x \<le> left \<and> a = v)"
    by (auto simp: word_le_nat_alt)
  have "length (filter ?P (Recents s)) \<le> length (Recents s)" by simp
  also have "\<dots> = card (unat ` fst ` set (Recents s))"
    using recents_count [OF keys, of "\<lambda>_. True"] by (simp add: image_comp)
  also have "\<dots> \<le> card {..<unat slot}"
    using past by (intro card_mono) (auto simp: word_less_nat_alt)
  finally have "length (filter ?P (Recents s)) < 2 ^ LENGTH(64)"
    using u64_less_2p64 [of slot] by simp
  moreover have "word_of_nat (length (filter ?P (Recents s))) < TurnLength c"
    using ok c by (simp add: recentlySignedAt_def Let_def P left_def not_le)
  ultimately show ?thesis
    by (simp add: word_less_nat_alt unat_of_nat_small)
qed


lemma window_snoc:
  assumes T: "distinct (map fst T)" and R: "distinct (map fst R)"
    and sees: "\<And>x a. (x, a) \<in> set T \<Longrightarrow> unat slot - W < unat x \<Longrightarrow> (x, a) \<in> set R"
    and seen: "length (filter (\<lambda>(x, a). unat slot - W < unat x \<and> a = v) R) < t"
    and IH: "\<And>u x. length (filter (in_window u x W) T) \<le> t"
  shows "length (filter (in_window u x W) (T @ [(slot, v)])) \<le> t"
proof (cases "in_window u x W (slot, v)")
  case False
  then show ?thesis using IH by simp
next
  case True
  then have u: "u = v" and lo: "unat slot - W \<le> x" by (auto simp: in_window_def)
  let ?P = "\<lambda>(x, a). unat slot - W < unat x \<and> a = v"
  have dT: "distinct T" and dR: "distinct R" using T R by (simp_all add: distinct_map)
  have "set (filter (in_window u x W) T) \<subseteq> set (filter ?P R)"
    using lo sees by (force simp: in_window_def u)
  then have "card (set (filter (in_window u x W) T)) \<le> card (set (filter ?P R))"
    by (intro card_mono) simp_all
  then have "length (filter (in_window u x W) T) \<le> length (filter ?P R)"
    by (simp only: distinct_card [OF distinct_filter [OF dT]] distinct_card [OF distinct_filter [OF dR]])
  then show ?thesis using seen True by simp
qed

lemma remembers_step:
  assumes c: "snap_config s = Some c" "Epoch c \<noteq> 0" "TurnLength c \<noteq> 0" "2 \<le> length (Validators s)"
    and ne: "header_number h mod Epoch c \<noteq> 0"
    and step: "apply_header kh verify s h = Inr s'"
    and slot: "headerSlot (Time h) (GenesisTime s) (snap_PeriodMs s) = Some slot"
    and v: "recoverHeaderSigner kh verify (Some c) h = Inr v"
    and prev: "prev < slot" and rem: "remembers s T prev"
  shows "\<exists>R. s' = s\<lparr>Recents := R\<rparr>" and "remembers s' (T @ [(slot, v)]) slot"
    and "(\<And>u x. length (filter (in_window u x (unat (recentSignerWindowSize s))) T) \<le> unat (TurnLength c)) \<Longrightarrow>
      length (filter (in_window u x (unat (recentSignerWindowSize s))) (T @ [(slot, v)])) \<le> unat (TurnLength c)"
proof -
  let ?W = "unat (recentSignerWindowSize s)"
  define R where "R = pruned slot (recentSignerWindowSize s) (Recents s)"
  have ok: "\<not> recentlySignedAt (s\<lparr>Recents := R\<rparr>) slot v" and s': "s' = s\<lparr>Recents := AList.update slot v R\<rparr>"
    using step slot v unfolding apply_header_non_epoch [OF c(1,2) ne] R_def by auto
  have keys: "distinct (map fst R)" and T: "distinct (map fst T)"
    using rem unfolding R_def by (auto simp: remembers_def intro: pruned_distinct)
  have lt: "x < slot" if "(x, a) \<in> set T \<union> set R" for x a
  proof -
    have "(x, a) \<in> set T \<union> set (Recents s)"
      using that pruned_subset [of slot "recentSignerWindowSize s" "Recents s"] unfolding R_def by blast
    then have "x \<le> prev" using rem unfolding remembers_def by blast
    then show ?thesis using prev by (rule le_less_trans)
  qed
  have sees: "(x, a) \<in> set R" if "(x, a) \<in> set T" "unat slot - ?W < unat x" for x a
  proof -
    have "unat prev \<le> unat slot" using prev by (simp add: word_less_nat_alt)
    then have "unat prev - ?W < unat x" using that(2) by linarith
    then have "(x, a) \<in> set (Recents s)" using rem that(1) by (auto simp: remembers_def)
    then show ?thesis unfolding R_def using that(2) by (rule pruned_keeps)
  qed
  have fresh: "slot \<notin> fst ` (set T \<union> set R)" using lt by fastforce
  then have upd: "AList.update slot v R = R @ [(slot, v)]" by (intro update_fresh) auto
  show "\<exists>R. s' = s\<lparr>Recents := R\<rparr>" using s' by blast
  show "remembers s' (T @ [(slot, v)]) slot"
    unfolding s' upd using keys T fresh lt sees by (fastforce simp: remembers_def)
  assume "\<And>u x. length (filter (in_window u x ?W) T) \<le> unat (TurnLength c)"
  moreover have "length (filter (\<lambda>(x, a). unat slot - ?W < unat x \<and> a = v) R) < unat (TurnLength c)"
  proof -
    have "x < slot" if "(x, a) \<in> set (Recents (s\<lparr>Recents := R\<rparr>))" for x a
      using that by (intro lt [of x a]) simp
    then show ?thesis
      using not_recent_count [of "s\<lparr>Recents := R\<rparr>" c slot v] c keys ok by simp
  qed
  ultimately show "length (filter (in_window u x ?W) (T @ [(slot, v)])) \<le> unat (TurnLength c)"
    by (intro window_snoc [OF T keys sees])
qed

lemma recency_trace:
  assumes "snap_config s = Some c" "Epoch c \<noteq> 0" "TurnLength c \<noteq> 0" "2 \<le> length (Validators s)"
    and "\<forall>h \<in> set hs. header_number h mod Epoch c \<noteq> 0"
    and "apply_headers kh verify s hs = Inr s'"
    and "sorted_wrt (<) (prev # map fst (signed_trace kh verify s hs))"
    and "remembers s T prev" and "W = unat (recentSignerWindowSize s)"
    and "\<And>u x. length (filter (in_window u x W) T) \<le> unat (TurnLength c)"
  shows "length (filter (in_window u x W) (T @ signed_trace kh verify s hs)) \<le> unat (TurnLength c)"
  using assms
proof (induction hs arbitrary: s T prev)
  case Nil
  then show ?case by simp
next
  case (Cons h hs)
  from Cons.prems(6) obtain s1 where s1: "apply_header kh verify s h = Inr s1"
    and rest: "apply_headers kh verify s1 hs = Inr s'" by (auto split: sum.splits)
  have ne: "header_number h mod Epoch c \<noteq> 0" using Cons.prems(5) by simp
  obtain slot v where slot: "headerSlot (Time h) (GenesisTime s) (snap_PeriodMs s) = Some slot"
    and v: "recoverHeaderSigner kh verify (Some c) h = Inr v"
    using s1 unfolding apply_header_non_epoch [OF Cons.prems(1,2) ne] by blast
  have tr: "signed_trace kh verify s (h # hs) = (slot, v) # signed_trace kh verify s hs"
    using slot v Cons.prems(1) by simp
  have lt: "prev < slot" and srt: "sorted_wrt (<) (slot # map fst (signed_trace kh verify s hs))"
    using Cons.prems(7) unfolding tr by auto
  note step = remembers_step [OF Cons.prems(1-4) ne s1 slot v lt Cons.prems(8)]
  obtain R where R: "s1 = s\<lparr>Recents := R\<rparr>" using step(1) by blast
  have "length (filter (in_window u x W) ((T @ [(slot, v)]) @ signed_trace kh verify s1 hs)) \<le> unat (TurnLength c)"
  proof (rule Cons.IH [OF _ Cons.prems(2,3) _ _ rest])
    show "remembers s1 (T @ [(slot, v)]) slot" by (rule step(2))
    show "length (filter (in_window u x W) (T @ [(slot, v)])) \<le> unat (TurnLength c)" for u x
      unfolding Cons.prems(9) by (intro step(3)) (use Cons.prems(10) in \<open>simp add: Cons.prems(9)\<close>)
  qed (use Cons.prems srt in \<open>simp_all add: R\<close>)
  then show ?case by (simp only: tr R signed_trace_recents append.assoc append_Cons append_Nil)
qed


lemma example_step:
  "apply_header (\<lambda>_. 1) (\<lambda>_ _ _. True) example_snapshot (example_header 1 1360) =
    Inr (example_snapshot\<lparr>Recents := [(1, 1)]\<rparr>)"
  by (simp add: apply_header_def headerSlot_def prune_recents_def recentlySignedAt_def Let_def
      recentSignerWindowSize_def RecentSignerWindowSize_def)
    (simp add: example_config_def word_le_nat_alt)


section \<open>Replay across epochs\<close>

definition snapshot_ok :: "Snapshot \<Rightarrow> bool" where
  "snapshot_ok s \<longleftrightarrow> Validators s \<noteq> [] \<and> sorted_wrt (<) (Validators s) \<and>
     ValidatorsMap s = set (Validators s) \<and> distinct (map fst (Recents s))"

text \<open>The fields that a replay never changes.\<close>

definition same_base :: "Snapshot \<Rightarrow> Snapshot \<Rightarrow> bool" where
  "same_base s s' \<longleftrightarrow> snap_config s' = snap_config s \<and> snap_Number s' = snap_Number s \<and>
     snap_Hash s' = snap_Hash s \<and> GenesisTime s' = GenesisTime s \<and> snap_PeriodMs s' = snap_PeriodMs s \<and>
     FinalizedNumber s' = FinalizedNumber s \<and> FinalizedHash s' = FinalizedHash s"

lemma parse_sorted: "parseEpochValidators extra cfg cf = Inr as \<Longrightarrow> sorted_wrt (<) as"
  using parse_epoch_inverse by blast

lemma apply_header_cases:
  assumes "apply_header kh verify s h = Inr s'"
  shows "\<exists>slot v c R. snap_config s = Some c \<and> recoverHeaderSigner kh verify (Some c) h = Inr v \<and>
    v \<in> ValidatorsMap s \<and>
    headerSlot (Time h) (GenesisTime s) (snap_PeriodMs s) = Some slot \<and>
    R = AList.update slot v (pruned slot (recentSignerWindowSize s) (Recents s)) \<and>
    (s' = s\<lparr>Recents := R\<rparr> \<or>
     (\<exists>as. header_number h mod Epoch c = 0 \<and> as \<noteq> [] \<and>
        parseEpochValidators (Extra h) (Some c) (IsCheckpointFinality (Some c) (Number h)) = Inr as \<and>
        s' = prune_recents slot
          (s\<lparr>Recents := R, Validators := as, ValidatorsMap := set as\<rparr>)))"
  using assms
  by (auto simp: apply_header_def prune_recents_eq [of _ s] Let_def
      split: option.splits sum.splits if_splits)

lemma apply_header_ok:
  assumes "snapshot_ok s" and "apply_header kh verify s h = Inr s'"
  shows "snapshot_ok s'" and "same_base s s'"
proof -
  obtain slot v c R where R: "R = AList.update slot v (pruned slot (recentSignerWindowSize s) (Recents s))"
    and s': "s' = s\<lparr>Recents := R\<rparr> \<or>
     (\<exists>as. as \<noteq> [] \<and>
        parseEpochValidators (Extra h) (Some c) (IsCheckpointFinality (Some c) (Number h)) = Inr as \<and>
        s' = prune_recents slot (s\<lparr>Recents := R, Validators := as, ValidatorsMap := set as\<rparr>))"
    using apply_header_cases [OF assms(2)] by blast
  have keys: "distinct (map fst R)"
    unfolding R using assms(1) by (intro distinct_update pruned_distinct) (simp add: snapshot_ok_def)
  show "snapshot_ok s'"
    using s' assms(1) keys parse_sorted
    by (fastforce simp: snapshot_ok_def prune_recents_eq intro: pruned_distinct)
  show "same_base s s'" using s' by (auto simp: same_base_def prune_recents_eq)
qed

lemma apply_headers_ok:
  assumes "snapshot_ok s" and "apply_headers kh verify s hs = Inr s'"
  shows "snapshot_ok s' \<and> same_base s s'"
  using assms
proof (induction hs arbitrary: s)
  case Nil
  then show ?case by (simp add: same_base_def)
next
  case (Cons h hs)
  then obtain s1 where s1: "apply_header kh verify s h = Inr s1"
    and rest: "apply_headers kh verify s1 hs = Inr s'" by (auto split: sum.splits)
  from Cons.IH [OF apply_header_ok(1) [OF Cons.prems(1) s1] rest] apply_header_ok(2) [OF Cons.prems(1) s1]
  show ?case by (simp add: same_base_def)
qed

lemma contiguous_last:
  "contiguous (h # hs) \<Longrightarrow> header_number (last (h # hs)) = header_number h + word_of_nat (length hs)"
  by (induction hs arbitrary: h) (auto split: if_splits)

text \<open>
  C20. Replaying headers keeps a snapshot well formed: the validator list stays non-empty and strictly
  ascending, the lookup set is the list, each slot has one signer; the slot clock, the configuration and
  the finalised checkpoint are untouched, and number and hash are those of the last header.
\<close>

theorem snapshot_apply_wf:
  assumes "snapshot_ok s" and "snapshot_apply kh verify s hs = Inr s'" and "hs \<noteq> []"
  shows "snapshot_ok s' \<and> snap_config s' = snap_config s \<and> GenesisTime s' = GenesisTime s \<and>
    snap_PeriodMs s' = snap_PeriodMs s \<and> FinalizedNumber s' = FinalizedNumber s \<and>
    FinalizedHash s' = FinalizedHash s \<and> snap_Number s' = header_number (last hs) \<and>
    snap_Hash s' = header_Hash kh (last hs)"
proof -
  from assms obtain s1 where s1: "apply_headers kh verify s hs = Inr s1"
    and c: "contiguous hs" "header_number (hd hs) = snap_Number s + 1"
    and s': "s' = s1\<lparr>snap_Number := snap_Number s1 + word_of_nat (length hs),
        snap_Hash := header_Hash kh (last hs)\<rparr>"
    by (auto simp: snapshot_apply_def split: if_splits sum.splits)
  note ok = apply_headers_ok [OF assms(1) s1]
  obtain g gs where hs: "hs = g # gs" using assms(3) by (cases hs) auto
  have "header_number (last hs) = snap_Number s + word_of_nat (length hs)"
    using contiguous_last [of g gs] c by (simp add: hs add.commute add.left_commute)
  then show ?thesis
    using ok by (simp add: s' same_base_def snapshot_ok_def)
qed

lemma example_snapshot_ok: "snapshot_ok example_snapshot"
  by (simp add: snapshot_ok_def)

lemma example_replay:
  "snapshot_apply (\<lambda>_. 1) (\<lambda>_ _ _. True) example_snapshot [example_header 1 1360] =
    Inr (example_snapshot\<lparr>Recents := [(1, 1)], snap_Number := 1,
      snap_Hash := header_Hash (\<lambda>_. 1) (example_header 1 1360)\<rparr>)"
  by (simp add: snapshot_apply_def example_step)

theorem snapshot_apply_wf_witness:
  "\<exists>s'. snapshot_apply (\<lambda>_. 1) (\<lambda>_ _ _. True) example_snapshot [example_header 1 1360] = Inr s' \<and>
    snapshot_ok s' \<and> snap_Number s' = 1"
  using snapshot_apply_wf [OF example_snapshot_ok example_replay] example_replay by simp

text \<open>
  C21. Only authorised validators extend a snapshot: a replay fails at the first header whose seal
  does not verify or whose signer is not in the validator set in force at that header.
\<close>

theorem apply_header_rejects:
  assumes "snap_config s = Some c"
    and "case recoverHeaderSigner kh verify (Some c) h of Inl _ \<Rightarrow> True | Inr v \<Rightarrow> v \<notin> ValidatorsMap s"
    and "apply_headers kh verify s0 before = Inr s"
  shows "\<exists>e. apply_headers kh verify s0 (before @ h # after) = Inl e"
proof -
  have app: "apply_headers kh verify s0 (xs @ ys) =
      (case apply_headers kh verify s0 xs of Inl e \<Rightarrow> Inl e | Inr s1 \<Rightarrow> apply_headers kh verify s1 ys)"
    for s0 xs ys
    by (induction xs arbitrary: s0) (auto split: sum.splits)
  have "\<exists>e. apply_header kh verify s h = Inl e"
    using assms(1,2)
    by (auto simp: apply_header_def prune_recents_eq Let_def split: option.splits sum.splits)
  then show ?thesis using assms(3) by (auto simp: app)
qed

theorem apply_header_rejects_witness:
  "\<exists>e. apply_headers (\<lambda>_. 9) (\<lambda>_ _ _. True) example_snapshot ([] @ example_header 1 1360 # []) = Inl e"
  by (rule apply_header_rejects [of example_snapshot example_config]) simp_all


section \<open>What a seal covers\<close>

definition extra_body :: "Header \<Rightarrow> bytes" where
  "extra_body h = (if length (Extra h) \<ge> extraSealEd25519
     then take (length (Extra h) - extraSealEd25519) (Extra h) else Extra h)"

definition unsealed :: "Header \<Rightarrow> Header" where
  "unsealed h = h\<lparr>Extra := extra_body h, BaseFee := None\<rparr>"

definition header_sane :: "Header \<Rightarrow> bool" where
  "header_sane h \<longleftrightarrow> (case Difficulty h of None \<Rightarrow> False | Some d \<Rightarrow> 0 \<le> d \<and> d < 2 ^ 256) \<and>
     (case Number h of None \<Rightarrow> False | Some n \<Rightarrow> 0 \<le> n \<and> n < 2 ^ 256) \<and>
     length (Bloom h) \<le> 256 \<and> length (Extra h) < 2 ^ 32"

lemma sig_header_length:
  assumes "header_sane h"
  shows "length (rlp_enc (sig_header_rlp extraSealEd25519 h)) < 2 ^ 64"
proof -
  obtain d n where d: "Difficulty h = Some d" "0 \<le> d" "d < 2 ^ 256"
    and n: "Number h = Some n" "0 \<le> n" "n < 2 ^ 256"
    using assms by (auto simp: header_sane_def split: option.splits)
  define parts where "parts = [hash_bytes (ParentHash h), hash_bytes (UncleHash h), addr_bytes (Coinbase h),
     hash_bytes (Root h), hash_bytes (TxHash h), hash_bytes (ReceiptHash h), Bloom h,
     big_bytes (nat d), big_bytes (nat n), uint_bytes (GasLimit h), uint_bytes (GasUsed h),
     uint_bytes (Time h), extra_body h, hash_bytes (MixDigest h), u64_bytes (Nonce h)]"
  have small: "length (Bloom h) \<le> 2 ^ 32" "length (extra_body h) \<le> 2 ^ 32"
    using assms by (auto simp: header_sane_def extra_body_def)
  have nums: "length (big_bytes (nat d)) \<le> 2 ^ 32" "length (big_bytes (nat n)) \<le> 2 ^ 32"
    "\<And>i. length (uint_bytes i) \<le> 2 ^ 32"
    using length_big_bytes [of "nat d"] length_big_bytes [of "nat n"] length_uint_bytes d n
    by (force simp: nat_less_iff intro: order_trans)+
  have len: "length b \<le> 2 ^ 32" if "b \<in> set parts" for b
    using that small nums by (auto simp: parts_def)
  have b: "length (rlp_enc (Str b)) \<le> 2 ^ 32 + 9" if "b \<in> set parts" for b
  proof -
    have "length b \<le> 2 ^ 32" using len that .
    then show ?thesis using length_rlp_enc_Str_le [of b] by simp
  qed
  have "length (concat (map rlp_enc (map Str parts))) \<le> length (map Str parts) * (2 ^ 32 + 9)"
    by (intro length_concat_map_le) (use b in \<open>auto simp del: rlp_enc.simps\<close>)
  moreover have "sig_header_rlp extraSealEd25519 h = Lst (map Str parts)"
    by (simp add: sig_header_rlp_def rlp_big_def rlp_uint_def rlp_hash_def rlp_addr_def d n
        extra_body_def parts_def)
  moreover have "length parts = 15" by (simp add: parts_def)
  ultimately show ?thesis
    using length_rlp_enc_Lst_le [of "map Str parts"] by (simp del: rlp_enc.simps list.map)
qed

lemma sig_header_inject:
  assumes "header_sane h" and "header_sane g"
  shows "sig_header_rlp extraSealEd25519 h = sig_header_rlp extraSealEd25519 g \<longleftrightarrow> unsealed h = unsealed g"
proof
  obtain d n where d: "Difficulty h = Some d" "0 \<le> d" and n: "Number h = Some n" "0 \<le> n"
    using assms(1) by (auto simp: header_sane_def split: option.splits)
  obtain d' n' where d': "Difficulty g = Some d'" "0 \<le> d'" and n': "Number g = Some n'" "0 \<le> n'"
    using assms(2) by (auto simp: header_sane_def split: option.splits)
  assume "sig_header_rlp extraSealEd25519 h = sig_header_rlp extraSealEd25519 g"
  then show "unsealed h = unsealed g"
    using rlp_big_inject [OF d(2) d'(2)] rlp_big_inject [OF n(2) n'(2)]
    by (simp add: sig_header_rlp_def unsealed_def d d' n n' key_simps flip: extra_body_def)
next
  assume eq: "unsealed h = unsealed g"
  have "sig_header_rlp extraSealEd25519 x = sig_header_rlp 0 (unsealed x)" for x
    by (simp add: sig_header_rlp_def unsealed_def extra_body_def)
  then show "sig_header_rlp extraSealEd25519 h = sig_header_rlp extraSealEd25519 g" using eq by simp
qed

text \<open>
  C19. A seal covers every field of a header but two: when the hash function does not collide on the
  two encodings, two headers have the same seal hash exactly if they agree on everything except the
  seal bytes at the end of \<open>Extra\<close> and the optional \<open>BaseFee\<close>. In particular \<open>BaseFee\<close>, which is part of
  the block hash, is not covered.
\<close>

theorem SealHash_binds:
  assumes "header_sane h" and "header_sane g"
    and "no_collision kh {EncodeToBytes (sig_header_rlp extraSealEd25519 h),
           EncodeToBytes (sig_header_rlp extraSealEd25519 g)}"
  shows "SealHash kh h = SealHash kh g \<longleftrightarrow> unsealed h = unsealed g"
proof -
  let ?e = "sig_header_rlp extraSealEd25519"
  note len = sig_header_length [OF assms(1)] sig_header_length [OF assms(2)]
  have "SealHash kh h = SealHash kh g \<longleftrightarrow> EncodeToBytes (?e h) = EncodeToBytes (?e g)"
    using no_collision_eq [OF assms(3)]
    by (simp add: SealHash_def sealHashWithSealLength_def rlpHash_def)
  also have "\<dots> \<longleftrightarrow> ?e h = ?e g"
    using rlp_enc_prefix_free [of "?e h" "[]" "?e g" "[]"] len by (auto simp: EncodeToBytes_eq)
  also have "\<dots> \<longleftrightarrow> unsealed h = unsealed g" by (rule sig_header_inject [OF assms(1,2)])
  finally show ?thesis .
qed

definition example_seal_kh :: keccak where
  "example_seal_kh = key_index_hash
     [EncodeToBytes (sig_header_rlp extraSealEd25519 (example_header 1 1360)),
      EncodeToBytes (sig_header_rlp extraSealEd25519 (example_header 2 1720))]"

theorem SealHash_binds_witness:
  "SealHash example_seal_kh (example_header 1 1360) \<noteq> SealHash example_seal_kh (example_header 2 1720)"
proof -
  have "no_collision example_seal_kh
      {EncodeToBytes (sig_header_rlp extraSealEd25519 (example_header 1 1360)),
       EncodeToBytes (sig_header_rlp extraSealEd25519 (example_header 2 1720))}"
    unfolding example_seal_kh_def by (rule no_collision_key_index_hash) simp_all
  moreover have "header_sane (example_header n t)" if "0 \<le> n" "n < 2 ^ 256" for n t
    using that by (simp add: header_sane_def example_header_def)
  moreover have "Time (unsealed (example_header 1 1360)) \<noteq> Time (unsealed (example_header 2 1720))"
    by (simp add: unsealed_def)
  then have "unsealed (example_header 1 1360) \<noteq> unsealed (example_header 2 1720)" by metis
  ultimately show ?thesis using SealHash_binds by simp
qed

text \<open>
  C22. The validator list in an epoch header is read back exactly, and only canonical lists are
  read: parsing yields a list exactly when the bytes between vanity and seal are its encoding
  (with a count byte and room for a certificate once checkpoint finality is active), it is strictly
  ascending and it respects the configured maximum.
\<close>

theorem parseEpochValidators_iff:
  "parseEpochValidators extra cfg cf = Inr as \<longleftrightarrow>
    (\<exists>vanity seal qc. extra = vanity @
        (if cf then [word_of_nat (length as)] @ concat_addrs as @ qc else concat_addrs as) @ seal \<and>
      length vanity = extraVanity \<and> length seal = extraSealEd25519 \<and> list_fits cfg (length as) \<and>
      sorted_wrt (<) as \<and> (if cf then length as < 256 else True))"
proof
  assume "parseEpochValidators extra cfg cf = Inr as"
  from parse_epoch_inverse [OF this] show "\<exists>vanity seal qc. extra = vanity @
        (if cf then [word_of_nat (length as)] @ concat_addrs as @ qc else concat_addrs as) @ seal \<and>
      length vanity = extraVanity \<and> length seal = extraSealEd25519 \<and> list_fits cfg (length as) \<and>
      sorted_wrt (<) as \<and> (if cf then length as < 256 else True)"
    by (fastforce simp: epoch_middle_def)
next
  assume "\<exists>vanity seal qc. extra = vanity @
        (if cf then [word_of_nat (length as)] @ concat_addrs as @ qc else concat_addrs as) @ seal \<and>
      length vanity = extraVanity \<and> length seal = extraSealEd25519 \<and> list_fits cfg (length as) \<and>
      sorted_wrt (<) as \<and> (if cf then length as < 256 else True)"
  then obtain vanity seal qc where "extra = vanity @ epoch_middle cf as qc @ seal"
    and "length vanity = extraVanity" "length seal = extraSealEd25519" "list_fits cfg (length as)"
      "sorted_wrt (<) as" "cf \<Longrightarrow> length as < 256"
    by (auto simp: epoch_middle_def split: if_splits)
  then show "parseEpochValidators extra cfg cf = Inr as"
    using parse_epoch_middle by blast
qed

end
