(* ===== verification/AccountSigner.thy ===== *)
theory AccountSigner
  imports Params Types SysAction
begin

text \<open>
  accountsigner: the signing key an account has registered. state.go stores type and value as
  strings in 32-byte chunks of the account's own storage; crypto.go normalises them; handler.go
  is the system action that sets them. The curve libraries that parse public keys are
  parameters: \<open>curves\<close> maps a canonical signer type to the parser of its raw keys. Ed25519 keys
  are handled in the source itself.
\<close>

datatype signer_error =
    ErrUnknownSignerType
  | ErrInvalidSignerValue
  | ErrInvalidSignatureMeta
  | ErrNonZeroValue
  | ErrInvalidPayload

section \<open>Storage\<close>

definition signerExistsSlot :: "keccak \<Rightarrow> hash" where
  "signerExistsSlot kh = kh (str_bytes ''gtos.account.signer.exists'')"

definition signerTypeLenSlot :: "keccak \<Rightarrow> hash" where
  "signerTypeLenSlot kh = kh (str_bytes ''gtos.account.signer.typeLen'')"

definition signerValueLenSlot :: "keccak \<Rightarrow> hash" where
  "signerValueLenSlot kh = kh (str_bytes ''gtos.account.signer.valueLen'')"

definition signerTypeBaseSlot :: "keccak \<Rightarrow> hash" where
  "signerTypeBaseSlot kh = kh (str_bytes ''gtos.account.signer.type'')"

definition signerValueBaseSlot :: "keccak \<Rightarrow> hash" where
  "signerValueBaseSlot kh = kh (str_bytes ''gtos.account.signer.value'')"

definition chunk_key :: "hash \<Rightarrow> u64 \<Rightarrow> bytes" where
  "chunk_key base index = hash_bytes base @ [0] @ str_bytes ''chunk'' @ u64_bytes index"

definition signerChunkSlot :: "keccak \<Rightarrow> hash \<Rightarrow> u64 \<Rightarrow> hash" where
  "signerChunkSlot kh base index = kh (chunk_key base index)"

definition readBool :: "statedb \<Rightarrow> address \<Rightarrow> hash \<Rightarrow> bool" where
  "readBool db owner slot = (hash_byte31 (GetState db owner slot) \<noteq> 0)"

definition writeBool :: "statedb \<Rightarrow> address \<Rightarrow> hash \<Rightarrow> bool \<Rightarrow> statedb" where
  "writeBool db owner slot v = SetState db owner slot (hash_of_byte31 (if v then 1 else 0))"

definition readUint64 :: "statedb \<Rightarrow> address \<Rightarrow> hash \<Rightarrow> u64" where
  "readUint64 db owner slot = hash_u64 (GetState db owner slot)"

definition writeUint64 :: "statedb \<Rightarrow> address \<Rightarrow> hash \<Rightarrow> u64 \<Rightarrow> statedb" where
  "writeUint64 db owner slot n = SetState db owner slot (hash_of_u64 n)"

definition chunkCount :: "u64 \<Rightarrow> u64" where
  "chunkCount valueLen = (if valueLen = 0 then 0 else (valueLen + 32 - 1) div 32)"

text \<open>\<open>copy(word[:], b)\<close> into a zero word: the bytes at its front.\<close>

definition front_word :: "bytes \<Rightarrow> hash" where
  "front_word b = BytesToHash (take 32 b @ replicate (32 - length b) 0)"

definition readBytes :: "keccak \<Rightarrow> statedb \<Rightarrow> address \<Rightarrow> hash \<Rightarrow> u64 \<Rightarrow> bytes" where
  "readBytes kh db owner base valueLen =
     (if valueLen = 0 then []
      else concat (map (\<lambda>i.
             let word = GetState db owner (signerChunkSlot kh base (word_of_nat i));
                 start = i * 32;
                 end' = (if start + 32 > unat valueLen then unat valueLen else start + 32)
             in take (end' - start) (hash_bytes word))
           [0..<unat (chunkCount valueLen)]))"

definition writeBytes :: "keccak \<Rightarrow> statedb \<Rightarrow> address \<Rightarrow> hash \<Rightarrow> bytes \<Rightarrow> statedb" where
  "writeBytes kh db owner base value =
     fold (\<lambda>i st. SetState st owner (signerChunkSlot kh base (word_of_nat i))
             (front_word (take 32 (drop (i * 32) value))))
       [0..<unat (chunkCount (word_of_nat (length value)))] db"

definition clearBytesRemainder ::
  "keccak \<Rightarrow> statedb \<Rightarrow> address \<Rightarrow> hash \<Rightarrow> u64 \<Rightarrow> u64 \<Rightarrow> statedb" where
  "clearBytesRemainder kh db owner base fromLen toLen =
     fold (\<lambda>i st. SetState st owner (signerChunkSlot kh base (word_of_nat i)) 0)
       [unat (chunkCount toLen)..<unat (chunkCount fromLen)] db"

definition signer_Set :: "keccak \<Rightarrow> statedb \<Rightarrow> address \<Rightarrow> string \<Rightarrow> string \<Rightarrow> statedb" where
  "signer_Set kh db account signerType signerValue =
     (let oldTypeLen = readUint64 db account (signerTypeLenSlot kh);
          oldValueLen = readUint64 db account (signerValueLenSlot kh);
          typeBytes = str_bytes signerType;
          valueBytes = str_bytes signerValue;
          db = writeBytes kh db account (signerTypeBaseSlot kh) typeBytes;
          db = clearBytesRemainder kh db account (signerTypeBaseSlot kh) oldTypeLen
                 (word_of_nat (length typeBytes));
          db = writeBytes kh db account (signerValueBaseSlot kh) valueBytes;
          db = clearBytesRemainder kh db account (signerValueBaseSlot kh) oldValueLen
                 (word_of_nat (length valueBytes));
          db = writeUint64 db account (signerTypeLenSlot kh) (word_of_nat (length typeBytes));
          db = writeUint64 db account (signerValueLenSlot kh) (word_of_nat (length valueBytes))
      in writeBool db account (signerExistsSlot kh) True)"

definition bytes_str :: "bytes \<Rightarrow> string" where
  "bytes_str b = map (\<lambda>x. char_of (unat x)) b"

definition signer_Get :: "keccak \<Rightarrow> statedb \<Rightarrow> address \<Rightarrow> (string \<times> string) option" where
  "signer_Get kh db account =
     (if \<not> readBool db account (signerExistsSlot kh) then None
      else
        let typeLen = readUint64 db account (signerTypeLenSlot kh);
            valueLen = readUint64 db account (signerValueLenSlot kh);
            typeBytes = readBytes kh db account (signerTypeBaseSlot kh) typeLen;
            valueBytes = readBytes kh db account (signerValueBaseSlot kh) valueLen
        in Some (bytes_str typeBytes, bytes_str valueBytes))"

section \<open>Normalisation\<close>

type_synonym curves = "string \<Rightarrow> bytes \<Rightarrow> bytes option"

definition normalizeSignerType :: "string \<Rightarrow> signer_error + string" where
  "normalizeSignerType signerType =
     (let t = ToLower (TrimSpace signerType) in
      if t = ''secp256k1'' \<or> t = ''ethereum_secp256k1'' then Inr ''secp256k1''
      else if t = ''schnorr'' then Inr ''schnorr''
      else if t = ''secp256r1'' then Inr ''secp256r1''
      else if t = ''ed25519'' then Inr ''ed25519''
      else if t = ''bls12-381'' \<or> t = ''bls12381'' then Inr ''bls12-381''
      else if t = ''elgamal'' then Inr ''elgamal''
      else Inl ErrUnknownSignerType)"

definition hexutil_Decode :: "string \<Rightarrow> bytes option" where
  "hexutil_Decode input =
     (if length input = 0 then None
      else if \<not> (length input \<ge> 2 \<and> (take 2 input = ''0x'' \<or> take 2 input = ''0X'')) then None
      else hex_decode (drop 2 input))"

definition hexutil_Encode :: "bytes \<Rightarrow> string" where
  "hexutil_Encode b = ''0x'' @ hex_encode b"

definition MaxSignerValueLen :: nat where
  "MaxSignerValueLen = 4096"

definition NormalizeSigner ::
  "curves \<Rightarrow> string \<Rightarrow> string \<Rightarrow> signer_error + string \<times> bytes \<times> string" where
  "NormalizeSigner curves signerType signerValue =
     (case normalizeSignerType signerType of Inl e \<Rightarrow> Inl e
      | Inr normalizedType \<Rightarrow>
         (case hexutil_Decode (TrimSpace signerValue) of None \<Rightarrow> Inl ErrInvalidSignerValue
          | Some raw \<Rightarrow>
              if length raw = 0 \<or> length raw > MaxSignerValueLen then Inl ErrInvalidSignerValue
              else
                (case (if normalizedType = ''ed25519''
                       then (if length raw \<noteq> 32 then None else Some raw)
                       else curves normalizedType raw) of
                   None \<Rightarrow> Inl ErrInvalidSignerValue
                 | Some normalizedPub \<Rightarrow>
                     if length normalizedPub = 0 then Inl ErrInvalidSignerValue
                     else Inr (normalizedType, normalizedPub, hexutil_Encode normalizedPub))))"

definition AddressFromSigner :: "keccak \<Rightarrow> curves \<Rightarrow> string \<Rightarrow> bytes \<Rightarrow> signer_error + address" where
  "AddressFromSigner kh curves signerType signerPub =
     (if signerType = ''secp256k1'' then
        (if length signerPub \<noteq> 65 then Inl ErrInvalidSignerValue
         else case curves ''secp256k1'' signerPub of None \<Rightarrow> Inl ErrInvalidSignerValue
              | Some pub \<Rightarrow> Inr (kh (drop 1 pub)))
      else if signerType = ''schnorr'' then
        (case curves ''schnorr'' signerPub of None \<Rightarrow> Inl ErrInvalidSignerValue
         | Some normalized \<Rightarrow> Inr (kh normalized))
      else if signerType = ''secp256r1'' then
        (if length signerPub \<noteq> 65 \<or> signerPub ! 0 \<noteq> 4 then Inl ErrInvalidSignerValue
         else Inr (kh (drop 1 signerPub)))
      else if signerType = ''ed25519'' then
        (if length signerPub \<noteq> 32 then Inl ErrInvalidSignerValue else Inr (kh signerPub))
      else if signerType = ''bls12-381'' then
        (if length signerPub = 0 then Inl ErrInvalidSignerValue else Inr (kh signerPub))
      else if signerType = ''elgamal'' then
        (case curves ''elgamal'' signerPub of None \<Rightarrow> Inl ErrInvalidSignerValue
         | Some normalized \<Rightarrow> Inr (kh normalized))
      else Inl ErrUnknownSignerType)"

section \<open>The system action\<close>

record SetSignerPayload =
  SignerType :: string
  SignerValue :: string

definition setSigner_Handle ::
  "keccak \<Rightarrow> curves \<Rightarrow> SysContext \<Rightarrow> SetSignerPayload option \<Rightarrow> statedb \<Rightarrow> signer_error outcome" where
  "setSigner_Handle kh curves ctx payload db =
     (if Value ctx \<noteq> 0 then (db, Some ErrNonZeroValue)
      else case payload of None \<Rightarrow> (db, Some ErrInvalidPayload)
      | Some p \<Rightarrow>
         (case NormalizeSigner curves (SignerType p) (SignerValue p) of
            Inl _ \<Rightarrow> (db, Some ErrInvalidPayload)
          | Inr (normalizedType, _, normalizedValue) \<Rightarrow>
              (signer_Set kh db (From ctx) normalizedType normalizedValue, None)))"

section \<open>Signature metadata\<close>

definition signatureMetaAlgToType :: "byte \<Rightarrow> signer_error + string" where
  "signatureMetaAlgToType alg =
     (if alg = 1 then Inr ''secp256k1'' else if alg = 6 then Inr ''schnorr''
      else if alg = 2 then Inr ''secp256r1'' else if alg = 3 then Inr ''ed25519''
      else if alg = 4 then Inr ''bls12-381'' else if alg = 5 then Inr ''elgamal''
      else Inl ErrInvalidSignatureMeta)"

definition signatureTypeToMetaAlg :: "string \<Rightarrow> signer_error + byte" where
  "signatureTypeToMetaAlg t =
     (if t = ''secp256k1'' then Inr 1 else if t = ''schnorr'' then Inr 6
      else if t = ''secp256r1'' then Inr 2 else if t = ''ed25519'' then Inr 3
      else if t = ''bls12-381'' then Inr 4 else if t = ''elgamal'' then Inr 5
      else Inl ErrUnknownSignerType)"

definition signatureMetaPrefix :: bytes where
  "signatureMetaPrefix = str_bytes ''GTOSSIG1''"

definition EncodeSignatureMeta :: "curves \<Rightarrow> string \<Rightarrow> bytes \<Rightarrow> signer_error + int" where
  "EncodeSignatureMeta curves signerType signerPub =
     (case NormalizeSigner curves signerType (hexutil_Encode signerPub) of Inl e \<Rightarrow> Inl e
      | Inr (normalizedType, normalizedPub, _) \<Rightarrow>
         (case signatureTypeToMetaAlg normalizedType of Inl e \<Rightarrow> Inl e
          | Inr alg \<Rightarrow> Inr (int (be_nat (signatureMetaPrefix @ [alg] @ normalizedPub)))))"

text \<open>\<open>ok=false\<close> without an error is \<open>Inr None\<close>.\<close>

definition DecodeSignatureMeta :: "curves \<Rightarrow> int option \<Rightarrow> signer_error + (string \<times> bytes) option" where
  "DecodeSignatureMeta curves v =
     (case v of None \<Rightarrow> Inr None
      | Some x \<Rightarrow>
          let raw = big_bytes (nat \<bar>x\<bar>) in
          if length raw < length signatureMetaPrefix + 2 then Inr None
          else if take (length signatureMetaPrefix) raw \<noteq> signatureMetaPrefix then Inr None
          else
            (case signatureMetaAlgToType (raw ! length signatureMetaPrefix) of Inl e \<Rightarrow> Inl e
             | Inr typ \<Rightarrow>
                (case NormalizeSigner curves typ (hexutil_Encode (drop (length signatureMetaPrefix + 1) raw)) of
                   Inl e \<Rightarrow> Inl ErrInvalidSignatureMeta
                 | Inr (normalizedType, normalizedPub, _) \<Rightarrow> Inr (Some (normalizedType, normalizedPub)))))"


section \<open>Strings in chunks\<close>

lemma hash_bytes_front_word:
  "length b \<le> 32 \<Longrightarrow> hash_bytes (front_word b) = b @ replicate (32 - length b) 0"
  by (simp add: front_word_def hash_bytes_BytesToHash)

lemma concat_chunks:
  "concat (map (\<lambda>i. take 32 (drop (i * 32) v)) [0..<n]) = take (n * 32) v"
proof (induction n)
  case (Suc n)
  have "take (Suc n * 32) v = take (n * 32) v @ take 32 (drop (n * 32) v)"
    using take_add [of "n * 32" 32 v] by (simp add: add.commute)
  then show ?case using Suc by simp
qed simp

lemma unat_chunkCount:
  assumes "unat n + 31 < 2 ^ 64"
  shows "unat (chunkCount n) = (unat n + 31) div 32"
proof -
  have "n + 32 - 1 = n + (31 :: u64)" by simp
  moreover have "unat (n + 31) = unat n + 31"
    using assms u64_add_nowrap [of n 31] by simp
  moreover have "unat ((n + 31) div 32) = unat (n + 31) div unat (32 :: u64)"
    by (rule unat_div_distrib)
  moreover have "unat (32 :: u64) = 32" by simp
  ultimately show ?thesis unfolding chunkCount_def by (cases "n = 0") (simp_all add: add.commute [of 31 n])
qed

lemma bytes_str_str_bytes [simp]: "bytes_str (str_bytes s) = s"
proof -
  have "unat (of_char c :: byte) = of_char c" for c :: char
    using unat_of_nat_small [of "of_char c", where 'a = 8] nat_of_char_less_256 [of c]
    by (simp add: of_nat_of_char)
  then show ?thesis by (simp add: bytes_str_def str_bytes_def comp_def)
qed

lemma readBytes_chunks:
  assumes len: "length v + 31 < 2 ^ 64"
    and words: "\<And>i. i < (length v + 31) div 32 \<Longrightarrow>
      GetState db a (signerChunkSlot kh base (word_of_nat i)) = front_word (take 32 (drop (i * 32) v))"
  shows "readBytes kh db a base (word_of_nat (length v)) = v"
proof -
  let ?n = "(length v + 31) div 32"
  have L: "unat (word_of_nat (length v) :: u64) = length v"
    using len by (intro unat_of_nat_small) simp
  have n: "unat (chunkCount (word_of_nat (length v))) = ?n"
    using len by (simp add: unat_chunkCount L)
  have "v = []" if "word_of_nat (length v) = (0 :: u64)"
    using L that by (metis length_0_conv unat_0)
  moreover have "(let word = GetState db a (signerChunkSlot kh base (word_of_nat i)); start = i * 32;
        end' = (if start + 32 > unat (word_of_nat (length v) :: u64)
                then unat (word_of_nat (length v) :: u64) else start + 32)
      in take (end' - start) (hash_bytes word)) = take 32 (drop (i * 32) v)"
    if "i \<in> set [0..<?n]" for i
    using that words [of i] by (auto simp: Let_def L hash_bytes_front_word)
  then have "concat (map (\<lambda>i. let word = GetState db a (signerChunkSlot kh base (word_of_nat i)); start = i * 32;
        end' = (if start + 32 > unat (word_of_nat (length v) :: u64)
                then unat (word_of_nat (length v) :: u64) else start + 32)
      in take (end' - start) (hash_bytes word)) [0..<?n]) = v"
    by (subst map_cong [OF refl]) (assumption, simp add: concat_chunks)
  ultimately show ?thesis by (auto simp: readBytes_def n)
qed

text \<open>The keys of the slots of one account, with \<open>n\<close> chunks per string.\<close>

definition signer_names :: "bytes list" where
  "signer_names = map str_bytes [''gtos.account.signer.exists'', ''gtos.account.signer.typeLen'',
     ''gtos.account.signer.valueLen'', ''gtos.account.signer.type'', ''gtos.account.signer.value'']"

definition signer_keys :: "keccak \<Rightarrow> nat \<Rightarrow> bytes list" where
  "signer_keys kh n = signer_names @
     map (\<lambda>i. chunk_key (signerTypeBaseSlot kh) (word_of_nat i)) [0..<n] @
     map (\<lambda>i. chunk_key (signerValueBaseSlot kh) (word_of_nat i)) [0..<n]"

lemma chunk_key_inject [simp]: "chunk_key b i = chunk_key c j \<longleftrightarrow> b = c \<and> i = j"
  by (simp add: chunk_key_def key_simps)

lemma chunk_key_name [simp]: "length k \<noteq> 46 \<Longrightarrow> chunk_key b i \<noteq> k" "length k \<noteq> 46 \<Longrightarrow> k \<noteq> chunk_key b i"
  by (auto simp: chunk_key_def)

lemma signer_keys_mem:
  "i < n \<Longrightarrow> chunk_key (signerTypeBaseSlot kh) (word_of_nat i) \<in> set (signer_keys kh n)"
  "i < n \<Longrightarrow> chunk_key (signerValueBaseSlot kh) (word_of_nat i) \<in> set (signer_keys kh n)"
  "str_bytes ''gtos.account.signer.exists'' \<in> set (signer_keys kh n)"
  "str_bytes ''gtos.account.signer.typeLen'' \<in> set (signer_keys kh n)"
  "str_bytes ''gtos.account.signer.valueLen'' \<in> set (signer_keys kh n)"
  "str_bytes ''gtos.account.signer.type'' \<in> set (signer_keys kh n)"
  "str_bytes ''gtos.account.signer.value'' \<in> set (signer_keys kh n)"
  by (auto simp: signer_keys_def signer_names_def)

lemma word_of_nat_inject_u64:
  assumes "i < 2 ^ 64" and "j < 2 ^ 64"
  shows "(word_of_nat i :: u64) = word_of_nat j \<longleftrightarrow> i = j"
proof -
  have "unat (word_of_nat i :: u64) = i" and "unat (word_of_nat j :: u64) = j"
    using assms by (simp_all add: unat_of_nat_small)
  then show ?thesis by metis
qed

lemma signer_slot_eqs:
  assumes nc: "no_collision kh (set (signer_keys kh n))"
  shows "signerTypeBaseSlot kh \<noteq> signerValueBaseSlot kh"
    and "signerExistsSlot kh \<noteq> signerTypeLenSlot kh" "signerExistsSlot kh \<noteq> signerValueLenSlot kh"
    and "signerTypeLenSlot kh \<noteq> signerValueLenSlot kh"
    and "i < n \<Longrightarrow> signerChunkSlot kh (signerTypeBaseSlot kh) (word_of_nat i) \<notin>
      {signerExistsSlot kh, signerTypeLenSlot kh, signerValueLenSlot kh}"
    and "i < n \<Longrightarrow> signerChunkSlot kh (signerValueBaseSlot kh) (word_of_nat i) \<notin>
      {signerExistsSlot kh, signerTypeLenSlot kh, signerValueLenSlot kh}"
    and "i < n \<Longrightarrow> j < n \<Longrightarrow> signerChunkSlot kh (signerTypeBaseSlot kh) (word_of_nat i) \<noteq>
      signerChunkSlot kh (signerValueBaseSlot kh) (word_of_nat j)"
    and "i < n \<Longrightarrow> j < n \<Longrightarrow> n \<le> 2 ^ 64 \<Longrightarrow> signerChunkSlot kh (signerTypeBaseSlot kh) (word_of_nat i) =
      signerChunkSlot kh (signerTypeBaseSlot kh) (word_of_nat j) \<longleftrightarrow> i = j"
    and "i < n \<Longrightarrow> j < n \<Longrightarrow> n \<le> 2 ^ 64 \<Longrightarrow> signerChunkSlot kh (signerValueBaseSlot kh) (word_of_nat i) =
      signerChunkSlot kh (signerValueBaseSlot kh) (word_of_nat j) \<longleftrightarrow> i = j"
proof -
  note eq = no_collision_eq [OF nc]
  show base: "signerTypeBaseSlot kh \<noteq> signerValueBaseSlot kh"
    by (simp add: signerTypeBaseSlot_def signerValueBaseSlot_def eq signer_keys_mem key_simps)
  show "signerExistsSlot kh \<noteq> signerTypeLenSlot kh" "signerExistsSlot kh \<noteq> signerValueLenSlot kh"
    "signerTypeLenSlot kh \<noteq> signerValueLenSlot kh"
    by (simp_all add: signerExistsSlot_def signerTypeLenSlot_def signerValueLenSlot_def eq
        signer_keys_mem key_simps)
  show "i < n \<Longrightarrow> signerChunkSlot kh (signerTypeBaseSlot kh) (word_of_nat i) \<notin>
      {signerExistsSlot kh, signerTypeLenSlot kh, signerValueLenSlot kh}"
    and "i < n \<Longrightarrow> signerChunkSlot kh (signerValueBaseSlot kh) (word_of_nat i) \<notin>
      {signerExistsSlot kh, signerTypeLenSlot kh, signerValueLenSlot kh}"
    by (simp_all add: signerChunkSlot_def signerExistsSlot_def signerTypeLenSlot_def
        signerValueLenSlot_def eq signer_keys_mem)
  show "i < n \<Longrightarrow> j < n \<Longrightarrow> signerChunkSlot kh (signerTypeBaseSlot kh) (word_of_nat i) \<noteq>
      signerChunkSlot kh (signerValueBaseSlot kh) (word_of_nat j)"
    using base by (simp add: signerChunkSlot_def eq signer_keys_mem)
  show "i < n \<Longrightarrow> j < n \<Longrightarrow> n \<le> 2 ^ 64 \<Longrightarrow> signerChunkSlot kh (signerTypeBaseSlot kh) (word_of_nat i) =
      signerChunkSlot kh (signerTypeBaseSlot kh) (word_of_nat j) \<longleftrightarrow> i = j"
    and "i < n \<Longrightarrow> j < n \<Longrightarrow> n \<le> 2 ^ 64 \<Longrightarrow> signerChunkSlot kh (signerValueBaseSlot kh) (word_of_nat i) =
      signerChunkSlot kh (signerValueBaseSlot kh) (word_of_nat j) \<longleftrightarrow> i = j"
    by (simp_all add: signerChunkSlot_def eq signer_keys_mem word_of_nat_inject_u64)
qed


definition chunks_of :: "'a list \<Rightarrow> nat" where
  "chunks_of v = (length v + 31) div 32"

lemma unat_chunkCount_length:
  "length v + 31 < 2 ^ 64 \<Longrightarrow> unat (chunkCount (word_of_nat (length v))) = chunks_of v"
  using unat_of_nat_small [of "length v", where 'a = 64] by (simp add: unat_chunkCount chunks_of_def)

lemma writeBytes_miss:
  assumes "length v + 31 < 2 ^ 64" and "b \<noteq> a \<or> (\<forall>i < chunks_of v. k \<noteq> signerChunkSlot kh base (word_of_nat i))"
  shows "GetState (writeBytes kh db a base v) b k = GetState db b k"
  unfolding writeBytes_def unat_chunkCount_length [OF assms(1)]
  using assms(2) by (intro GetState_fold_miss) auto

lemma writeBytes_hit:
  assumes "length v + 31 < 2 ^ 64" and "i < chunks_of v"
    and "\<And>j. j < chunks_of v \<Longrightarrow>
      signerChunkSlot kh base (word_of_nat j) = signerChunkSlot kh base (word_of_nat i) \<Longrightarrow> j = i"
  shows "GetState (writeBytes kh db a base v) a (signerChunkSlot kh base (word_of_nat i)) =
    front_word (take 32 (drop (i * 32) v))"
  unfolding writeBytes_def unat_chunkCount_length [OF assms(1)]
  using assms(2,3) GetState_fold_hit [of i "[0..<chunks_of v]" "\<lambda>i. signerChunkSlot kh base (word_of_nat i)"]
  by simp

lemma clear_miss:
  assumes "b \<noteq> a \<or> (\<forall>i. unat (chunkCount new) \<le> i \<longrightarrow> i < unat (chunkCount old) \<longrightarrow>
    k \<noteq> signerChunkSlot kh base (word_of_nat i))"
  shows "GetState (clearBytesRemainder kh db a base old new) b k = GetState db b k"
  unfolding clearBytesRemainder_def using assms by (intro GetState_fold_miss) auto

lemma clear_hit:
  assumes "unat (chunkCount new) \<le> i" and "i < unat (chunkCount old)"
    and "\<And>j. unat (chunkCount new) \<le> j \<Longrightarrow> j < unat (chunkCount old) \<Longrightarrow>
      signerChunkSlot kh base (word_of_nat j) = signerChunkSlot kh base (word_of_nat i) \<Longrightarrow> j = i"
  shows "GetState (clearBytesRemainder kh db a base old new) a (signerChunkSlot kh base (word_of_nat i)) = 0"
  unfolding clearBytesRemainder_def
  using assms GetState_fold_hit [of i "[unat (chunkCount new)..<unat (chunkCount old)]"
      "\<lambda>i. signerChunkSlot kh base (word_of_nat i)" a "\<lambda>_. 0"]
  by simp

text \<open>Both strings and the old contents fit into \<open>n\<close> chunks.\<close>

definition signer_room :: "keccak \<Rightarrow> statedb \<Rightarrow> address \<Rightarrow> nat \<Rightarrow> string \<Rightarrow> string \<Rightarrow> bool" where
  "signer_room kh db a n t v \<longleftrightarrow> n \<le> 2 ^ 58 \<and> chunks_of t \<le> n \<and> chunks_of v \<le> n \<and>
     unat (chunkCount (readUint64 db a (signerTypeLenSlot kh))) \<le> n \<and>
     unat (chunkCount (readUint64 db a (signerValueLenSlot kh))) \<le> n"

lemma chunks_of_bound: "chunks_of v \<le> n \<Longrightarrow> n \<le> 2 ^ 58 \<Longrightarrow> length v + 31 < 2 ^ 64"
  unfolding chunks_of_def by simp

lemma chunks_of_str_bytes [simp]: "chunks_of (str_bytes s) = chunks_of s"
  by (simp add: chunks_of_def)

definition put_string :: "keccak \<Rightarrow> statedb \<Rightarrow> address \<Rightarrow> hash \<Rightarrow> u64 \<Rightarrow> bytes \<Rightarrow> statedb" where
  "put_string kh db a base old v =
     clearBytesRemainder kh (writeBytes kh db a base v) a base old (word_of_nat (length v))"

lemma put_string_miss:
  assumes "length v + 31 < 2 ^ 64" and "chunks_of v \<le> n" and "unat (chunkCount old) \<le> n"
    and "b \<noteq> a \<or> (\<forall>i < n. k \<noteq> signerChunkSlot kh base (word_of_nat i))"
  shows "GetState (put_string kh db a base old v) b k = GetState db b k"
  unfolding put_string_def using assms
  by (subst clear_miss) (auto simp: writeBytes_miss)

lemma put_string_slot:
  assumes len: "length v + 31 < 2 ^ 64" and n: "chunks_of v \<le> n" "unat (chunkCount old) \<le> n" and i: "i < n"
    and inj: "\<And>j. j < n \<Longrightarrow>
      signerChunkSlot kh base (word_of_nat j) = signerChunkSlot kh base (word_of_nat i) \<longleftrightarrow> j = i"
  shows "GetState (put_string kh db a base old v) a (signerChunkSlot kh base (word_of_nat i)) =
    (if i < chunks_of v then front_word (take 32 (drop (i * 32) v))
     else if i < unat (chunkCount old) then 0
     else GetState db a (signerChunkSlot kh base (word_of_nat i)))"
proof -
  note cnt = unat_chunkCount_length [OF len]
  have inj': "signerChunkSlot kh base (word_of_nat i) \<noteq> signerChunkSlot kh base (word_of_nat j)"
    if "j < n" "j \<noteq> i" for j using inj [OF that(1)] that(2) by metis
  show ?thesis
  proof (cases "i < chunks_of v")
    case True
    have "GetState (put_string kh db a base old v) a (signerChunkSlot kh base (word_of_nat i)) =
        GetState (writeBytes kh db a base v) a (signerChunkSlot kh base (word_of_nat i))"
      unfolding put_string_def by (intro clear_miss disjI2 allI impI inj') (use True n in \<open>auto simp: cnt\<close>)
    then show ?thesis
      using True writeBytes_hit [OF len True, of kh base db a] inj n by simp
  next
    case False
    have w: "GetState (writeBytes kh db a base v) a (signerChunkSlot kh base (word_of_nat i)) =
        GetState db a (signerChunkSlot kh base (word_of_nat i))"
      by (intro writeBytes_miss [OF len] disjI2 allI impI inj') (use False n in auto)
    show ?thesis
    proof (cases "i < unat (chunkCount old)")
      case True
      then show ?thesis
        unfolding put_string_def using False n inj by (subst clear_hit) (auto simp: cnt)
    next
      case old: False
      have "GetState (put_string kh db a base old v) a (signerChunkSlot kh base (word_of_nat i)) =
          GetState (writeBytes kh db a base v) a (signerChunkSlot kh base (word_of_nat i))"
        unfolding put_string_def by (intro clear_miss disjI2 allI impI inj') (use old n in auto)
      then show ?thesis using False old w by simp
    qed
  qed
qed

lemma signer_Set_eq:
  "signer_Set kh db a t v =
    writeBool (writeUint64 (writeUint64
      (put_string kh (put_string kh db a (signerTypeBaseSlot kh)
           (readUint64 db a (signerTypeLenSlot kh)) (str_bytes t))
         a (signerValueBaseSlot kh) (readUint64 db a (signerValueLenSlot kh)) (str_bytes v))
      a (signerTypeLenSlot kh) (word_of_nat (length t)))
      a (signerValueLenSlot kh) (word_of_nat (length v))) a (signerExistsSlot kh) True"
  by (simp add: signer_Set_def put_string_def Let_def)

lemma signer_Set_chunks:
  assumes nc: "no_collision kh (set (signer_keys kh n))" and room: "signer_room kh db a n t v"
    and i: "i < n"
  shows "GetState (signer_Set kh db a t v) a (signerChunkSlot kh (signerTypeBaseSlot kh) (word_of_nat i)) =
      (if i < chunks_of t then front_word (take 32 (drop (i * 32) (str_bytes t)))
       else if i < unat (chunkCount (readUint64 db a (signerTypeLenSlot kh))) then 0
       else GetState db a (signerChunkSlot kh (signerTypeBaseSlot kh) (word_of_nat i)))" (is ?T)
    and "GetState (signer_Set kh db a t v) a (signerChunkSlot kh (signerValueBaseSlot kh) (word_of_nat i)) =
      (if i < chunks_of v then front_word (take 32 (drop (i * 32) (str_bytes v)))
       else if i < unat (chunkCount (readUint64 db a (signerValueLenSlot kh))) then 0
       else GetState db a (signerChunkSlot kh (signerValueBaseSlot kh) (word_of_nat i)))" (is ?V)
proof -
  have n: "n \<le> 2 ^ 58" "n \<le> 2 ^ 64" and c: "chunks_of (str_bytes t) \<le> n" "chunks_of (str_bytes v) \<le> n"
    and o: "unat (chunkCount (readUint64 db a (signerTypeLenSlot kh))) \<le> n"
      "unat (chunkCount (readUint64 db a (signerValueLenSlot kh))) \<le> n"
    using room by (auto simp: signer_room_def)
  note eqs = signer_slot_eqs [OF nc]
  note lt = chunks_of_bound [OF c(1) n(1)] and lv = chunks_of_bound [OF c(2) n(1)]
  show ?T
    using eqs(5,7) [OF i] put_string_miss [OF lv c(2) o(2)]
      put_string_slot [OF lt c(1) o(1) i eqs(8) [OF _ i n(2)]]
    by (simp add: signer_Set_eq writeBool_def writeUint64_def GetState_SetState)
  have "GetState (put_string kh db a (signerTypeBaseSlot kh) (readUint64 db a (signerTypeLenSlot kh))
      (str_bytes t)) a (signerChunkSlot kh (signerValueBaseSlot kh) (word_of_nat i)) =
    GetState db a (signerChunkSlot kh (signerValueBaseSlot kh) (word_of_nat i))"
    using eqs(7) [OF _ i] by (intro put_string_miss [OF lt c(1) o(1)] disjI2) metis
  then show ?V
    using eqs(6) [OF i] put_string_slot [OF lv c(2) o(2) i eqs(9) [OF _ i n(2)]]
    by (simp add: signer_Set_eq writeBool_def writeUint64_def GetState_SetState)
qed


lemma signer_Set_frame:
  assumes "n \<le> 2 ^ 58" and "chunks_of t \<le> n" and "chunks_of v \<le> n" and "b \<noteq> a"
  shows "GetState (signer_Set kh db a t v) b k = GetState db b k"
proof -
  have len: "length (str_bytes t) + 31 < 2 ^ 64" "length (str_bytes v) + 31 < 2 ^ 64"
    using chunks_of_bound [OF assms(2,1)] chunks_of_bound [OF assms(3,1)] by simp_all
  have "GetState (put_string kh db' a base old w) b k = GetState db' b k"
    if "length w + 31 < 2 ^ 64" for db' base old w
    using put_string_miss [OF that max.cobounded1 max.cobounded2] assms(4) by blast
  with len assms(4) show ?thesis
    by (simp add: signer_Set_eq writeBool_def writeUint64_def GetState_SetState)
qed

lemma signer_Get_Set:
  assumes nc: "no_collision kh (set (signer_keys kh n))" and room: "signer_room kh db a n t v"
  shows "signer_Get kh (signer_Set kh db a t v) a = Some (t, v)"
proof -
  let ?db = "signer_Set kh db a t v"
  have n: "n \<le> 2 ^ 58" and c: "chunks_of (str_bytes t) \<le> n" "chunks_of (str_bytes v) \<le> n"
    using room by (auto simp: signer_room_def)
  note lens = chunks_of_bound [OF c(1) n] chunks_of_bound [OF c(2) n]
  note eqs = signer_slot_eqs [OF nc]
  have lenT: "readUint64 ?db a (signerTypeLenSlot kh) = word_of_nat (length (str_bytes t))"
    and lenV: "readUint64 ?db a (signerValueLenSlot kh) = word_of_nat (length (str_bytes v))"
    and ex: "readBool ?db a (signerExistsSlot kh)"
    using eqs(2-4) eqs(2-4) [symmetric]
    by (simp_all add: signer_Set_eq readUint64_def readBool_def writeBool_def writeUint64_def GetState_SetState)
  have "readBytes kh ?db a (signerTypeBaseSlot kh) (word_of_nat (length (str_bytes t))) = str_bytes t"
    using signer_Set_chunks(1) [OF nc room] c(1)
    by (intro readBytes_chunks [OF lens(1)]) (simp add: chunks_of_def)
  moreover have "readBytes kh ?db a (signerValueBaseSlot kh) (word_of_nat (length (str_bytes v))) = str_bytes v"
    using signer_Set_chunks(2) [OF nc room] c(2)
    by (intro readBytes_chunks [OF lens(2)]) (simp add: chunks_of_def)
  ultimately show ?thesis
    by (simp only: signer_Get_def ex lenT lenV Let_def bytes_str_str_bytes simp_thms if_False)
qed

section \<open>Normalisation is stable\<close>

lemma normalizeSignerType_idem:
  "normalizeSignerType s = Inr t \<Longrightarrow> normalizeSignerType t = Inr t"
proof -
  assume "normalizeSignerType s = Inr t"
  then have "t \<in> {''secp256k1'', ''schnorr'', ''secp256r1'', ''ed25519'', ''bls12-381'', ''elgamal''}"
    by (auto simp: normalizeSignerType_def Let_def split: if_splits)
  then show ?thesis
    by (elim insertE) (simp_all add: normalizeSignerType_def TrimSpace_def ToLower_def is_space_def
        to_lower_char_def)
qed

lemma TrimSpace_hexutil_Encode [simp]: "TrimSpace (hexutil_Encode b) = hexutil_Encode b"
proof -
  have digit: "\<not> is_space (hex_digit n)" if "n < 16" for n
    using that by (auto simp: is_space_def hex_digit_def)
  have "\<not> is_space c" if "c \<in> set (hexutil_Encode b)" for c
    using that unat_byte_less digit
    by (auto simp: hexutil_Encode_def hex_encode_def is_space_def [of "CHR ''0''"] is_space_def [of "CHR ''x''"]
        less_mult_imp_div_less)
  then show ?thesis
    unfolding TrimSpace_def by (metis dropWhile_eq_self_iff hd_in_set rev_is_Nil_conv rev_rev_ident set_rev)
qed

lemma length_hex_encode: "length (hex_encode b) = 2 * length b"
  by (induction b) (simp_all add: hex_encode_def)

lemma hexutil_Decode_Encode [simp]: "hexutil_Decode (hexutil_Encode b) = Some b"
  by (simp add: hexutil_Decode_def hexutil_Encode_def hex_decode_encode)

text \<open>What the curve libraries promise: a normalised key is its own normal form.\<close>

definition curves_stable :: "curves \<Rightarrow> bool" where
  "curves_stable curves \<longleftrightarrow> (\<forall>t raw p. curves t raw = Some p \<longrightarrow> curves t p = Some p \<and> length p \<le> MaxSignerValueLen)"

lemma NormalizeSigner_stable:
  assumes "curves_stable curves" and "NormalizeSigner curves s x = Inr (t, p, v)"
  shows "NormalizeSigner curves t v = Inr (t, p, v)" and "v = hexutil_Encode p" and "length p \<le> MaxSignerValueLen"
proof -
  have st: "curves t p = Some p" "length p \<le> 4096" if "curves t raw = Some p" for t raw p
    using assms(1) that by (auto simp: curves_stable_def MaxSignerValueLen_def)
  show "NormalizeSigner curves t v = Inr (t, p, v)" "v = hexutil_Encode p" "length p \<le> MaxSignerValueLen"
    using assms(2) normalizeSignerType_idem [of s t]
    by (auto simp: NormalizeSigner_def MaxSignerValueLen_def dest: st
        split: sum.splits option.splits if_splits)
qed




definition example_signer_kh :: keccak where
  "example_signer_kh = key_index_hash (signer_names @
     map (\<lambda>i. chunk_key 3 (word_of_nat i)) [0..<257] @ map (\<lambda>i. chunk_key 4 (word_of_nat i)) [0..<257])"

lemma example_signer_bases:
  "signerTypeBaseSlot example_signer_kh = 3" "signerValueBaseSlot example_signer_kh = 4"
  by (simp_all add: signerTypeBaseSlot_def signerValueBaseSlot_def example_signer_kh_def
      key_index_hash_def signer_names_def key_simps)

lemma example_signer_no_collision: "no_collision example_signer_kh (set (signer_keys example_signer_kh 257))"
  unfolding signer_keys_def example_signer_bases unfolding example_signer_kh_def
  by (rule no_collision_key_index_hash) (simp_all add: signer_names_def)

definition example_signer_ctx :: SysContext where
  "example_signer_ctx = \<lparr>From = 7, Value = 0, BlockNumber = Some 1, CtxChainConfig = None\<rparr>"

definition example_signer_payload :: SetSignerPayload where
  "example_signer_payload = \<lparr>SignerType = '' ED25519 '', SignerValue = hexutil_Encode (replicate 32 171)\<rparr>"


text \<open>
  C37. The signer metadata carried in a transaction's \<open>V\<close> field survives encoding: decoding an encoded
  pair of type and key returns the normalised type and key.
\<close>

theorem SignatureMeta_roundtrip:
  assumes "curves_stable curves" and "EncodeSignatureMeta curves signerType pub = Inr m"
  shows "\<exists>t p v. NormalizeSigner curves signerType (hexutil_Encode pub) = Inr (t, p, v) \<and>
    DecodeSignatureMeta curves (Some m) = Inr (Some (t, p))"
proof -
  obtain t p v alg where norm: "NormalizeSigner curves signerType (hexutil_Encode pub) = Inr (t, p, v)"
    and alg: "signatureTypeToMetaAlg t = Inr alg"
    and m: "m = int (be_nat (signatureMetaPrefix @ [alg] @ p))"
    using assms(2) by (auto simp: EncodeSignatureMeta_def split: sum.splits)
  let ?raw = "signatureMetaPrefix @ [alg] @ p"
  have pre: "signatureMetaPrefix \<noteq> []" "hd signatureMetaPrefix \<noteq> 0" "length signatureMetaPrefix = 8"
    by (simp_all add: signatureMetaPrefix_def str_bytes_def)
  have len: "be_len (be_nat ?raw) = length ?raw" using pre by (intro be_len_be_nat) simp_all
  then have "be_nat ?raw \<noteq> 0" using pre(3) be_len.simps [of 0] by (intro notI) simp
  then have raw: "big_bytes (be_nat ?raw) = ?raw"
    unfolding big_bytes_def len using be_bytes_be_nat [of ?raw] by simp
  have "p \<noteq> []" using norm by (auto simp: NormalizeSigner_def split: sum.splits option.splits if_splits)
  moreover have "signatureMetaAlgToType alg = Inr t"
    using alg by (auto simp: signatureTypeToMetaAlg_def signatureMetaAlgToType_def split: if_splits)
  moreover note NormalizeSigner_stable [OF assms(1) norm]
  ultimately have "DecodeSignatureMeta curves (Some m) = Inr (Some (t, p))"
    using pre raw by (cases p) (simp_all add: DecodeSignatureMeta_def m Let_def nth_append)
  with norm show ?thesis by blast
qed

theorem SignatureMeta_roundtrip_witness:
  "\<exists>m. EncodeSignatureMeta (\<lambda>_ _. None) ''ed25519'' (replicate 32 9) = Inr m \<and>
    DecodeSignatureMeta (\<lambda>_ _. None) (Some m) = Inr (Some (''ed25519'', replicate 32 9))"
proof -
  have type: "normalizeSignerType ''ed25519'' = Inr ''ed25519''"
    by (simp add: normalizeSignerType_def TrimSpace_def ToLower_def is_space_def to_lower_char_def)
  have norm: "NormalizeSigner (\<lambda>_ _. None) ''ed25519'' (hexutil_Encode (replicate 32 9)) =
      Inr (''ed25519'', replicate 32 9, hexutil_Encode (replicate 32 9))"
    unfolding NormalizeSigner_def type by (simp add: MaxSignerValueLen_def)
  then have "\<exists>m. EncodeSignatureMeta (\<lambda>_ _. None) ''ed25519'' (replicate 32 9) = Inr m"
    by (simp add: EncodeSignatureMeta_def signatureTypeToMetaAlg_def)
  moreover have "curves_stable (\<lambda>_ _. None)" by (simp add: curves_stable_def)
  ultimately show ?thesis using SignatureMeta_roundtrip norm by fastforce
qed

end
