(* ===== verification/Checkpoint.thy ===== *)
theory Checkpoint
  imports Snapshot AccountSigner
begin

text \<open>
  consensus/dpos: the parts of checkpoint finality that need no chain access. The vote pool
  (finality_pool.go), the quorum size, the signer set bound by a vote (signer_set.go) and the durable
  record of signed checkpoints (signed_checkpoints.go). The pool's nested Go map is an association
  list of association lists, read in list order where Go reads in an unspecified order; the
  refinement below shows that no result depends on it.
\<close>

section \<open>The vote pool\<close>

record checkpointKey =
  ck_Number :: u64
  ck_Hash :: hash

type_synonym signer_map = "(address \<times> CheckpointVoteEnvelope) list"

record checkpointVotePool =
  votes :: "(checkpointKey \<times> signer_map) list"
  equivocations :: "u64 \<Rightarrow> CheckpointVoteEnvelope list"
  pending :: "u64 \<Rightarrow> CheckpointVoteEnvelope list"

definition newCheckpointVotePool :: checkpointVotePool where
  "newCheckpointVotePool = \<lparr>votes = [], equivocations = (\<lambda>_. []), pending = (\<lambda>_. [])\<rparr>"

definition voted_at :: "u64 \<Rightarrow> address \<Rightarrow> checkpointKey \<times> signer_map \<Rightarrow> bool" where
  "voted_at number signer = (\<lambda>(key, m). ck_Number key = number \<and> map_of m signer \<noteq> None)"

definition AddVote :: "checkpointVotePool \<Rightarrow> CheckpointVoteEnvelope \<Rightarrow> checkpointVotePool \<times> bool \<times> bool" where
  "AddVote p env =
     (let number = vote_Number (env_Vote env);
          hash = vote_Hash (env_Vote env);
          signer = env_Signer env;
          key = \<lparr>ck_Number = number, ck_Hash = hash\<rparr>
      in case find (voted_at number signer) (votes p) of
           Some (existingKey, _) \<Rightarrow>
             if ck_Hash existingKey = hash then (p, False, False)
             else (p\<lparr>equivocations := (equivocations p)(number := equivocations p number @ [env])\<rparr>,
                   False, True)
         | None \<Rightarrow>
             let m = (case map_of (votes p) key of None \<Rightarrow> [] | Some m \<Rightarrow> m)
             in (p\<lparr>votes := AList.update key (AList.update signer env m) (votes p)\<rparr>, True, False))"

definition ExistingVote :: "checkpointVotePool \<Rightarrow> u64 \<Rightarrow> address \<Rightarrow> CheckpointVoteEnvelope option" where
  "ExistingVote p number signer =
     (case find (voted_at number signer) (votes p) of
        None \<Rightarrow> None
      | Some (_, m) \<Rightarrow> map_of m signer)"

definition maxPendingPerCheckpoint :: nat where
  "maxPendingPerCheckpoint = 50"

definition AddPending :: "checkpointVotePool \<Rightarrow> CheckpointVoteEnvelope \<Rightarrow> checkpointVotePool" where
  "AddPending p env =
     (let number = vote_Number (env_Vote env); existing = pending p number in
      if \<exists>e \<in> set existing. env_Signer e = env_Signer env then p
      else if length existing \<ge> maxPendingPerCheckpoint then p
      else p\<lparr>pending := (pending p)(number := existing @ [env])\<rparr>)"

definition DrainPending :: "checkpointVotePool \<Rightarrow> u64 \<Rightarrow> checkpointVotePool \<times> CheckpointVoteEnvelope list" where
  "DrainPending p number = (p\<lparr>pending := (pending p)(number := [])\<rparr>, pending p number)"

definition GetVotes :: "checkpointVotePool \<Rightarrow> u64 \<Rightarrow> hash \<Rightarrow> CheckpointVoteEnvelope list" where
  "GetVotes p number hash =
     (case map_of (votes p) \<lparr>ck_Number = number, ck_Hash = hash\<rparr> of
        None \<Rightarrow> [] | Some m \<Rightarrow> map snd m)"

definition VoteCount :: "checkpointVotePool \<Rightarrow> u64 \<Rightarrow> hash \<Rightarrow> nat" where
  "VoteCount p number hash =
     (case map_of (votes p) \<lparr>ck_Number = number, ck_Hash = hash\<rparr> of
        None \<Rightarrow> 0 | Some m \<Rightarrow> length m)"

definition window_floor :: "u64 \<Rightarrow> u64 \<Rightarrow> u64" where
  "window_floor currentHead checkpointInterval =
     (if checkpointInterval > 0 \<and> currentHead > 2 * checkpointInterval
      then currentHead - 2 * checkpointInterval else 0)"

definition Prune :: "checkpointVotePool \<Rightarrow> u64 \<Rightarrow> u64 \<Rightarrow> u64 \<Rightarrow> checkpointVotePool" where
  "Prune p finalizedNumber currentHead checkpointInterval =
     (let windowFloor = window_floor currentHead checkpointInterval;
          stale = (\<lambda>number. number \<le> finalizedNumber \<or> number \<le> windowFloor)
      in \<lparr>votes = filter (\<lambda>(key, m). \<not> stale (ck_Number key)) (votes p),
          equivocations = (\<lambda>number. if stale number then [] else equivocations p number),
          pending = (\<lambda>number. if stale number then [] else pending p number)\<rparr>)"

section \<open>Quorums\<close>

definition Quorum :: "int \<Rightarrow> int" where
  "Quorum n = (if n \<le> 0 then 1 else (2 * n + 2) div 3)"

definition bits_of :: "u64 \<Rightarrow> nat list" where
  "bits_of bitmap = filter (bit bitmap) [0..<64]"

definition BitmapPopcount :: "u64 \<Rightarrow> nat" where
  "BitmapPopcount bitmap = length (bits_of bitmap)"

section \<open>Signer sets\<close>

record ValidatorSigner =
  vs_Address :: address
  vs_SignerType :: string
  vs_SignerPub :: bytes

definition load_signer :: "keccak \<Rightarrow> curves \<Rightarrow> statedb \<Rightarrow> address \<Rightarrow> dpos_error + ValidatorSigner" where
  "load_signer kh curves state addr =
     (case signer_Get kh state addr of None \<Rightarrow> Inl errNoSignerMetadata
      | Some (signerType, signerValue) \<Rightarrow>
         (case NormalizeSigner curves signerType signerValue of
            Inl _ \<Rightarrow> Inl errSignerNormalize
          | Inr (normalizedType, normalizedPub, _) \<Rightarrow>
              if normalizedType \<noteq> ''ed25519'' then Inl errSignerMismatch
              else
                (case AddressFromSigner kh curves normalizedType normalizedPub of
                   Inl _ \<Rightarrow> Inl errSignerNormalize
                 | Inr derived \<Rightarrow>
                     if derived \<noteq> addr then Inl errSignerMismatch
                     else Inr \<lparr>vs_Address = addr, vs_SignerType = normalizedType,
                               vs_SignerPub = normalizedPub\<rparr>)))"

fun load_signers :: "keccak \<Rightarrow> curves \<Rightarrow> statedb \<Rightarrow> address list \<Rightarrow> dpos_error + ValidatorSigner list" where
  "load_signers kh curves state [] = Inr []"
| "load_signers kh curves state (addr # addrs) =
     (case load_signer kh curves state addr of Inl e \<Rightarrow> Inl e
      | Inr s \<Rightarrow> (case load_signers kh curves state addrs of Inl e \<Rightarrow> Inl e | Inr ss \<Rightarrow> Inr (s # ss)))"

definition signer_before :: "ValidatorSigner \<Rightarrow> ValidatorSigner \<Rightarrow> bool" where
  "signer_before a b = (bytes_compare (addr_bytes (vs_Address a)) (addr_bytes (vs_Address b)) < 0)"

definition loadSignerSet ::
  "keccak \<Rightarrow> curves \<Rightarrow> Snapshot option \<Rightarrow> statedb \<Rightarrow> dpos_error + ValidatorSigner list" where
  "loadSignerSet kh curves snap state =
     (case snap of None \<Rightarrow> Inl errEmptyValidatorSet
      | Some s \<Rightarrow>
          if length (Validators s) = 0 then Inl errEmptyValidatorSet
          else (case load_signers kh curves state (Validators s) of Inl e \<Rightarrow> Inl e
                | Inr signers \<Rightarrow> Inr (sort_by signer_before signers)))"

definition signer_rlp :: "ValidatorSigner \<Rightarrow> rlp" where
  "signer_rlp s = Lst [Str (addr_bytes (vs_Address s)), Str (str_bytes (vs_SignerType s)), Str (vs_SignerPub s)]"

definition computeValidatorSetHash :: "keccak \<Rightarrow> ValidatorSigner list \<Rightarrow> hash" where
  "computeValidatorSetHash kh signers = kh (EncodeToBytes (Lst (map signer_rlp signers)))"

section \<open>Signed checkpoints\<close>

type_synonym kvstore = "(bytes \<times> bytes) list"

definition signedCheckpointKeyPrefix :: bytes where
  "signedCheckpointKeyPrefix = str_bytes ''dpos-signed-cp-''"

definition signedCheckpointKey :: "u64 \<Rightarrow> bytes" where
  "signedCheckpointKey number = signedCheckpointKeyPrefix @ u64_bytes number"

definition ReadSignedCheckpoint :: "kvstore \<Rightarrow> u64 \<Rightarrow> hash option" where
  "ReadSignedCheckpoint db number =
     (case map_of db (signedCheckpointKey number) of None \<Rightarrow> None
      | Some val \<Rightarrow> if length val \<noteq> 32 then None else Some (BytesToHash val))"

definition WriteSignedCheckpoint :: "kvstore \<Rightarrow> u64 \<Rightarrow> hash \<Rightarrow> kvstore" where
  "WriteSignedCheckpoint db number hash = AList.update (signedCheckpointKey number) (hash_bytes hash) db"

text \<open>An iterator visits the keys with the prefix in ascending byte order.\<close>

definition kv_before :: "bytes \<times> bytes \<Rightarrow> bytes \<times> bytes \<Rightarrow> bool" where
  "kv_before x y = (bytes_compare (fst x) (fst y) < 0)"

definition kv_iterate :: "kvstore \<Rightarrow> bytes \<Rightarrow> (bytes \<times> bytes) list" where
  "kv_iterate db pfx = sort_by kv_before (filter (\<lambda>(k, v). take (length pfx) k = pfx) db)"

definition ListUnsettledSignedCheckpoints :: "kvstore \<Rightarrow> u64 \<Rightarrow> (u64 \<times> hash) list" where
  "ListUnsettledSignedCheckpoints db finalizedNumber =
     concat (map (\<lambda>(key, val).
         if length key < length signedCheckpointKeyPrefix + 8 then []
         else
           let number = word_of_nat (be_nat (take 8 (drop (length signedCheckpointKeyPrefix) key))) in
           if number \<le> finalizedNumber then []
           else if length val \<noteq> 32 then []
           else [(number, BytesToHash val)])
       (kv_iterate db signedCheckpointKeyPrefix))"


section \<open>The pool as a map of first votes\<close>

definition pool_vote :: "checkpointVotePool \<Rightarrow> checkpointKey \<Rightarrow> address \<Rightarrow> CheckpointVoteEnvelope option" where
  "pool_vote p key a = (case map_of (votes p) key of None \<Rightarrow> None | Some m \<Rightarrow> map_of m a)"

definition votes_ok :: "(checkpointKey \<times> signer_map) list \<Rightarrow> bool" where
  "votes_ok vs \<longleftrightarrow> distinct (map fst vs) \<and>
     (\<forall>(key, m) \<in> set vs. m \<noteq> [] \<and> distinct (map fst m) \<and>
        (\<forall>(a, e) \<in> set m. env_Signer e = a \<and> vote_Number (env_Vote e) = ck_Number key \<and>
           vote_Hash (env_Vote e) = ck_Hash key))"

definition one_vote :: "checkpointVotePool \<Rightarrow> bool" where
  "one_vote p \<longleftrightarrow> (\<forall>key key' a. pool_vote p key a \<noteq> None \<and> pool_vote p key' a \<noteq> None \<and>
     ck_Number key = ck_Number key' \<longrightarrow> key = key')"

definition equivocations_ok :: "checkpointVotePool \<Rightarrow> bool" where
  "equivocations_ok p \<longleftrightarrow> (\<forall>n. \<forall>e \<in> set (equivocations p n). vote_Number (env_Vote e) = n \<and>
     (\<exists>prev. ExistingVote p n (env_Signer e) = Some prev \<and>
        vote_Hash (env_Vote prev) \<noteq> vote_Hash (env_Vote e)))"

definition pending_ok :: "checkpointVotePool \<Rightarrow> bool" where
  "pending_ok p \<longleftrightarrow> (\<forall>n. length (pending p n) \<le> maxPendingPerCheckpoint \<and>
     distinct (map env_Signer (pending p n)) \<and> (\<forall>e \<in> set (pending p n). vote_Number (env_Vote e) = n))"

definition pool_ok :: "checkpointVotePool \<Rightarrow> bool" where
  "pool_ok p \<longleftrightarrow> votes_ok (votes p) \<and> one_vote p \<and> equivocations_ok p \<and> pending_ok p"

lemma pool_vote_entry:
  assumes "votes_ok (votes p)" and "pool_vote p key a = Some e"
  shows "env_Signer e = a" "vote_Number (env_Vote e) = ck_Number key" "vote_Hash (env_Vote e) = ck_Hash key"
proof -
  obtain m where m: "map_of (votes p) key = Some m" "map_of m a = Some e"
    using assms(2) by (auto simp: pool_vote_def split: option.splits)
  then have "(key, m) \<in> set (votes p)" "(a, e) \<in> set m" by (auto dest: map_of_SomeD)
  then show "env_Signer e = a" "vote_Number (env_Vote e) = ck_Number key" "vote_Hash (env_Vote e) = ck_Hash key"
    using assms(1) unfolding votes_ok_def by fastforce+
qed

lemma find_voted:
  assumes "votes_ok (votes p)" and "find (voted_at n a) (votes p) = Some (key, m)"
  shows "ck_Number key = n" and "pool_vote p key a = map_of m a" and "map_of m a \<noteq> None"
proof -
  from assms(2) have mem: "(key, m) \<in> set (votes p)" and v: "voted_at n a (key, m)"
    by (auto simp: find_Some_iff in_set_conv_nth)
  then have "map_of (votes p) key = Some m" using assms(1) by (simp add: votes_ok_def)
  with v show "ck_Number key = n" "pool_vote p key a = map_of m a" "map_of m a \<noteq> None"
    by (auto simp: voted_at_def pool_vote_def)
qed

lemma ExistingVote_iff:
  assumes "votes_ok (votes p)" and "one_vote p"
  shows "ExistingVote p n a = Some e \<longleftrightarrow> (\<exists>key. ck_Number key = n \<and> pool_vote p key a = Some e)"
proof
  assume "ExistingVote p n a = Some e"
  then obtain key m where "find (voted_at n a) (votes p) = Some (key, m)" "map_of m a = Some e"
    by (auto simp: ExistingVote_def split: option.splits)
  then show "\<exists>key. ck_Number key = n \<and> pool_vote p key a = Some e"
    using find_voted [OF assms(1)] by metis
next
  assume "\<exists>key. ck_Number key = n \<and> pool_vote p key a = Some e"
  then obtain key where key: "ck_Number key = n" "pool_vote p key a = Some e" by blast
  then obtain m where m: "(key, m) \<in> set (votes p)" "map_of m a = Some e"
    by (auto simp: pool_vote_def split: option.splits dest: map_of_SomeD)
  then have "find (voted_at n a) (votes p) \<noteq> None"
    using key(1) by (auto simp: find_None_iff voted_at_def)
  then obtain key' m' where f: "find (voted_at n a) (votes p) = Some (key', m')" by fastforce
  note f' = find_voted [OF assms(1) f]
  have "key' = key"
    using assms(2) key f' unfolding one_vote_def by (metis option.distinct(1))
  then show "ExistingVote p n a = Some e"
    using f f'(2) key(2) by (simp add: ExistingVote_def)
qed

lemma ExistingVote_None:
  assumes "votes_ok (votes p)"
  shows "ExistingVote p n a = None \<longleftrightarrow> find (voted_at n a) (votes p) = None"
  using find_voted [OF assms] by (auto simp: ExistingVote_def split: option.splits)


lemma option_eqI_Some: "(\<And>e. x = Some e \<longleftrightarrow> y = Some e) \<Longrightarrow> x = y"
  by (metis not_Some_eq)

lemma distinct_ball_map_of:
  "distinct (map fst xs) \<Longrightarrow> (\<forall>(k, v) \<in> set xs. P k v) \<longleftrightarrow> (\<forall>k v. map_of xs k = Some v \<longrightarrow> P k v)"
  by (auto dest: map_of_SomeD)

definition entry_ok :: "checkpointKey \<Rightarrow> signer_map \<Rightarrow> bool" where
  "entry_ok key m \<longleftrightarrow> m \<noteq> [] \<and> distinct (map fst m) \<and>
     (\<forall>a e. map_of m a = Some e \<longrightarrow> env_Signer e = a \<and> vote_Number (env_Vote e) = ck_Number key \<and>
        vote_Hash (env_Vote e) = ck_Hash key)"

lemma votes_ok_iff:
  "votes_ok vs \<longleftrightarrow> distinct (map fst vs) \<and> (\<forall>key m. map_of vs key = Some m \<longrightarrow> entry_ok key m)"
proof -
  have "(m \<noteq> [] \<and> distinct (map fst m) \<and>
        (\<forall>(a, e) \<in> set m. env_Signer e = a \<and> vote_Number (env_Vote e) = ck_Number key \<and>
           vote_Hash (env_Vote e) = ck_Hash key)) = entry_ok key m" for key m
    unfolding entry_ok_def by (cases "distinct (map fst m)") (simp_all add: distinct_ball_map_of)
  then have "votes_ok vs \<longleftrightarrow> distinct (map fst vs) \<and> (\<forall>(key, m) \<in> set vs. entry_ok key m)"
    unfolding votes_ok_def by (simp only:)
  then show ?thesis
    by (cases "distinct (map fst vs)") (simp_all add: distinct_ball_map_of)
qed

abbreviation env_key :: "CheckpointVoteEnvelope \<Rightarrow> checkpointKey" where
  "env_key env \<equiv> \<lparr>ck_Number = vote_Number (env_Vote env), ck_Hash = vote_Hash (env_Vote env)\<rparr>"

definition insert_vote :: "checkpointVotePool \<Rightarrow> CheckpointVoteEnvelope \<Rightarrow> checkpointVotePool" where
  "insert_vote p env = p\<lparr>votes := AList.update (env_key env)
     (AList.update (env_Signer env) env (case map_of (votes p) (env_key env) of None \<Rightarrow> [] | Some m \<Rightarrow> m))
     (votes p)\<rparr>"

lemma AddVote_cases:
  assumes "votes_ok (votes p)"
  shows "AddVote p env =
    (case ExistingVote p (vote_Number (env_Vote env)) (env_Signer env) of
       None \<Rightarrow> (insert_vote p env, True, False)
     | Some prev \<Rightarrow>
         if vote_Hash (env_Vote prev) = vote_Hash (env_Vote env) then (p, False, False)
         else (p\<lparr>equivocations := (equivocations p)(vote_Number (env_Vote env) :=
                   equivocations p (vote_Number (env_Vote env)) @ [env])\<rparr>, False, True))"
proof (cases "find (voted_at (vote_Number (env_Vote env)) (env_Signer env)) (votes p)")
  case None
  then show ?thesis by (simp add: AddVote_def ExistingVote_def insert_vote_def Let_def)
next
  case (Some km)
  obtain key m where km: "km = (key, m)" by (cases km)
  note f = find_voted [OF assms Some [unfolded km]]
  then obtain prev where prev: "map_of m (env_Signer env) = Some prev" by blast
  have "vote_Hash (env_Vote prev) = ck_Hash key"
    using pool_vote_entry(3) [OF assms] f(2) prev by metis
  then show ?thesis using Some km prev by (simp add: AddVote_def ExistingVote_def Let_def)
qed

lemma pool_vote_insert:
  "pool_vote (insert_vote p env) key a =
    (if key = env_key env \<and> a = env_Signer env then Some env else pool_vote p key a)"
  by (auto simp: pool_vote_def insert_vote_def update_conv' split: option.splits)

lemma entry_ok_update:
  assumes "entry_ok (env_key env) m \<or> m = []"
  shows "entry_ok (env_key env) (AList.update (env_Signer env) env m)"
  using assms by (auto simp: entry_ok_def update_conv' update_nonempty distinct_update split: if_splits)

lemma votes_ok_insert: "votes_ok (votes p) \<Longrightarrow> votes_ok (votes (insert_vote p env))"
  unfolding votes_ok_iff insert_vote_def
  by (auto simp: update_conv' distinct_update entry_ok_update split: option.splits if_splits)

lemma insert_vote_ok:
  assumes ok: "pool_ok p" and new: "ExistingVote p (vote_Number (env_Vote env)) (env_Signer env) = None"
  shows "pool_ok (insert_vote p env)"
    and "ExistingVote (insert_vote p env) n a =
      (if n = vote_Number (env_Vote env) \<and> a = env_Signer env then Some env else ExistingVote p n a)"
proof -
  let ?n = "vote_Number (env_Vote env)" and ?a = "env_Signer env" and ?p = "insert_vote p env"
  have v: "votes_ok (votes p)" and one: "one_vote p" using ok by (auto simp: pool_ok_def)
  have fresh: "pool_vote p key ?a = None" if "ck_Number key = ?n" for key
    using new that ExistingVote_iff [OF v one] by (metis not_None_eq)
  have v': "votes_ok (votes ?p)" by (rule votes_ok_insert [OF v])
  have one': "one_vote ?p"
    unfolding one_vote_def
  proof (intro allI impI, elim conjE)
    fix key key' a
    assume *: "pool_vote ?p key a \<noteq> None" "pool_vote ?p key' a \<noteq> None" "ck_Number key = ck_Number key'"
    have old: "key = key'" if "pool_vote p key a \<noteq> None" "pool_vote p key' a \<noteq> None"
      using one that *(3) unfolding one_vote_def by blast
    show "key = key'"
    proof (cases "a = ?a")
      case True
      then show ?thesis using * old fresh [of key] fresh [of key'] by (auto simp: pool_vote_insert split: if_splits)
    next
      case False
      then show ?thesis using * old by (simp add: pool_vote_insert)
    qed
  qed
  show ev: "ExistingVote ?p n a = (if n = ?n \<and> a = ?a then Some env else ExistingVote p n a)" for n a
  proof (rule option_eqI_Some)
    fix e
    show "ExistingVote ?p n a = Some e \<longleftrightarrow>
        (if n = ?n \<and> a = ?a then Some env else ExistingVote p n a) = Some e"
    proof (cases "n = ?n \<and> a = ?a")
      case True
      have "(\<exists>key. ck_Number key = n \<and> pool_vote ?p key a = Some e) \<longleftrightarrow> e = env"
        using True fresh by (auto simp: pool_vote_insert intro: exI [of _ "env_key env"] split: if_splits)
      then show ?thesis using True by (auto simp: ExistingVote_iff [OF v' one'])
    next
      case False
      then have "pool_vote ?p key a = pool_vote p key a" if "ck_Number key = n" for key
        using that by (auto simp: pool_vote_insert)
      then show ?thesis
        using False by (auto simp: ExistingVote_iff [OF v' one'] ExistingVote_iff [OF v one])
    qed
  qed
  have "equivocations_ok ?p"
    using ok new unfolding pool_ok_def equivocations_ok_def ev
    by (fastforce simp: insert_vote_def)
  then show "pool_ok ?p"
    using ok v' one' by (simp add: pool_ok_def pending_ok_def insert_vote_def)
qed


lemma ExistingVote_cong: "votes p = votes q \<Longrightarrow> ExistingVote p n a = ExistingVote q n a"
  by (simp add: ExistingVote_def)

lemma AddVote_ok:
  assumes ok: "pool_ok p" and add: "AddVote p env = (p', added, conflict)"
  shows "pool_ok p'"
    and "ExistingVote p' n a =
      (if added \<and> n = vote_Number (env_Vote env) \<and> a = env_Signer env then Some env else ExistingVote p n a)"
    and "added \<longleftrightarrow> ExistingVote p (vote_Number (env_Vote env)) (env_Signer env) = None"
    and "conflict \<longleftrightarrow> (\<exists>prev. ExistingVote p (vote_Number (env_Vote env)) (env_Signer env) = Some prev \<and>
      vote_Hash (env_Vote prev) \<noteq> vote_Hash (env_Vote env))"
proof -
  have v: "votes_ok (votes p)" using ok by (simp add: pool_ok_def)
  note cases = add [unfolded AddVote_cases [OF v]]
  show "added \<longleftrightarrow> ExistingVote p (vote_Number (env_Vote env)) (env_Signer env) = None"
    and "conflict \<longleftrightarrow> (\<exists>prev. ExistingVote p (vote_Number (env_Vote env)) (env_Signer env) = Some prev \<and>
      vote_Hash (env_Vote prev) \<noteq> vote_Hash (env_Vote env))"
    using cases by (auto split: option.splits if_splits)
  have same: "votes p' = votes p \<and> pending p' = pending p" if "\<not> added"
    using cases that by (auto split: option.splits if_splits)
  show "ExistingVote p' n a =
      (if added \<and> n = vote_Number (env_Vote env) \<and> a = env_Signer env then Some env else ExistingVote p n a)"
    using cases same ExistingVote_cong [of p' p n a] insert_vote_ok(2) [OF ok]
    by (auto split: option.splits if_splits)
  show "pool_ok p'"
  proof (cases added)
    case True
    then show ?thesis
      using cases insert_vote_ok(1) [OF ok] by (auto split: option.splits if_splits)
  next
    case False
    have "equivocations_ok p'"
      using ok cases False ExistingVote_cong [of p' p] same [OF False] unfolding pool_ok_def equivocations_ok_def
      by (auto split: option.splits if_splits)
    then show ?thesis
      using ok same [OF False] by (simp add: pool_ok_def one_vote_def pool_vote_def pending_ok_def)
  qed
qed

lemma AddPending_ok: "pool_ok p \<Longrightarrow> pool_ok (AddPending p env)"
proof -
  assume ok: "pool_ok p"
  have "pending_ok (AddPending p env)"
    using ok by (auto simp: pool_ok_def pending_ok_def AddPending_def Let_def maxPendingPerCheckpoint_def)
  moreover have "votes (AddPending p env) = votes p" "equivocations (AddPending p env) = equivocations p"
    by (simp_all add: AddPending_def Let_def)
  ultimately show ?thesis
    using ok ExistingVote_cong [of "AddPending p env" p]
    by (simp add: pool_ok_def one_vote_def pool_vote_def equivocations_ok_def)
qed

lemma DrainPending_ok: "pool_ok p \<Longrightarrow> pool_ok (fst (DrainPending p n))"
  using ExistingVote_cong [of "fst (DrainPending p n)" p]
  by (auto simp: pool_ok_def one_vote_def pool_vote_def equivocations_ok_def pending_ok_def DrainPending_def)

lemma map_of_filter_key: "map_of (filter (\<lambda>(k, v). P k) xs) k = (if P k then map_of xs k else None)"
  by (induction xs) auto

definition prunable :: "u64 \<Rightarrow> u64 \<Rightarrow> u64 \<Rightarrow> u64 \<Rightarrow> bool" where
  "prunable fin head interval n \<longleftrightarrow> n \<le> fin \<or> n \<le> window_floor head interval"

lemma pool_vote_Prune:
  "pool_vote (Prune p fin head interval) key a =
    (if prunable fin head interval (ck_Number key) then None else pool_vote p key a)"
proof -
  have "votes (Prune p fin head interval) =
      filter (\<lambda>(key, m). \<not> prunable fin head interval (ck_Number key)) (votes p)"
    by (simp add: Prune_def prunable_def Let_def)
  then show ?thesis
    using map_of_filter_key [of "\<lambda>key. \<not> prunable fin head interval (ck_Number key)" "votes p" key]
    by (simp add: pool_vote_def)
qed

lemma Prune_ok:
  assumes "pool_ok p"
  shows "pool_ok (Prune p fin head interval)"
    and "ExistingVote (Prune p fin head interval) n a = (if prunable fin head interval n then None else ExistingVote p n a)"
proof -
  let ?p = "Prune p fin head interval"
  have v: "votes_ok (votes p)" and one: "one_vote p" using assms by (auto simp: pool_ok_def)
  have v': "votes_ok (votes ?p)"
    using v by (auto simp: votes_ok_def Prune_def Let_def distinct_map_filter)
  have one': "one_vote ?p" using one by (simp add: one_vote_def pool_vote_Prune)
  show ev: "ExistingVote ?p n a = (if prunable fin head interval n then None else ExistingVote p n a)" for n a
    by (rule option_eqI_Some)
      (auto simp: ExistingVote_iff [OF v' one'] ExistingVote_iff [OF v one] pool_vote_Prune)
  have "equivocations_ok ?p"
    using assms unfolding pool_ok_def equivocations_ok_def ev by (auto simp: Prune_def prunable_def Let_def)
  moreover have "pending_ok ?p"
    using assms by (auto simp: pool_ok_def pending_ok_def Prune_def Let_def)
  ultimately show "pool_ok ?p" using v' one' by (simp add: pool_ok_def)
qed

inductive pool_reach :: "checkpointVotePool \<Rightarrow> bool" where
  new: "pool_reach newCheckpointVotePool"
| add: "pool_reach p \<Longrightarrow> pool_reach (fst (AddVote p env))"
| pend: "pool_reach p \<Longrightarrow> pool_reach (AddPending p env)"
| drain: "pool_reach p \<Longrightarrow> pool_reach (fst (DrainPending p n))"
| prune: "pool_reach p \<Longrightarrow> pool_reach (Prune p fin head interval)"

lemma pool_reach_ok: "pool_reach p \<Longrightarrow> pool_ok p"
proof (induction rule: pool_reach.induct)
  case new
  show ?case
    by (simp add: newCheckpointVotePool_def pool_ok_def votes_ok_def one_vote_def pool_vote_def
        equivocations_ok_def pending_ok_def)
next
  case (add p env)
  then show ?case using AddVote_ok(1) by (cases "AddVote p env") auto
qed (simp_all add: AddPending_ok DrainPending_ok Prune_ok)

text \<open>
  C33. The pool refines a map from checkpoint number and signer to the first vote accepted from that
  signer: \<open>AddVote\<close> adds exactly the votes with no predecessor, reports an equivocation exactly when
  the predecessor has another hash, and never changes an earlier first vote. Whatever order Go's map
  iteration takes, the result is the same.
\<close>

theorem AddVote_refines:
  assumes "pool_reach p" and "AddVote p env = (p', added, conflict)"
    and "n = vote_Number (env_Vote env)" and "s = env_Signer env"
  shows "(\<forall>m a. ExistingVote p' m a =
      (if ExistingVote p n s = None \<and> m = n \<and> a = s then Some env else ExistingVote p m a)) \<and>
    added = (ExistingVote p n s = None) \<and>
    conflict = (\<exists>prev. ExistingVote p n s = Some prev \<and> vote_Hash (env_Vote prev) \<noteq> vote_Hash (env_Vote env))"
  using AddVote_ok(2-4) [OF pool_reach_ok [OF assms(1)] assms(2)] assms(3,4) by auto

theorem AddVote_refines_witness:
  "ExistingVote (fst (AddVote newCheckpointVotePool (example_envelope 5))) 400 (env_Signer (example_envelope 5)) =
    Some (example_envelope 5)"
proof -
  obtain p' added conflict where add: "AddVote newCheckpointVotePool (example_envelope 5) = (p', added, conflict)"
    by (cases "AddVote newCheckpointVotePool (example_envelope 5)")
  have "vote_Number (env_Vote (example_envelope 5)) = 400"
    by (simp add: example_envelope_def example_vote_def)
  then show ?thesis
    using AddVote_refines [OF pool_reach.new add refl refl] add
    by (simp add: ExistingVote_def newCheckpointVotePool_def)
qed



definition example_pool :: checkpointVotePool where
  "example_pool = fst (AddVote (fst (AddVote newCheckpointVotePool (example_envelope 5))) (example_envelope 6))"

lemma example_pool_reach: "pool_reach example_pool"
  unfolding example_pool_def by (intro pool_reach.intros)

lemma example_pool_equivocation: "equivocations example_pool 400 = [example_envelope 6]"
  by (simp add: example_pool_def AddVote_def newCheckpointVotePool_def example_envelope_def
      example_vote_def Let_def voted_at_def)


section \<open>Quorum intersection\<close>

locale quorum_rule =
  fixes quorum :: "int \<Rightarrow> int"
  assumes two_thirds: "0 < n \<Longrightarrow> 2 * n \<le> 3 * quorum n"
    and attainable: "0 < n \<Longrightarrow> quorum n \<le> n"
begin

lemma intersection:
  assumes "finite V" and "A \<subseteq> V" and "B \<subseteq> V" and "V \<noteq> {}"
    and "quorum (int (card V)) \<le> int (card A)" and "quorum (int (card V)) \<le> int (card B)"
  shows "card V \<le> 3 * card (A \<inter> B)"
proof -
  have fin: "finite A" "finite B" using assms(1-3) by (auto intro: finite_subset)
  have "card (A \<union> B) \<le> card V" using assms(1-3) by (intro card_mono) auto
  moreover have "card A + card B = card (A \<union> B) + card (A \<inter> B)" by (rule card_Un_Int [OF fin])
  moreover have "2 * int (card V) \<le> 3 * quorum (int (card V))"
    using assms(1,4) by (intro two_thirds) (simp add: card_gt_0_iff)
  ultimately show ?thesis using assms(5,6) by linarith
qed

lemma overlap:
  assumes "finite V" and "A \<subseteq> V" and "B \<subseteq> V" and "V \<noteq> {}"
    and "quorum (int (card V)) \<le> int (card A)" and "quorum (int (card V)) \<le> int (card B)"
  shows "A \<inter> B \<noteq> {}"
  using intersection [OF assms] assms(1,4) by auto

end

interpretation bft: quorum_rule Quorum
  by unfold_locales (auto simp: Quorum_def)

definition voters :: "checkpointVotePool \<Rightarrow> u64 \<Rightarrow> hash \<Rightarrow> address set" where
  "voters p n h = {a. pool_vote p \<lparr>ck_Number = n, ck_Hash = h\<rparr> a \<noteq> None}"

lemma VoteCount_voters:
  assumes "votes_ok (votes p)"
  shows "VoteCount p n h = card (voters p n h)" and "voters p n h = env_Signer ` set (GetVotes p n h)"
proof -
  show "VoteCount p n h = card (voters p n h)"
  proof (cases "map_of (votes p) \<lparr>ck_Number = n, ck_Hash = h\<rparr>")
    case None
    then show ?thesis by (simp add: VoteCount_def voters_def pool_vote_def)
  next
    case (Some m)
    then have "distinct (map fst m)" using assms by (simp add: votes_ok_iff entry_ok_def)
    then have "length m = card (fst ` set m)" using distinct_card by (metis length_map list.set_map)
    moreover have "voters p n h = fst ` set m"
      using Some by (auto simp: voters_def pool_vote_def map_of_eq_None_iff dest: map_of_SomeD)
    ultimately show ?thesis using Some by (simp add: VoteCount_def)
  qed
  show "voters p n h = env_Signer ` set (GetVotes p n h)"
  proof (cases "map_of (votes p) \<lparr>ck_Number = n, ck_Hash = h\<rparr>")
    case (Some m)
    then have ent: "entry_ok \<lparr>ck_Number = n, ck_Hash = h\<rparr> m" using assms by (simp add: votes_ok_iff)
    then have "env_Signer (snd x) = fst x" if "x \<in> set m" for x
      using that by (cases x) (auto simp: entry_ok_def)
    then show ?thesis
      using Some ent by (force simp: voters_def pool_vote_def GetVotes_def entry_ok_def dest: map_of_SomeD)
  qed (simp add: voters_def pool_vote_def GetVotes_def)
qed


text \<open>
  C31. No pool can certify two blocks at one height: if the votes at a checkpoint number all come from a
  validator set and two hashes both reach the quorum of that set, the hashes are equal.
\<close>

theorem pool_unique_quorum:
  assumes "pool_reach p" and V: "finite V" "V \<noteq> {}"
    and members: "\<And>h e. e \<in> set (GetVotes p n h) \<Longrightarrow> env_Signer e \<in> V"
    and q: "Quorum (int (card V)) \<le> int (VoteCount p n h)" "Quorum (int (card V)) \<le> int (VoteCount p n h')"
  shows "h = h'"
proof -
  have ok: "pool_ok p" using assms(1) by (rule pool_reach_ok)
  then have v: "votes_ok (votes p)" and one: "one_vote p" by (auto simp: pool_ok_def)
  note vc = VoteCount_voters [OF v]
  have "voters p n h \<inter> voters p n h' \<noteq> {}"
    using q members unfolding vc(1) by (intro bft.overlap [OF V(1) _ _ V(2)]) (auto simp: vc(2))
  then obtain a where "pool_vote p \<lparr>ck_Number = n, ck_Hash = h\<rparr> a \<noteq> None"
    "pool_vote p \<lparr>ck_Number = n, ck_Hash = h'\<rparr> a \<noteq> None" by (auto simp: voters_def)
  then have "\<lparr>ck_Number = n, ck_Hash = h\<rparr> = \<lparr>ck_Number = n, ck_Hash = h'\<rparr>"
    using one unfolding one_vote_def by fastforce
  then show ?thesis by simp
qed

theorem pool_unique_quorum_witness:
  "{h. Quorum (int (card {env_Signer (example_envelope 5)})) \<le> int (VoteCount example_pool 400 h)} = {5}"
proof -
  have votes: "votes example_pool = [(\<lparr>ck_Number = 400, ck_Hash = 5\<rparr>,
      [(env_Signer (example_envelope 5), example_envelope 5)])]"
    by (simp add: example_pool_def AddVote_def newCheckpointVotePool_def example_envelope_def
        example_vote_def Let_def voted_at_def)
  have q: "Quorum (int (card {env_Signer (example_envelope 5)})) \<le> int (VoteCount example_pool 400 5)"
    by (simp add: Quorum_def VoteCount_def votes)
  have "5 = h" if "Quorum (int (card {env_Signer (example_envelope 5)})) \<le> int (VoteCount example_pool 400 h)" for h
    using that by (intro pool_unique_quorum [OF example_pool_reach _ _ _ q])
      (auto simp: GetVotes_def votes split: if_splits option.splits)
  then show ?thesis using q by (intro equalityI subsetI) (metis mem_Collect_eq singleton_iff)+
qed

section \<open>Signer sets bound by a vote\<close>

lemma AddressFromSigner_ed25519:
  "AddressFromSigner kh curves ''ed25519'' pub =
    (if length pub \<noteq> 32 then Inl ErrInvalidSignerValue else Inr (kh pub))"
  by (simp add: AddressFromSigner_def)

lemma load_signer_sound:
  assumes "load_signer kh curves state a = Inr s"
  shows "vs_Address s = a \<and> vs_SignerType s = ''ed25519'' \<and> length (vs_SignerPub s) = 32 \<and> kh (vs_SignerPub s) = a"
  using assms
  by (auto simp: load_signer_def AddressFromSigner_ed25519 split: option.splits sum.splits if_split_asm)

lemma load_signers_sound:
  "load_signers kh curves state as = Inr ss \<Longrightarrow>
    map vs_Address ss = as \<and> (\<forall>s \<in> set ss. vs_SignerType s = ''ed25519'' \<and> length (vs_SignerPub s) = 32 \<and>
      kh (vs_SignerPub s) = vs_Address s)"
proof (induction as arbitrary: ss)
  case (Cons a as)
  then obtain s ss' where "load_signer kh curves state a = Inr s" "load_signers kh curves state as = Inr ss'"
    "ss = s # ss'" by (auto split: sum.splits)
  then show ?case using Cons.IH [of ss'] load_signer_sound [of kh curves state a s] by auto
qed simp

lemma sort_by_sorted:
  assumes "sorted_wrt (\<lambda>x y. lt x y) xs" and "\<And>x y. lt x y \<Longrightarrow> \<not> lt y x"
  shows "sort_by lt xs = xs"
  using assms
proof (induction xs)
  case (Cons x xs)
  then have "sort_by lt xs = xs" by simp
  moreover have "insert_by lt x xs = x # xs"
    using Cons.prems by (cases xs) auto
  ultimately show ?case by (simp add: sort_by_def)
qed (simp add: sort_by_def)

text \<open>
  The signer set of a well-formed snapshot lists its validators in the snapshot's own order, so bit \<open>i\<close>
  of a certificate stands for validator \<open>i\<close>; every entry holds the ed25519 key whose hash is the
  validator's address.
\<close>

theorem loadSignerSet_sound:
  assumes "snapshot_ok s" and "loadSignerSet kh curves (Some s) state = Inr signers"
  shows "map vs_Address signers = Validators s \<and>
    (\<forall>x \<in> set signers. vs_SignerType x = ''ed25519'' \<and> length (vs_SignerPub x) = 32 \<and>
       kh (vs_SignerPub x) = vs_Address x)"
proof -
  obtain ss where ss: "load_signers kh curves state (Validators s) = Inr ss"
    and signers: "signers = sort_by signer_before ss"
    using assms by (auto simp: loadSignerSet_def split: sum.splits if_splits)
  note sound = load_signers_sound [OF ss]
  have "sorted_wrt (<) (map vs_Address ss)" using sound assms(1) by (simp add: snapshot_ok_def)
  then have "sorted_wrt (\<lambda>x y. signer_before x y) ss"
    by (simp add: signer_before_def sorted_wrt_map)
  then have "signers = ss"
    unfolding signers by (rule sort_by_sorted) (simp add: signer_before_def)
  then show ?thesis using sound by simp
qed


definition example_pub :: bytes where
  "example_pub = replicate 32 171"

definition example_signer_state :: statedb where
  "example_signer_state = signer_Set example_signer_kh empty_statedb (example_signer_kh example_pub) ''ed25519''
     (hexutil_Encode example_pub)"

lemma example_signer_room:
  "signer_room example_signer_kh empty_statedb a 257 ''ed25519'' (hexutil_Encode example_pub)"
proof -
  have "readUint64 empty_statedb a k = 0" for a k
    by (simp add: readUint64_def GetState_def empty_statedb_def hash_u64_def)
  then show ?thesis
    by (simp add: signer_room_def chunks_of_def hexutil_Encode_def length_hex_encode example_pub_def
        chunkCount_def)
qed

lemma example_load_signer:
  "load_signer example_signer_kh (\<lambda>_ _. None) example_signer_state (example_signer_kh example_pub) =
    Inr \<lparr>vs_Address = example_signer_kh example_pub, vs_SignerType = ''ed25519'', vs_SignerPub = example_pub\<rparr>"
proof -
  have get: "signer_Get example_signer_kh example_signer_state (example_signer_kh example_pub) =
      Some (''ed25519'', hexutil_Encode example_pub)"
    unfolding example_signer_state_def
    by (rule signer_Get_Set [OF example_signer_no_collision example_signer_room])
  have type: "normalizeSignerType ''ed25519'' = Inr ''ed25519''" by code_simp
  have norm: "NormalizeSigner (\<lambda>_ _. None) ''ed25519'' (hexutil_Encode example_pub) =
      Inr (''ed25519'', example_pub, hexutil_Encode example_pub)"
    unfolding NormalizeSigner_def type by (simp add: MaxSignerValueLen_def example_pub_def)
  show ?thesis
    unfolding load_signer_def get by (simp add: norm AddressFromSigner_def) (simp add: example_pub_def)
qed

theorem loadSignerSet_sound_witness:
  "\<exists>signers. loadSignerSet example_signer_kh (\<lambda>_ _. None)
     (Some (example_snapshot\<lparr>Validators := [example_signer_kh example_pub],
        ValidatorsMap := {example_signer_kh example_pub}\<rparr>)) example_signer_state = Inr signers \<and>
     map vs_Address signers = [example_signer_kh example_pub]"
proof -
  let ?s = "example_snapshot\<lparr>Validators := [example_signer_kh example_pub],
      ValidatorsMap := {example_signer_kh example_pub}\<rparr>"
  have "snapshot_ok ?s" by (simp add: snapshot_ok_def)
  moreover have "\<exists>signers. loadSignerSet example_signer_kh (\<lambda>_ _. None) (Some ?s) example_signer_state = Inr signers"
    by (simp add: loadSignerSet_def example_load_signer)
  ultimately show ?thesis using loadSignerSet_sound by fastforce
qed

lemma signer_rlp_inject: "signer_rlp s = signer_rlp t \<longleftrightarrow> s = t"
  by (auto simp: signer_rlp_def key_simps intro: ValidatorSigner.equality)

text \<open>
  C34. The validator set hash in a vote pins down the whole ordered signer set: when the hash function does
  not collide on the two encodings, equal hashes mean equal lists of addresses, types and keys.
\<close>

theorem ValidatorSetHash_binds:
  assumes "no_collision kh {EncodeToBytes (Lst (map signer_rlp ss)), EncodeToBytes (Lst (map signer_rlp ts))}"
    and "length (rlp_enc (Lst (map signer_rlp ss))) < 2 ^ 64" and "length (rlp_enc (Lst (map signer_rlp ts))) < 2 ^ 64"
  shows "computeValidatorSetHash kh ss = computeValidatorSetHash kh ts \<longleftrightarrow> ss = ts"
proof -
  have "inj signer_rlp" by (simp add: inj_def signer_rlp_inject)
  moreover have "EncodeToBytes (Lst (map signer_rlp ss)) = EncodeToBytes (Lst (map signer_rlp ts)) \<longleftrightarrow>
      Lst (map signer_rlp ss) = Lst (map signer_rlp ts)"
    using rlp_enc_prefix_free [of _ "[]" _ "[]"] assms(2,3) EncodeToBytes_eq by (metis append_Nil2)
  ultimately show ?thesis
    using no_collision_eq [OF assms(1)] by (simp add: computeValidatorSetHash_def inj_map_eq_map)
qed

definition example_vs :: "address \<Rightarrow> ValidatorSigner" where
  "example_vs a = \<lparr>vs_Address = a, vs_SignerType = ''ed25519'', vs_SignerPub = example_pub\<rparr>"

lemma example_vs_length: "length (rlp_enc (Lst (map signer_rlp [example_vs a]))) < 2 ^ 64"
proof -
  let ?parts = "[addr_bytes a, str_bytes ''ed25519'', example_pub]"
  have "length (rlp_enc (Str b)) \<le> 41" if "b \<in> set ?parts" for b
    using length_rlp_enc_Str_le [of b] that by (auto simp: example_pub_def)
  then have "length (concat (map rlp_enc (map Str ?parts))) \<le> length (map Str ?parts) * 41"
    by (intro length_concat_map_le) (auto simp del: rlp_enc.simps)
  then have "length (rlp_enc (signer_rlp (example_vs a))) \<le> 132"
    using length_rlp_enc_Lst_le [of "map Str ?parts"]
    by (simp add: signer_rlp_def example_vs_def del: rlp_enc.simps)
  then show ?thesis
    using length_rlp_enc_Lst_le [of "[signer_rlp (example_vs a)]"] by (simp del: rlp_enc.simps)
qed

theorem ValidatorSetHash_binds_witness:
  "\<exists>kh. computeValidatorSetHash kh [example_vs 1] \<noteq> computeValidatorSetHash kh [example_vs 2]"
proof -
  let ?ks = "[EncodeToBytes (Lst (map signer_rlp [example_vs 1])), EncodeToBytes (Lst (map signer_rlp [example_vs 2]))]"
  have "no_collision (key_index_hash ?ks) {EncodeToBytes (Lst (map signer_rlp [example_vs 1])),
      EncodeToBytes (Lst (map signer_rlp [example_vs 2]))}"
    by (rule no_collision_key_index_hash) simp_all
  from ValidatorSetHash_binds [OF this example_vs_length example_vs_length] have
    "computeValidatorSetHash (key_index_hash ?ks) [example_vs 1] \<noteq>
      computeValidatorSetHash (key_index_hash ?ks) [example_vs 2]"
    by (simp add: example_vs_def)
  then show ?thesis by blast
qed


section \<open>The record of signed checkpoints\<close>

lemma signedCheckpointKey_inject [simp]: "signedCheckpointKey m = signedCheckpointKey n \<longleftrightarrow> m = n"
  by (simp add: signedCheckpointKey_def key_simps)

lemma Read_WriteSignedCheckpoint:
  "ReadSignedCheckpoint (WriteSignedCheckpoint db n h) m = (if m = n then Some h else ReadSignedCheckpoint db m)"
  by (simp add: ReadSignedCheckpoint_def WriteSignedCheckpoint_def update_conv')

definition key_number :: "bytes \<Rightarrow> u64" where
  "key_number key = word_of_nat (be_nat (take 8 (drop (length signedCheckpointKeyPrefix) key)))"

text \<open>Under the prefix the database holds signed-checkpoint records only.\<close>

definition signed_store_ok :: "kvstore \<Rightarrow> bool" where
  "signed_store_ok db \<longleftrightarrow> distinct (map fst db) \<and>
     (\<forall>(k, v) \<in> set db. take (length signedCheckpointKeyPrefix) k = signedCheckpointKeyPrefix \<longrightarrow>
        length k = length signedCheckpointKeyPrefix + 8)"

lemma key_number_key [simp]: "key_number (signedCheckpointKey n) = n"
  by (simp add: key_number_def signedCheckpointKey_def u64_bytes_def be_nat_be_bytes [OF unat_u64_less])

lemma key_of_number:
  assumes "take (length signedCheckpointKeyPrefix) k = signedCheckpointKeyPrefix"
    and "length k = length signedCheckpointKeyPrefix + 8"
  shows "k = signedCheckpointKey (key_number k)"
proof -
  let ?d = "drop (length signedCheckpointKeyPrefix) k"
  have "length ?d = 8" using assms(2) by simp
  then have "u64_bytes (key_number k) = ?d"
    using be_nat_less [of ?d] be_bytes_be_nat [of ?d]
    by (simp add: key_number_def u64_bytes_def unat_of_nat_small)
  then show ?thesis using assms(1) by (metis append_take_drop_id signedCheckpointKey_def)
qed

lemma bytes_compare_append [simp]: "bytes_compare (p @ a) (p @ b) = bytes_compare a b"
  by (induction p) auto

lemma kv_before_key:
  "kv_before (signedCheckpointKey m, v) (signedCheckpointKey n, w) \<longleftrightarrow> m < n"
  by (simp add: kv_before_def signedCheckpointKey_def bytes_compare_neg_iff u64_bytes_def
      be_nat_be_bytes [OF unat_u64_less] word_less_nat_alt)

lemma ListUnsettled_eq:
  "ListUnsettledSignedCheckpoints db fin =
    map (\<lambda>(k, v). (key_number k, BytesToHash v))
      (filter (\<lambda>(k, v). length signedCheckpointKeyPrefix + 8 \<le> length k \<and> fin < key_number k \<and> length v = 32)
        (kv_iterate db signedCheckpointKeyPrefix))"
proof -
  have "(\<lambda>(key, val).
         if length key < length signedCheckpointKeyPrefix + 8 then []
         else
           let number = word_of_nat (be_nat (take 8 (drop (length signedCheckpointKeyPrefix) key))) in
           if number \<le> fin then []
           else if length val \<noteq> 32 then []
           else [(number, BytesToHash val)]) =
    (\<lambda>x. if (\<lambda>(k, v). length signedCheckpointKeyPrefix + 8 \<le> length k \<and> fin < key_number k \<and> length v = 32) x
         then [(\<lambda>(k, v). (key_number k, BytesToHash v)) x] else [])"
    by (auto simp: key_number_def Let_def fun_eq_iff)
  then show ?thesis
    unfolding ListUnsettledSignedCheckpoints_def by (simp only: concat_map_if)
qed


lemma bytes_compare_swap: "bytes_compare y x = - bytes_compare x y"
  by (induction x y rule: bytes_compare.induct) auto

lemma bytes_compare_trans: "0 \<le> bytes_compare x y \<Longrightarrow> 0 \<le> bytes_compare y z \<Longrightarrow> 0 \<le> bytes_compare x z"
proof (induction x arbitrary: y z)
  case Nil
  then show ?case by (cases y; cases z) auto
next
  case (Cons a x)
  then show ?case by (cases y; cases z) (auto split: if_splits)
qed

interpretation kv_order: strict_weak_order kv_before
proof unfold_locales
  show "\<not> kv_before y x" if "kv_before x y" for x y
    using that bytes_compare_swap [of "fst x" "fst y"] by (simp add: kv_before_def)
  show "\<not> kv_before x z" if "\<not> kv_before x y" and "\<not> kv_before y z" for x y z
    using that bytes_compare_trans [of "fst x" "fst y" "fst z"] by (simp add: kv_before_def)
qed

lemma sorted_key_numbers:
  assumes "distinct (map fst xs)" and "sorted_wrt (\<lambda>x y. \<not> kv_before y x) xs"
    and "\<And>k v. (k, v) \<in> set xs \<Longrightarrow> k = signedCheckpointKey (key_number k)"
  shows "sorted_wrt (\<lambda>x y. key_number (fst x) < key_number (fst y)) xs"
  using assms
proof (induction xs)
  case (Cons x xs)
  have "key_number (fst x) < key_number (fst y)" if y: "y \<in> set xs" for y
  proof -
    have kx: "fst x = signedCheckpointKey (key_number (fst x))"
      and ky: "fst y = signedCheckpointKey (key_number (fst y))"
      using Cons.prems(3) [of "fst x" "snd x"] Cons.prems(3) [of "fst y" "snd y"] y by simp_all
    have "\<not> kv_before y x" using Cons.prems(2) y by simp
    then have "\<not> key_number (fst y) < key_number (fst x)"
      using kx ky kv_before_key by (metis prod.collapse)
    moreover have "fst x \<noteq> fst y" using Cons.prems(1) y by auto
    then have "key_number (fst x) \<noteq> key_number (fst y)" using kx ky by metis
    ultimately show ?thesis by simp
  qed
  moreover have "sorted_wrt (\<lambda>x y. key_number (fst x) < key_number (fst y)) xs"
    by (rule Cons.IH) (use Cons.prems in auto)
  ultimately show ?case by simp
qed simp

lemma iterate_key:
  assumes "signed_store_ok db" and "(k, v) \<in> set (kv_iterate db signedCheckpointKeyPrefix)"
  shows "k = signedCheckpointKey (key_number k)"
  using assms key_of_number [of k] by (auto simp: kv_iterate_def signed_store_ok_def)

lemma set_ListUnsettled:
  assumes "signed_store_ok db"
  shows "set (ListUnsettledSignedCheckpoints db fin) = {(n, h). ReadSignedCheckpoint db n = Some h \<and> fin < n}"
proof -
  have d: "distinct (map fst db)" using assms by (simp add: signed_store_ok_def)
  have key_it: "(k, v) \<in> set (kv_iterate db signedCheckpointKeyPrefix) \<longleftrightarrow>
      (\<exists>n. k = signedCheckpointKey n \<and> map_of db k = Some v)" for k v
    using d iterate_key [OF assms, of k v] by (auto simp: kv_iterate_def signedCheckpointKey_def dest: map_of_SomeD)
  have "set (ListUnsettledSignedCheckpoints db fin) = {(n, BytesToHash v) | n v.
      map_of db (signedCheckpointKey n) = Some v \<and> fin < n \<and> length v = 32}"
    unfolding ListUnsettled_eq
    by (force simp: key_it signedCheckpointKey_def [THEN arg_cong, of length])
  then show ?thesis
    by (auto simp: ReadSignedCheckpoint_def split: option.splits if_splits)
qed

lemma signed_store_ok_keys:
  "signed_store_ok db \<longleftrightarrow> distinct (map fst db) \<and>
     (\<forall>k \<in> fst ` set db. take (length signedCheckpointKeyPrefix) k = signedCheckpointKeyPrefix \<longrightarrow>
        length k = length signedCheckpointKeyPrefix + 8)"
  by (auto simp: signed_store_ok_def)

lemma signed_store_ok_Write: "signed_store_ok db \<Longrightarrow> signed_store_ok (WriteSignedCheckpoint db n h)"
  unfolding signed_store_ok_keys WriteSignedCheckpoint_def dom_update
  by (auto simp: distinct_update signedCheckpointKey_def)

text \<open>
  C35. The durable record answers exactly what was signed: a checkpoint is read back as last written and other
  numbers are unaffected; and on restart the unsettled list holds exactly the recorded checkpoints above the
  finalised number, in strictly ascending order.
\<close>

theorem signed_checkpoints_store:
  assumes "signed_store_ok db"
  shows "(\<forall>n h m. ReadSignedCheckpoint (WriteSignedCheckpoint db n h) m =
      (if m = n then Some h else ReadSignedCheckpoint db m)) \<and>
    set (ListUnsettledSignedCheckpoints db fin) = {(n, h). ReadSignedCheckpoint db n = Some h \<and> fin < n} \<and>
    sorted_wrt (<) (map fst (ListUnsettledSignedCheckpoints db fin))"
proof (intro conjI)
  let ?it = "kv_iterate db signedCheckpointKeyPrefix"
  show "\<forall>n h m. ReadSignedCheckpoint (WriteSignedCheckpoint db n h) m =
      (if m = n then Some h else ReadSignedCheckpoint db m)"
    by (simp add: Read_WriteSignedCheckpoint)
  show "set (ListUnsettledSignedCheckpoints db fin) = {(n, h). ReadSignedCheckpoint db n = Some h \<and> fin < n}"
    using assms by (rule set_ListUnsettled)
  have "distinct (map fst ?it)"
    using assms by (simp add: signed_store_ok_def kv_iterate_def distinct_map inj_on_def)
  moreover have "sorted_wrt (\<lambda>x y. \<not> kv_before y x) ?it"
    unfolding kv_iterate_def by (rule kv_order.sorted_sort_by)
  ultimately have "sorted_wrt (\<lambda>x y. key_number (fst x) < key_number (fst y)) ?it"
    using iterate_key [OF assms] by (rule sorted_key_numbers)
  then show "sorted_wrt (<) (map fst (ListUnsettledSignedCheckpoints db fin))"
    unfolding ListUnsettled_eq by (simp add: sorted_wrt_map sorted_wrt_filter case_prod_beta)
qed

theorem signed_checkpoints_store_witness:
  "ListUnsettledSignedCheckpoints (WriteSignedCheckpoint [] 400 9) 200 \<noteq> []"
proof -
  have "signed_store_ok (WriteSignedCheckpoint [] 400 9)"
    by (simp add: signed_store_ok_def WriteSignedCheckpoint_def signedCheckpointKey_def)
  from signed_checkpoints_store [OF this, of 200] have
    "set (ListUnsettledSignedCheckpoints (WriteSignedCheckpoint [] 400 9) 200) =
      {(n, h). ReadSignedCheckpoint (WriteSignedCheckpoint [] 400 9) n = Some h \<and> 200 < n}" by blast
  moreover have "(400, 9) \<in> {(n, h). ReadSignedCheckpoint (WriteSignedCheckpoint [] 400 9) n = Some h \<and> 200 < n}"
    by (simp add: Read_WriteSignedCheckpoint)
  ultimately show ?thesis by (metis empty_iff empty_set)
qed

end
