(* ===== verification/Engine.thy ===== *)
theory Engine
  imports Checkpoint RLPStream Validator
begin

text \<open>
  consensus/dpos/dpos.go: the consensus engine. The database is a record of the tables the engine
  reads and writes (core/rawdb); an opened state is a \<open>statedb\<close>. The caches of the engine are maps; a
  bounded cache forgets entries, so every statement below holds for an arbitrary
  subset of them. The clock is a parameter, as are Keccak, ed25519 verification and the curve parsers.
  Calls to other layers are recorded: votes sent to peers in \<open>d_sent\<close>, monitor events in \<open>d_events\<close>.
  The vote journal (vote_journal.go) is a log file and is left out.
\<close>

section \<open>The chain and the database\<close>

record chain =
  ch_ChainID :: "int option"
  ch_CurrentHeader :: "Header option"
  ch_GetHeader :: "hash \<Rightarrow> u64 \<Rightarrow> Header option"
  ch_GetHeaderByNumber :: "u64 \<Rightarrow> Header option"

record chaindb =
  db_header :: "hash \<Rightarrow> u64 \<Rightarrow> Header option"
  db_number :: "hash \<Rightarrow> u64 option"
  db_canonical :: "u64 \<Rightarrow> hash"
  db_state :: "hash \<Rightarrow> statedb option"
  db_finalized :: hash
  db_vsHash :: hash
  db_snapshots :: "hash \<Rightarrow> Snapshot option"
  db_kv :: kvstore

definition rawChainReader :: "chaindb \<Rightarrow> chain" where
  "rawChainReader db =
     \<lparr>ch_ChainID = None, ch_CurrentHeader = None, ch_GetHeader = db_header db,
      ch_GetHeaderByNumber = (\<lambda>number.
        if db_canonical db number = 0 then None else db_header db (db_canonical db number) number)\<rparr>"

section \<open>The engine\<close>

record VoteMonitorEvent =
  ve_Kind :: string
  ve_Source :: string
  ve_Signer :: address
  ve_Number :: u64
  ve_ExistingHash :: hash
  ve_NewHash :: hash

record checkpointFinalityResult =
  fr_CarrierHash :: hash
  fr_FinalizedNumber :: u64
  fr_FinalizedHash :: hash
  fr_ValidatorSetHash :: hash

type_synonym signer_fn = "address \<Rightarrow> bytes \<Rightarrow> bytes option"

record DPoS =
  d_config :: DPoSConfig
  d_db :: "chaindb option"
  d_recents :: "hash \<Rightarrow> Snapshot option"
  d_finality :: "hash \<Rightarrow> checkpointFinalityResult option"
  d_sealLength :: nat
  d_chain :: "chain option"
  d_validator :: address
  d_signFn :: "signer_fn option"
  d_votePool :: "checkpointVotePool option"
  d_broadcastVoteFn :: bool
  d_setFinalizedFn :: bool
  d_chainID :: "int option"
  d_finalizedVSHash :: "hash option"
  d_voteMonitorFn :: bool
  d_deferredEpochChecks :: "hash set"
  fakeDiff :: bool
  fakeFailAt :: u64
  fakeFailSet :: bool
  d_sent :: "CheckpointVoteEnvelope list"
  d_events :: "VoteMonitorEvent list"

definition emitVoteMonitorEvent ::
  "DPoS \<Rightarrow> string \<Rightarrow> CheckpointVoteEnvelope option \<Rightarrow> CheckpointVoteEnvelope \<Rightarrow> DPoS" where
  "emitVoteMonitorEvent d source previous current =
     (case previous of None \<Rightarrow> d
      | Some prev \<Rightarrow>
          if \<not> d_voteMonitorFn d then d
          else d\<lparr>d_events := d_events d @
            [\<lparr>ve_Kind = ''equivocation'', ve_Source = source, ve_Signer = env_Signer current,
              ve_Number = vote_Number (env_Vote current), ve_ExistingHash = vote_Hash (env_Vote prev),
              ve_NewHash = vote_Hash (env_Vote current)\<rparr>]\<rparr>)"

definition Authorize :: "DPoS \<Rightarrow> address \<Rightarrow> signer_fn option \<Rightarrow> DPoS" where
  "Authorize d v signFn = d\<lparr>d_validator := v, d_signFn := signFn\<rparr>"

definition CanSignVotes :: "DPoS \<Rightarrow> bool" where
  "CanSignVotes d = (d_validator d \<noteq> 0 \<and> d_signFn d \<noteq> None)"

definition SignVote :: "DPoS \<Rightarrow> hash \<Rightarrow> dpos_error + bytes" where
  "SignVote d digest =
     (case d_signFn d of
        Some signFn \<Rightarrow>
          if d_validator d = 0 then Inl errSignerNotConfigured
          else (case signFn (d_validator d) (hash_bytes digest) of
                  None \<Rightarrow> Inl errSignerNotConfigured | Some sig \<Rightarrow> Inr sig)
      | None \<Rightarrow> Inl errSignerNotConfigured)"

definition Author :: "keccak \<Rightarrow> verifier \<Rightarrow> DPoS \<Rightarrow> Header \<Rightarrow> dpos_error + address" where
  "Author kh verify d header =
     (if fakeDiff d then Inr (Coinbase header)
      else recoverHeaderSigner kh verify (Some (d_config d)) header)"

definition SetVoteCallbacks :: "DPoS \<Rightarrow> chain \<Rightarrow> bool \<Rightarrow> bool \<Rightarrow> int option \<Rightarrow> DPoS" where
  "SetVoteCallbacks d chain broadcastFn setFinalizedFn chainID =
     (let d = d\<lparr>d_chain := Some chain, d_broadcastVoteFn := broadcastFn, d_setFinalizedFn := setFinalizedFn\<rparr>
      in if chainID \<noteq> None then d\<lparr>d_chainID := chainID\<rparr> else d)"

section \<open>Runtime finality\<close>

definition runtimeFinalizedBlock :: "DPoS \<Rightarrow> Header option" where
  "runtimeFinalizedBlock d =
     (case d_db d of None \<Rightarrow> None
      | Some db \<Rightarrow>
          if db_finalized db = 0 then None
          else (case db_number db (db_finalized db) of None \<Rightarrow> None
                | Some number \<Rightarrow> db_header db (db_finalized db) number))"

definition runtimeFinalizedNumber :: "DPoS \<Rightarrow> u64" where
  "runtimeFinalizedNumber d = (case runtimeFinalizedBlock d of None \<Rightarrow> 0 | Some h \<Rightarrow> header_number h)"

definition FinalizedValidatorSetHash :: "DPoS \<Rightarrow> DPoS \<times> hash" where
  "FinalizedValidatorSetHash d =
     (case d_db d of
        Some db \<Rightarrow>
          if db_finalized db = 0 then (d\<lparr>d_finalizedVSHash := None\<rparr>, 0)
          else (case d_finalizedVSHash d of Some v \<Rightarrow> (d, v)
                | None \<Rightarrow> if db_vsHash db \<noteq> 0 then (d\<lparr>d_finalizedVSHash := Some (db_vsHash db)\<rparr>, db_vsHash db)
                          else (d, 0))
      | None \<Rightarrow> (case d_finalizedVSHash d of Some v \<Rightarrow> (d, v) | None \<Rightarrow> (d, 0)))"

definition stageFinalityResult :: "DPoS \<Rightarrow> hash \<Rightarrow> u64 \<Rightarrow> hash \<Rightarrow> hash \<Rightarrow> DPoS" where
  "stageFinalityResult d carrierHash finalizedNumber finalizedHash validatorSetHash =
     d\<lparr>d_finality := (d_finality d)(carrierHash \<mapsto>
        \<lparr>fr_CarrierHash = carrierHash, fr_FinalizedNumber = finalizedNumber, fr_FinalizedHash = finalizedHash,
         fr_ValidatorSetHash = validatorSetHash\<rparr>)\<rparr>"

definition firstCheckpointAtOrAfter :: "u64 \<Rightarrow> u64 \<Rightarrow> u64" where
  "firstCheckpointAtOrAfter activationBlock interval =
     (if interval = 0 then activationBlock
      else
        let rem = activationBlock mod interval in
        if rem = 0 then activationBlock else activationBlock + (interval - rem))"

definition first_eligible :: "DPoSConfig \<Rightarrow> u64" where
  "first_eligible cfg =
     firstCheckpointAtOrAfter (case CheckpointFinalityBlock cfg of None \<Rightarrow> 0 | Some b \<Rightarrow> big_Uint64 b)
       (CheckpointInterval cfg)"

section \<open>The validators of an epoch\<close>

text \<open>
  Opening a state needs the database. The source never runs these without one outside of its test
  engine, which returns earlier; the model answers \<open>errMissingDatabase\<close> there.
\<close>

definition activeValidatorsAtRoot ::
  "keccak \<Rightarrow> DPoS \<Rightarrow> hash \<Rightarrow> u64 \<Rightarrow> dpos_error + address list" where
  "activeValidatorsAtRoot kh d root currentBlock =
     (case d_db d of None \<Rightarrow> Inl errMissingDatabase
      | Some db \<Rightarrow>
         (case db_state db root of None \<Rightarrow> Inl errMissingParentState
          | Some st \<Rightarrow>
              Inr (ReadActiveValidatorsAtBlock kh st (MaxValidators (d_config d)) currentBlock
                     (Some (d_config d)))))"

definition expectedEpochValidators ::
  "keccak \<Rightarrow> DPoS \<Rightarrow> Header \<Rightarrow> address list \<Rightarrow> dpos_error + address list" where
  "expectedEpochValidators kh d parent fallback =
     (case activeValidatorsAtRoot kh d (Root parent) (header_number parent + 1) of
        Inr actual \<Rightarrow>
          if length actual > 0 then Inr actual
          else if length fallback > 0 then Inr fallback
          else Inl errNoActiveValidators
      | Inl e \<Rightarrow> if length fallback > 0 then Inr fallback else Inl e)"

text \<open>
  Loops that follow parent links. A header found under a number has that number, so the number
  of the first header bounds the steps; it is the fuel.
\<close>

fun fallback_loop :: "nat \<Rightarrow> DPoS \<Rightarrow> chain \<Rightarrow> Header option \<Rightarrow> dpos_error + address list" where
  "fallback_loop fuel d chain None = Inl ErrUnknownAncestor"
| "fallback_loop 0 d chain (Some header) = Inl ErrUnknownAncestor"
| "fallback_loop (Suc fuel) d chain (Some header) =
     (let number = header_number header in
      if number = 0 then parseGenesisValidators (Extra header)
      else if number mod Epoch (d_config d) = 0
      then parseEpochValidators (Extra header) (Some (d_config d))
             (IsCheckpointFinality (Some (d_config d)) (Number header))
      else fallback_loop fuel d chain (ch_GetHeader chain (ParentHash header) (number - 1)))"

definition fallbackValidatorsFromHeader ::
  "DPoS \<Rightarrow> chain \<Rightarrow> Header option \<Rightarrow> dpos_error + address list" where
  "fallbackValidatorsFromHeader d chain header =
     fallback_loop (case header of None \<Rightarrow> 0 | Some h \<Rightarrow> Suc (unat (header_number h))) d chain header"

definition verifyEpochExtraAgainstValidators :: "DPoS \<Rightarrow> Header \<Rightarrow> address list \<Rightarrow> dpos_error option" where
  "verifyEpochExtraAgainstValidators d header actual =
     (case parseEpochValidators (Extra header) (Some (d_config d))
             (IsCheckpointFinality (Some (d_config d)) (Number header)) of
        Inl e \<Rightarrow> Some e
      | Inr claimed \<Rightarrow>
          if length claimed \<noteq> length actual then Some errEpochValidatorCount
          else if claimed \<noteq> actual then Some errEpochValidatorMismatch
          else None)"

section \<open>Snapshots\<close>

definition loadSnapshot :: "DPoSConfig \<Rightarrow> chaindb \<Rightarrow> hash \<Rightarrow> Snapshot option" where
  "loadSnapshot config db hash =
     (case db_snapshots db hash of None \<Rightarrow> None | Some s \<Rightarrow> Some (s\<lparr>snap_config := Some config\<rparr>))"

definition snapshot_store :: "Snapshot \<Rightarrow> chaindb \<Rightarrow> chaindb" where
  "snapshot_store s db = db\<lparr>db_snapshots := (db_snapshots db)(snap_Hash s \<mapsto> s)\<rparr>"

definition store_snap :: "Snapshot \<Rightarrow> DPoS \<Rightarrow> DPoS" where
  "store_snap s d = d\<lparr>d_db := map_option (snapshot_store s) (d_db d)\<rparr>"

definition FullImmutabilityThreshold :: nat where
  "FullImmutabilityThreshold = 90000"

definition snapshot_genesis :: "keccak \<Rightarrow> DPoS \<Rightarrow> chain \<Rightarrow> DPoS \<times> (dpos_error + Snapshot)" where
  "snapshot_genesis kh d chain =
     (case ch_GetHeaderByNumber chain 0 of None \<Rightarrow> (d, Inl errMissingGenesis)
      | Some genesis \<Rightarrow>
         (case parseGenesisValidators (Extra genesis) of Inl e \<Rightarrow> (d, Inl e)
          | Inr validators \<Rightarrow>
             (case newSnapshot (Some (d_config d)) 0 (header_Hash kh genesis) (addr_sort validators)
                     (Time genesis) (TargetBlockPeriodMs (Some (d_config d))) of
                Inl e \<Rightarrow> (d, Inl e)
              | Inr snap \<Rightarrow> (store_snap snap d, Inr snap))))"

text \<open>The trusted epoch block: \<open>None\<close> when the code falls through to the next step.\<close>

definition snapshot_trust ::
  "keccak \<Rightarrow> DPoS \<Rightarrow> chain \<Rightarrow> u64 \<Rightarrow> hash \<Rightarrow> (DPoS \<times> (dpos_error + Snapshot)) option" where
  "snapshot_trust kh d chain number hash =
     (let period = TargetBlockPeriodMs (Some (d_config d));
          from_extra =
            (case ch_GetHeaderByNumber chain number of None \<Rightarrow> None
             | Some checkpoint \<Rightarrow>
                (case parseEpochValidators (Extra checkpoint) (Some (d_config d)) False of
                   Inl e \<Rightarrow> None
                 | Inr validators \<Rightarrow>
                    (case newSnapshot (Some (d_config d)) number (header_Hash kh checkpoint)
                            (addr_sort validators) (Time checkpoint) period of
                       Inl e \<Rightarrow> Some (d, Inl e)
                     | Inr snap \<Rightarrow> Some (store_snap snap d, Inr snap))))
      in case ch_GetHeaderByNumber chain (number - 1) of
           None \<Rightarrow> from_extra
         | Some parentHeader \<Rightarrow>
             if d_db d = None then from_extra
             else
               (case activeValidatorsAtRoot kh d (Root parentHeader) number of
                  Inl e \<Rightarrow> from_extra
                | Inr stateVerified \<Rightarrow>
                    if length stateVerified = 0 then from_extra
                    else
                      (case newSnapshot (Some (d_config d)) number hash (addr_sort stateVerified)
                              (Time parentHeader + period) period of
                         Inl e \<Rightarrow> Some (d, Inl e)
                       | Inr snap \<Rightarrow> Some (store_snap snap d, Inr snap))))"

definition next_header ::
  "keccak \<Rightarrow> chain \<Rightarrow> u64 \<Rightarrow> hash \<Rightarrow> Header list \<Rightarrow> dpos_error + Header \<times> Header list" where
  "next_header kh chain number hash parents =
     (if length parents > 0 then
        let header = last parents in
        if header_Hash kh header \<noteq> hash \<or> header_number header \<noteq> number then Inl ErrUnknownAncestor
        else Inr (header, butlast parents)
      else
        (case ch_GetHeader chain hash number of None \<Rightarrow> Inl ErrUnknownAncestor
         | Some header \<Rightarrow> Inr (header, parents)))"

text \<open>The search for a base snapshot; \<open>headers\<close> are those collected so far, newest first.\<close>

function snapshot_base ::
  "keccak \<Rightarrow> DPoS \<Rightarrow> chain \<Rightarrow> u64 \<Rightarrow> hash \<Rightarrow> Header list \<Rightarrow> Header list \<Rightarrow>
   DPoS \<times> (dpos_error + Snapshot \<times> Header list)" where
  "snapshot_base kh d chain number hash parents headers =
     (let found = map_prod id (map_sum id (\<lambda>s. (s, headers))) in
      case d_recents d hash of Some s \<Rightarrow> (d, Inr (s, headers))
      | None \<Rightarrow>
          if number = 0 then found (snapshot_genesis kh d chain)
          else
            (case (if number mod Epoch (d_config d) = 0
                   then (case d_db d of None \<Rightarrow> None | Some db \<Rightarrow> loadSnapshot (d_config d) db hash)
                   else None) of
               Some s \<Rightarrow> (d, Inr (s, headers))
             | None \<Rightarrow>
                (case (if number mod Epoch (d_config d) = 0 \<and>
                          (length headers > FullImmutabilityThreshold \<or>
                           ch_GetHeaderByNumber chain (number - 1) = None)
                       then snapshot_trust kh d chain number hash else None) of
                   Some r \<Rightarrow> found r
                 | None \<Rightarrow>
                    (case next_header kh chain number hash parents of Inl e \<Rightarrow> (d, Inl e)
                     | Inr (header, parents) \<Rightarrow>
                         snapshot_base kh d chain (number - 1) (ParentHash header) parents
                           (headers @ [header])))))"
  by pat_completeness auto
termination
  by (relation "measure (\<lambda>(_, _, _, number, _). unat number)") (auto simp: unat_minus_one unat_gt_0)

declare snapshot_base.simps [simp del]

definition snapshot ::
  "keccak \<Rightarrow> verifier \<Rightarrow> DPoS \<Rightarrow> chain \<Rightarrow> u64 \<Rightarrow> hash \<Rightarrow> Header list \<Rightarrow> DPoS \<times> (dpos_error + Snapshot)" where
  "snapshot kh verify d chain number hash parents =
     (case snapshot_base kh d chain number hash parents [] of
        (d, Inl e) \<Rightarrow> (d, Inl e)
      | (d, Inr (base, headers)) \<Rightarrow>
         (case snapshot_apply kh verify base (rev headers) of Inl e \<Rightarrow> (d, Inl e)
          | Inr snap \<Rightarrow>
              let snap = (case runtimeFinalizedBlock d of
                            Some finalized \<Rightarrow>
                              if header_number finalized \<le> snap_Number snap
                              then snap\<lparr>FinalizedNumber := header_number finalized,
                                        FinalizedHash := header_Hash kh finalized\<rparr>
                              else snap
                          | None \<Rightarrow> snap);
                  d = d\<lparr>d_recents := (d_recents d)(snap_Hash snap \<mapsto> snap)\<rparr>;
                  d = (if snap_Number snap mod Epoch (d_config d) = 0 \<and> length headers > 0
                       then store_snap snap d else d)
              in (d, Inr snap)))"

definition buildSignerSet ::
  "keccak \<Rightarrow> curves \<Rightarrow> DPoS \<Rightarrow> Snapshot \<Rightarrow> dpos_error + ValidatorSigner list" where
  "buildSignerSet kh curves d preSnap =
     (case d_db d of None \<Rightarrow> Inl errMissingDatabase
      | Some db \<Rightarrow>
         (case db_header db (snap_Hash preSnap) (snap_Number preSnap) of None \<Rightarrow> Inl errMissingHeader
          | Some preHeader \<Rightarrow>
             (case db_state db (Root preHeader) of None \<Rightarrow> Inl errMissingParentState
              | Some st \<Rightarrow> loadSignerSet kh curves (Some preSnap) st)))"


section \<open>Checkpoint certificates\<close>

definition parseCheckpointQCFromExtra :: "bytes \<Rightarrow> bool \<Rightarrow> bool \<Rightarrow> dpos_error + CheckpointQC option" where
  "parseCheckpointQCFromExtra extra isEpoch isCheckpointFinality =
     (let sealLen = extraSealEd25519 in
      if length extra < extraVanity + sealLen then Inr None
      else
        let middle = take (length extra - sealLen - extraVanity) (drop extraVanity extra);
            qcBytes =
              (if isEpoch \<and> isCheckpointFinality then
                 (if length middle = 0 then Inr []
                  else
                    let n = unat (middle ! 0); valEnd = 1 + n * 32 in
                    if valEnd > length middle then Inl errInvalidCheckpointQC else Inr (drop valEnd middle))
               else if isEpoch then Inr []
               else Inr middle)
        in case qcBytes of Inl e \<Rightarrow> Inl e
           | Inr qcBytes \<Rightarrow>
               if length qcBytes = 0 then Inr None
               else (case DecodeBytes decodeCheckpointQC qcBytes of
                       Inl _ \<Rightarrow> Inl errInvalidCheckpointQC | Inr qc \<Rightarrow> Inr (Some qc)))"

definition qc_structure_error :: "DPoSConfig \<Rightarrow> int option \<Rightarrow> u64 \<Rightarrow> CheckpointQC \<Rightarrow> dpos_error option" where
  "qc_structure_error cfg chainID number qc =
     (let k = CheckpointInterval cfg; voteNumber = vote_Number (qc_Vote qc); pop = BitmapPopcount (qc_Bitmap qc) in
      if voteNumber < first_eligible cfg then Some errInvalidQCNumber
      else if k > 0 \<and> voteNumber mod k \<noteq> 0 then Some errInvalidQCNumber
      else if number \<le> voteNumber then Some errInvalidQCNumber
      else if k > 0 \<and> number - voteNumber > 2 * k then Some errQCTooStale
      else if vote_ChainID (qc_Vote qc) = None \<or> chainID = None \<or> vote_ChainID (qc_Vote qc) \<noteq> chainID
      then Some errInvalidQCChainID
      else if pop = 0 then Some errQCBitmapOverflow
      else if word_of_nat pop > MaxValidators cfg then Some errQCBitmapOverflow
      else if length (qc_Signatures qc) \<noteq> pop then Some errQCSignatureCountMismatch
      else None)"

definition verifyCheckpointQCStructure :: "DPoS \<Rightarrow> chain \<Rightarrow> Header \<Rightarrow> dpos_error option" where
  "verifyCheckpointQCStructure d chain header =
     (if \<not> IsCheckpointFinality (Some (d_config d)) (Number header) then None
      else
        let number = header_number header; isEpoch = (number mod Epoch (d_config d) = 0) in
        (case parseCheckpointQCFromExtra (Extra header) isEpoch True of
           Inl e \<Rightarrow> Some e
         | Inr None \<Rightarrow> None
         | Inr (Some qc) \<Rightarrow> qc_structure_error (d_config d) (ch_ChainID chain) number qc))"

text \<open>The walk back to a height, and the loop over the bits of the bitmap.\<close>

fun walk_back :: "nat \<Rightarrow> chain \<Rightarrow> u64 \<Rightarrow> Header option \<Rightarrow> Header option" where
  "walk_back fuel chain target None = None"
| "walk_back 0 chain target (Some cur) = (if header_number cur > target then None else Some cur)"
| "walk_back (Suc fuel) chain target (Some cur) =
     (if header_number cur > target
      then walk_back fuel chain target (ch_GetHeader chain (ParentHash cur) (header_number cur - 1))
      else Some cur)"

definition ancestor_at :: "chain \<Rightarrow> u64 \<Rightarrow> Header option \<Rightarrow> Header option" where
  "ancestor_at chain target cur =
     walk_back (case cur of None \<Rightarrow> 0 | Some h \<Rightarrow> unat (header_number h)) chain target cur"

function qc_sig_loop ::
  "verifier \<Rightarrow> ValidatorSigner list \<Rightarrow> CheckpointQC \<Rightarrow> bytes \<Rightarrow> nat \<Rightarrow> nat \<Rightarrow> dpos_error + nat" where
  "qc_sig_loop verify signerSet qc digest i sigIdx =
     (if \<not> (i < 64 \<and> sigIdx < length (qc_Signatures qc)) then Inr sigIdx
      else if \<not> bit (qc_Bitmap qc) i then qc_sig_loop verify signerSet qc digest (Suc i) sigIdx
      else if i \<ge> length signerSet then Inl errQCBitmapOverflow
      else
        let rec = signerSet ! i in
        if vs_SignerType rec \<noteq> ''ed25519'' then Inl errQCInvalidSignature
        else if \<not> verify (vs_SignerPub rec) digest (qc_Signatures qc ! sigIdx) then Inl errQCInvalidSignature
        else qc_sig_loop verify signerSet qc digest (Suc i) (Suc sigIdx))"
  by pat_completeness auto
termination
  by (relation "measure (\<lambda>(_, _, _, _, i, _). 64 - i)") auto

declare qc_sig_loop.simps [simp del]

definition verifyCheckpointQCFull ::
  "keccak \<Rightarrow> verifier \<Rightarrow> curves \<Rightarrow> DPoS \<Rightarrow> chain \<Rightarrow> Header \<Rightarrow> Snapshot \<Rightarrow> DPoS \<times> dpos_error option" where
  "verifyCheckpointQCFull kh verify curves d chain header snap =
     (if \<not> IsCheckpointFinality (Some (d_config d)) (Number header) then (d, None)
      else
        let number = header_number header; isEpoch = (number mod Epoch (d_config d) = 0) in
        (case parseCheckpointQCFromExtra (Extra header) isEpoch True of
           Inl e \<Rightarrow> (d, Some e)
         | Inr None \<Rightarrow> (d, None)
         | Inr (Some qc) \<Rightarrow>
             let vote = qc_Vote qc in
             (case ch_GetHeader chain (ParentHash header) (number - 1) of
                None \<Rightarrow> (d, Some errQCNotAncestor)
              | Some cur \<Rightarrow>
             (case ancestor_at chain (vote_Number vote) (Some cur) of
                None \<Rightarrow> (d, Some errQCNotAncestor)
              | Some ancestor \<Rightarrow>
                  if header_number ancestor \<noteq> vote_Number vote then (d, Some errQCNotAncestor)
                  else if header_Hash kh ancestor \<noteq> vote_Hash vote then (d, Some errQCNotAncestor)
                  else if vote_Number vote = 0 then (d, Some errInvalidQCNumber)
                  else
             (case snapshot kh verify d chain (vote_Number vote - 1) (ParentHash ancestor) [] of
                (d, Inl e) \<Rightarrow> (d, Some e)
              | (d, Inr preSnap) \<Rightarrow>
             (case buildSignerSet kh curves d preSnap of
                Inl e \<Rightarrow> (d, Some e)
              | Inr signerSet \<Rightarrow>
                  if computeValidatorSetHash kh signerSet \<noteq> vote_ValidatorSetHash vote
                  then (d, Some errQCValidatorSetHashMismatch)
                  else
             (case qc_sig_loop verify signerSet qc (hash_bytes (SigningHash kh vote)) 0 0 of
                Inl e \<Rightarrow> (d, Some e)
              | Inr sigIdx \<Rightarrow>
                  if sigIdx < (2 * length signerSet + 2) div 3 then (d, Some errQCInsufficientSignatures)
                  else if FinalizedNumber snap > vote_Number vote then (d, None)
                  else if FinalizedNumber snap = vote_Number vote \<and> FinalizedNumber snap \<noteq> 0
                  then (if FinalizedHash snap \<noteq> vote_Hash vote then (d, Some errInvalidCheckpointQC)
                        else (d, None))
                  else (stageFinalityResult d (header_Hash kh header) (vote_Number vote) (vote_Hash vote)
                          (vote_ValidatorSetHash vote), None))))))))"

text \<open>The vote pool of an engine with checkpoint finality.\<close>

definition pool :: "DPoS \<Rightarrow> checkpointVotePool" where
  "pool d = (case d_votePool d of None \<Rightarrow> newCheckpointVotePool | Some p \<Rightarrow> p)"

definition set_pool :: "checkpointVotePool \<Rightarrow> DPoS \<Rightarrow> DPoS" where
  "set_pool p d = d\<lparr>d_votePool := Some p\<rparr>"

definition add_vote :: "string \<Rightarrow> CheckpointVoteEnvelope \<Rightarrow> DPoS \<Rightarrow> DPoS" where
  "add_vote source env d =
     (let prev = ExistingVote (pool d) (vote_Number (env_Vote env)) (env_Signer env);
          (p, added, equivocation) = AddVote (pool d) env;
          d = set_pool p d
      in if equivocation then emitVoteMonitorEvent d source prev env else d)"

definition prune_votes :: "u64 \<Rightarrow> u64 \<Rightarrow> DPoS \<Rightarrow> DPoS" where
  "prune_votes finalizedNumber head d =
     set_pool (Prune (pool d) finalizedNumber head (CheckpointInterval (d_config d))) d"

definition prune_at_head :: "chain \<Rightarrow> DPoS \<Rightarrow> DPoS" where
  "prune_at_head chain d =
     (case ch_CurrentHeader chain of None \<Rightarrow> d
      | Some head \<Rightarrow> if Number head = None then d
                     else prune_votes (runtimeFinalizedNumber d) (header_number head) d)"

definition addr_index :: "ValidatorSigner list \<Rightarrow> address \<Rightarrow> nat option" where
  "addr_index records = map_of (rev (zip (map vs_Address records) [0..<length records]))"

definition checkpoint_vote :: "int option \<Rightarrow> u64 \<Rightarrow> hash \<Rightarrow> hash \<Rightarrow> CheckpointVote" where
  "checkpoint_vote chainID number hash vsHash =
     \<lparr>vote_ChainID = chainID, vote_Number = number, vote_Hash = hash, vote_ValidatorSetHash = vsHash\<rparr>"

definition vote_sig_ok :: "verifier \<Rightarrow> ValidatorSigner list \<Rightarrow> bytes \<Rightarrow> CheckpointVoteEnvelope \<Rightarrow> bool" where
  "vote_sig_ok verify records digest env =
     (case addr_index records (env_Signer env) of None \<Rightarrow> False
      | Some idx \<Rightarrow> verify (vs_SignerPub (records ! idx)) digest (env_Signature env))"

definition promote_pending ::
  "verifier \<Rightarrow> ValidatorSigner list \<Rightarrow> hash \<Rightarrow> bytes \<Rightarrow> u64 \<Rightarrow> DPoS \<Rightarrow> DPoS" where
  "promote_pending verify records vsHash digest candidate d =
     (let (p, drained) = DrainPending (pool d) candidate in
      fold (\<lambda>env d.
          if vote_ValidatorSetHash (env_Vote env) \<noteq> vsHash then d
          else if \<not> vote_sig_ok verify records digest env then d
          else add_vote ''pending'' env d)
        drained (set_pool p d))"

definition valid_votes ::
  "verifier \<Rightarrow> ValidatorSigner list \<Rightarrow> bytes \<Rightarrow> CheckpointVoteEnvelope list \<Rightarrow> (nat \<times> bytes) list" where
  "valid_votes verify records digest envs =
     sort_by (\<lambda>x y. fst x < fst y)
       (map (\<lambda>env. (the (addr_index records (env_Signer env)), env_Signature env))
         (filter (vote_sig_ok verify records digest) envs))"

definition votes_bitmap :: "(nat \<times> bytes) list \<Rightarrow> u64" where
  "votes_bitmap vs = fold (\<lambda>(idx, _) bm. or bm (push_bit idx 1)) vs 0"

definition assembleCheckpointQC ::
  "keccak \<Rightarrow> verifier \<Rightarrow> curves \<Rightarrow> DPoS \<Rightarrow> chain \<Rightarrow> Header \<Rightarrow> Snapshot \<Rightarrow> DPoS \<times> CheckpointQC option" where
  "assembleCheckpointQC kh verify curves d chain header snap =
     (let cfg = d_config d; k = CheckpointInterval cfg in
      if d_votePool d = None \<or> k = 0 \<or> CheckpointFinalityBlock cfg = None then (d, None)
      else
        let number = header_number header; firstEligible = first_eligible cfg in
        if number \<le> firstEligible then (d, None)
        else
          let candidate = (number - 1) div k * k in
          if candidate < firstEligible then (d, None)
          else if candidate \<le> FinalizedNumber snap then (d, None)
          else
            (case ancestor_at chain candidate (Some header) of None \<Rightarrow> (d, None)
             | Some cpHeader \<Rightarrow>
                 if header_number cpHeader \<noteq> candidate then (d, None)
                 else
            (case snapshot kh verify d chain (candidate - 1) (ParentHash cpHeader) [] of
               (d, Inl e) \<Rightarrow> (d, None)
             | (d, Inr preSnap) \<Rightarrow>
            (case buildSignerSet kh curves d preSnap of Inl e \<Rightarrow> (d, None)
             | Inr records \<Rightarrow>
                 let vsHash = computeValidatorSetHash kh records;
                     vote = checkpoint_vote (ch_ChainID chain) candidate (header_Hash kh cpHeader) vsHash;
                     digest = hash_bytes (SigningHash kh vote);
                     d = promote_pending verify records vsHash digest candidate d;
                     validVotes = valid_votes verify records digest
                       (GetVotes (pool d) candidate (header_Hash kh cpHeader))
                 in if length validVotes < (2 * length records + 2) div 3 then (d, None)
                    else (d, Some \<lparr>qc_Vote = vote, qc_Bitmap = votes_bitmap validVotes,
                                   qc_Signatures = map snd validVotes\<rparr>)))))"

section \<open>Votes\<close>

definition HandleIncomingVote ::
  "keccak \<Rightarrow> verifier \<Rightarrow> curves \<Rightarrow> DPoS \<Rightarrow> CheckpointVoteEnvelope option \<Rightarrow> DPoS \<times> bool" where
  "HandleIncomingVote kh verify curves d envo =
     (case (d_votePool d, envo, d_chain d) of
        (Some _, Some env, Some chain) \<Rightarrow>
          let cfg = d_config d; k = CheckpointInterval cfg; vote = env_Vote env; n = vote_Number vote in
          if k = 0 \<or> CheckpointFinalityBlock cfg = None then (d, False)
          else if vote_ChainID vote = None \<or> d_chainID d = None \<or> vote_ChainID vote \<noteq> d_chainID d then (d, False)
          else if n = 0 \<or> n < first_eligible cfg then (d, False)
          else if n mod k \<noteq> 0 then (d, False)
          else if (case ch_CurrentHeader chain of None \<Rightarrow> False
                   | Some head \<Rightarrow> Number head \<noteq> None \<and>
                       (let headNumber = header_number head in
                        headNumber > 2 * k \<and> n < headNumber - 2 * k \<or> n > headNumber + 2 * k))
          then (d, False)
          else
            (case ch_GetHeader chain (vote_Hash vote) n of
               None \<Rightarrow> (prune_at_head chain (set_pool (AddPending (pool d) env) d), False)
             | Some cpHeader \<Rightarrow>
            (case snapshot kh verify d chain (n - 1) (ParentHash cpHeader) [] of
               (d, Inl e) \<Rightarrow> (prune_at_head chain (set_pool (AddPending (pool d) env) d), False)
             | (d, Inr preSnap) \<Rightarrow>
            (case buildSignerSet kh curves d preSnap of Inl e \<Rightarrow> (d, False)
             | Inr records \<Rightarrow>
                 if addr_index records (env_Signer env) = None then (d, False)
                 else
                   let vsHash = computeValidatorSetHash kh records in
                   if vote_ValidatorSetHash vote \<noteq> vsHash then (d, False)
                   else
                     let digest = hash_bytes (SigningHash kh (checkpoint_vote (d_chainID d) n (vote_Hash vote) vsHash)) in
                     if \<not> vote_sig_ok verify records digest env then (d, False)
                     else (prune_at_head chain (add_vote ''p2p'' env d), True))))
      | _ \<Rightarrow> (d, False))"

definition broadcast :: "CheckpointVoteEnvelope \<Rightarrow> DPoS \<Rightarrow> DPoS" where
  "broadcast env d = (if d_broadcastVoteFn d then d\<lparr>d_sent := d_sent d @ [env]\<rparr> else d)"

definition signer_pub :: "ValidatorSigner list \<Rightarrow> address \<Rightarrow> bytes option" where
  "signer_pub records v = map_option vs_SignerPub (find (\<lambda>r. vs_Address r = v) records)"

definition write_signed :: "u64 \<Rightarrow> hash \<Rightarrow> DPoS \<Rightarrow> DPoS" where
  "write_signed number hash d =
     d\<lparr>d_db := map_option (\<lambda>db. db\<lparr>db_kv := WriteSignedCheckpoint (db_kv db) number hash\<rparr>) (d_db d)\<rparr>"

definition maybeProduceCheckpointVote ::
  "keccak \<Rightarrow> verifier \<Rightarrow> curves \<Rightarrow> DPoS \<Rightarrow> chain \<Rightarrow> Header \<Rightarrow> Snapshot \<Rightarrow> address \<Rightarrow> signer_fn \<Rightarrow> DPoS" where
  "maybeProduceCheckpointVote kh verify curves d chain header snap v signFn =
     (let cfg = d_config d; k = CheckpointInterval cfg in
      if k = 0 \<or> CheckpointFinalityBlock cfg = None then d
      else
        let number = header_number header; firstEligible = first_eligible cfg in
        if number \<le> firstEligible then d
        else
          let candidate = (number - 1) div k * k in
          if candidate < firstEligible \<or> candidate \<le> FinalizedNumber snap then d
          else
            (case ch_GetHeaderByNumber chain candidate of None \<Rightarrow> d
             | Some cpHeader \<Rightarrow>
                 let cpHash = header_Hash kh cpHeader in
                 if (case d_db d of None \<Rightarrow> False
                     | Some db \<Rightarrow> (case ReadSignedCheckpoint (db_kv db) candidate of
                                     None \<Rightarrow> False | Some existing \<Rightarrow> existing \<noteq> cpHash))
                 then d
                 else
            (case snapshot kh verify d chain (candidate - 1) (ParentHash cpHeader) [] of
               (d, Inl e) \<Rightarrow> d
             | (d, Inr preSnap) \<Rightarrow>
            (case buildSignerSet kh curves d preSnap of Inl e \<Rightarrow> d
             | Inr records \<Rightarrow>
                 let vote = checkpoint_vote (ch_ChainID chain) candidate cpHash (computeValidatorSetHash kh records) in
                 if (case signer_pub records v of None \<Rightarrow> True | Some pub \<Rightarrow> length pub = 0) then d
                 else
                   (case signFn v (hash_bytes (SigningHash kh vote)) of None \<Rightarrow> d
                    | Some rawSig \<Rightarrow>
                        if length rawSig \<noteq> 64 then d
                        else
                          let env = \<lparr>env_Vote = vote, env_Signer = v, env_Signature = rawSig\<rparr>
                          in broadcast env (add_vote ''local'' env (write_signed candidate cpHash d)))))))"

definition regossip ::
  "keccak \<Rightarrow> verifier \<Rightarrow> curves \<Rightarrow> chain \<Rightarrow> address \<Rightarrow> signer_fn \<Rightarrow> u64 \<times> hash \<Rightarrow> DPoS \<Rightarrow> DPoS" where
  "regossip kh verify curves chain v signFn = (\<lambda>(candidate, hash) d.
     (case ch_GetHeaderByNumber chain candidate of None \<Rightarrow> d
      | Some cpHeader \<Rightarrow>
          if header_Hash kh cpHeader \<noteq> hash then d
          else
     (case snapshot kh verify d chain (candidate - 1) (ParentHash cpHeader) [] of
        (d, Inl e) \<Rightarrow> d
      | (d, Inr preSnap) \<Rightarrow>
     (case buildSignerSet kh curves d preSnap of Inl e \<Rightarrow> d
      | Inr records \<Rightarrow>
          if signer_pub records v = None then d
          else
            let vote = checkpoint_vote (ch_ChainID chain) candidate hash (computeValidatorSetHash kh records) in
            (case signFn v (hash_bytes (SigningHash kh vote)) of None \<Rightarrow> d
             | Some rawSig \<Rightarrow>
                 if length rawSig \<noteq> 64 then d
                 else
                   let env = \<lparr>env_Vote = vote, env_Signer = v, env_Signature = rawSig\<rparr>
                   in broadcast env (add_vote ''restart-gossip'' env d))))))"

definition RestartGossip ::
  "keccak \<Rightarrow> verifier \<Rightarrow> curves \<Rightarrow> DPoS \<Rightarrow> chain \<Rightarrow> u64 \<Rightarrow> DPoS" where
  "RestartGossip kh verify curves d chain finalizedNumber =
     (case (d_db d, d_votePool d, d_signFn d) of
        (Some db, Some _, Some signFn) \<Rightarrow>
          if d_validator d = 0 then d
          else fold (regossip kh verify curves chain (d_validator d) signFn)
                 (ListUnsettledSignedCheckpoints (db_kv db) finalizedNumber) d
      | _ \<Rightarrow> d)"


section \<open>Construction\<close>

definition New :: "DPoSConfig option \<Rightarrow> chaindb option \<Rightarrow> config_error + DPoS" where
  "New config db =
     (case config of None \<Rightarrow> Inl ErrMissingConfig
      | Some config \<Rightarrow>
          if Epoch config = 0 then Inl ErrEpochZero
          else if TargetBlockPeriodMs (Some config) = 0 then Inl ErrPeriodZero
          else if MaxValidators config = 0 then Inl ErrMaxValidatorsZero
          else
         (case ValidateTurnLengthConfig config of Inl e \<Rightarrow> Inl e
          | Inr _ \<Rightarrow>
         (case ValidateMaintenanceConfig config of Inl e \<Rightarrow> Inl e
          | Inr config \<Rightarrow>
         (case NormalizeDPoSSealSignerType (SealSignerType config) of Inl e \<Rightarrow> Inl e
          | Inr sealSignerType \<Rightarrow>
         (case ValidateCheckpointConfig (config\<lparr>SealSignerType := sealSignerType\<rparr>) of Inl e \<Rightarrow> Inl e
          | Inr config \<Rightarrow>
              Inr \<lparr>d_config = config, d_db = db, d_recents = Map.empty, d_finality = Map.empty,
                d_sealLength = sealLengthForSignerType (SealSignerType config), d_chain = None,
                d_validator = 0, d_signFn = None,
                d_votePool = (if CheckpointFinalityBlock config \<noteq> None then Some newCheckpointVotePool else None),
                d_broadcastVoteFn = False, d_setFinalizedFn = False, d_chainID = None,
                d_finalizedVSHash = None, d_voteMonitorFn = False, d_deferredEpochChecks = {},
                fakeDiff = False, fakeFailAt = 0, fakeFailSet = False, d_sent = [], d_events = []\<rparr>)))))"

section \<open>Header verification\<close>

text \<open>consensus/misc/gaslimit.go; the difference is taken in 64-bit signed arithmetic.\<close>

definition VerifyGaslimit :: "u64 \<Rightarrow> u64 \<Rightarrow> dpos_error option" where
  "VerifyGaslimit parentGasLimit headerGasLimit =
     (let diff = parentGasLimit - headerGasLimit;
          diff = (if sint diff < 0 then diff * (-1) else diff);
          limit = parentGasLimit div GasLimitBoundDivisor
      in if diff \<ge> limit then Some errGasLimit
         else if headerGasLimit < MinGasLimit then Some errGasLimit
         else None)"

definition extra_middle :: "nat \<Rightarrow> bytes \<Rightarrow> bytes" where
  "extra_middle sealLength extra = take (length extra - sealLength - extraVanity) (drop extraVanity extra)"

definition parent_header :: "chain \<Rightarrow> Header \<Rightarrow> Header list \<Rightarrow> Header option" where
  "parent_header chain header parents =
     (if length parents > 0 then Some (last parents)
      else ch_GetHeader chain (ParentHash header) (header_number header - 1))"

definition verifySeal :: "keccak \<Rightarrow> verifier \<Rightarrow> DPoS \<Rightarrow> Snapshot \<Rightarrow> Header \<Rightarrow> dpos_error option" where
  "verifySeal kh verify d snap header =
     (if header_number header = 0 then Some errUnknownBlock
      else
        (case recoverHeaderSigner kh verify (Some (d_config d)) header of Inl e \<Rightarrow> Some e
         | Inr signer \<Rightarrow>
             if signer \<noteq> Coinbase header then Some errInvalidCoinbase
             else if signer \<notin> ValidatorsMap snap then Some errUnauthorizedValidator
             else
               (case headerSlot (Time header) (GenesisTime snap) (snap_PeriodMs snap) of
                  None \<Rightarrow> Some errInvalidTimestamp
                | Some slot \<Rightarrow>
                    if recentlySignedAt snap slot signer then Some errRecentlySigned
                    else if \<not> fakeDiff d \<and> inturnSlot snap slot signer \<and> Difficulty header \<noteq> Some diffInTurn
                    then Some errWrongDifficulty
                    else if \<not> fakeDiff d \<and> \<not> inturnSlot snap slot signer \<and> Difficulty header \<noteq> Some diffNoTurn
                    then Some errWrongDifficulty
                    else None)))"

definition epoch_shape_error :: "bool \<Rightarrow> bytes \<Rightarrow> dpos_error option" where
  "epoch_shape_error cfActive middle =
     (if cfActive then
        (if length middle = 0 then Some errInvalidCheckpointValidators
         else
           let n = unat (middle ! 0); valEnd = 1 + n * 32 in
           if valEnd > length middle then Some errInvalidCheckpointValidators
           else if n = 0 then Some errInvalidCheckpointValidators
           else None)
      else if length middle = 0 \<or> length middle mod 32 \<noteq> 0 then Some errInvalidCheckpointValidators
      else None)"

definition epoch_extra_error ::
  "keccak \<Rightarrow> DPoS \<Rightarrow> Header \<Rightarrow> Header \<Rightarrow> Snapshot \<Rightarrow> DPoS \<times> dpos_error option" where
  "epoch_extra_error kh d header parent snap =
     (case activeValidatorsAtRoot kh d (Root parent) (header_number header) of
        Inr expected \<Rightarrow>
          (d, verifyEpochExtraAgainstValidators d header
                (if length expected = 0 then Validators snap else expected))
      | Inl e \<Rightarrow>
          if e = errMissingParentState
          then (d\<lparr>d_deferredEpochChecks := insert (header_Hash kh header) (d_deferredEpochChecks d)\<rparr>, None)
          else (d, Some e))"

definition verifyCascadingFields ::
  "keccak \<Rightarrow> verifier \<Rightarrow> DPoS \<Rightarrow> chain \<Rightarrow> Header \<Rightarrow> Header list \<Rightarrow> DPoS \<times> dpos_error option" where
  "verifyCascadingFields kh verify d chain header parents =
     (let number = header_number header;
          isEpoch = (number mod Epoch (d_config d) = 0);
          cfActive = IsCheckpointFinality (Some (d_config d)) (Number header)
      in case parent_header chain header parents of None \<Rightarrow> (d, Some ErrUnknownAncestor)
         | Some parent \<Rightarrow>
             if header_number parent \<noteq> number - 1 \<or> header_Hash kh parent \<noteq> ParentHash header
             then (d, Some ErrUnknownAncestor)
             else if GasUsed header > GasLimit header then (d, Some errGasUsed)
             else
         (case (if isEpoch then epoch_shape_error cfActive (extra_middle (d_sealLength d) (Extra header)) else None) of
            Some e \<Rightarrow> (d, Some e)
          | None \<Rightarrow>
             if Time header < Time parent + TargetBlockPeriodMs (Some (d_config d)) then (d, Some errInvalidTimestamp)
             else
         (case snapshot kh verify d chain (number - 1) (ParentHash header) parents of
            (d, Inl e) \<Rightarrow> (d, Some e)
          | (d, Inr snap) \<Rightarrow>
             if Time header < GenesisTime snap \<or> Time parent < GenesisTime snap then (d, Some errInvalidTimestamp)
             else
         (case (headerSlot (Time parent) (GenesisTime snap) (snap_PeriodMs snap),
                headerSlot (Time header) (GenesisTime snap) (snap_PeriodMs snap)) of
            (Some parentSlot, Some hdrSlot) \<Rightarrow>
              if hdrSlot \<le> parentSlot then (d, Some errInvalidSlot)
              else
         (case (if isEpoch then epoch_extra_error kh d header parent snap else (d, None)) of
            (d, Some e) \<Rightarrow> (d, Some e)
          | (d, None) \<Rightarrow>
         (case verifyCheckpointQCStructure d chain header of Some e \<Rightarrow> (d, Some e)
          | None \<Rightarrow> (d, verifySeal kh verify d snap header)))
          | _ \<Rightarrow> (d, Some errInvalidTimestamp)))))"

definition extra_shape_error :: "DPoS \<Rightarrow> Header \<Rightarrow> dpos_error option" where
  "extra_shape_error d header =
     (let number = header_number header; extra = Extra header in
      if number = 0 then
        (if length extra < extraVanity then Some errMissingVanity
         else if (length extra - extraVanity) mod 32 \<noteq> 0 then Some errInvalidCheckpointValidators
         else None)
      else if length extra < extraVanity + d_sealLength d then Some errMissingSignature
      else
        let isEpoch = (number mod Epoch (d_config d) = 0);
            cfActive = IsCheckpointFinality (Some (d_config d)) (Number header);
            middle = extra_middle (d_sealLength d) extra
        in if isEpoch then epoch_shape_error cfActive middle
           else if \<not> cfActive \<and> length middle \<noteq> 0 then Some errExtraValidators
           else None)"

definition verifyHeader ::
  "keccak \<Rightarrow> verifier \<Rightarrow> u64 \<Rightarrow> DPoS \<Rightarrow> chain \<Rightarrow> Header \<Rightarrow> Header list \<Rightarrow> DPoS \<times> dpos_error option" where
  "verifyHeader kh verify now d chain header parents =
     (let number = header_number header in
      if Number header = None then (d, Some errUnknownBlock)
      else if fakeFailSet d \<and> number \<ge> fakeFailAt d then (d, Some errUnknownBlock)
      else if Time header > now + 2 * TargetBlockPeriodMs (Some (d_config d)) then (d, Some ErrFutureBlock)
      else if fakeDiff d then
        (if number > 0 \<and>
            (if length parents > 0 \<and> header_number (last parents) = number - 1 then Some (last parents)
             else ch_GetHeader chain (ParentHash header) (number - 1)) = None
         then (d, Some ErrUnknownAncestor) else (d, None))
      else if UncleHash header \<noteq> EmptyUncleHash kh then (d, Some errInvalidUncleHash)
      else if MixDigest header \<noteq> 0 then (d, Some errInvalidMixDigest)
      else if Nonce header \<noteq> 0 then (d, Some errInvalidNonce)
      else if number > 0 \<and> Difficulty header \<noteq> Some diffInTurn \<and> Difficulty header \<noteq> Some diffNoTurn
      then (d, Some errInvalidDifficulty)
      else
        (case extra_shape_error d header of Some e \<Rightarrow> (d, Some e)
         | None \<Rightarrow>
             if GasLimit header > MaxGasLimit then (d, Some errGasLimit)
             else
        (case (if number > 0 then
                 (case parent_header chain header parents of None \<Rightarrow> Some ErrUnknownAncestor
                  | Some parent \<Rightarrow> VerifyGaslimit (GasLimit parent) (GasLimit header))
               else None) of
           Some e \<Rightarrow> (d, Some e)
         | None \<Rightarrow>
             if number = 0 then (d, None)
             else verifyCascadingFields kh verify d chain header parents)))"

fun verify_headers_from ::
  "keccak \<Rightarrow> verifier \<Rightarrow> u64 \<Rightarrow> DPoS \<Rightarrow> chain \<Rightarrow> Header list \<Rightarrow> Header list \<Rightarrow> DPoS \<times> dpos_error option list" where
  "verify_headers_from kh verify now d chain done [] = (d, [])"
| "verify_headers_from kh verify now d chain done (header # headers) =
     (case verifyHeader kh verify now d chain header done of (d, err) \<Rightarrow>
        case verify_headers_from kh verify now d chain (done @ [header]) headers of
          (d, errs) \<Rightarrow> (d, err # errs))"

definition VerifyHeaders ::
  "keccak \<Rightarrow> verifier \<Rightarrow> u64 \<Rightarrow> DPoS \<Rightarrow> chain \<Rightarrow> Header list \<Rightarrow> DPoS \<times> dpos_error option list" where
  "VerifyHeaders kh verify now d chain headers = verify_headers_from kh verify now d chain [] headers"

section \<open>Verification against the state, and finality\<close>

definition VerifyEpochExtra :: "keccak \<Rightarrow> DPoS \<Rightarrow> Header \<Rightarrow> dpos_error option" where
  "VerifyEpochExtra kh d header =
     (let number = header_number header in
      if fakeDiff d then None
      else if number = 0 \<or> number mod Epoch (d_config d) \<noteq> 0 then None
      else
        (case d_db d of None \<Rightarrow> Some errMissingDatabase
         | Some db \<Rightarrow>
        (case db_header db (ParentHash header) (number - 1) of None \<Rightarrow> Some ErrUnknownAncestor
         | Some parent \<Rightarrow>
        (case fallbackValidatorsFromHeader d (rawChainReader db) (Some parent) of Inl e \<Rightarrow> Some e
         | Inr fallback \<Rightarrow>
        (case expectedEpochValidators kh d parent fallback of Inl e \<Rightarrow> Some e
         | Inr expected \<Rightarrow> verifyEpochExtraAgainstValidators d header expected)))))"

definition VerifyFinalizedState ::
  "keccak \<Rightarrow> verifier \<Rightarrow> curves \<Rightarrow> DPoS \<Rightarrow> Header \<Rightarrow> DPoS \<times> dpos_error option" where
  "VerifyFinalizedState kh verify curves d header =
     (case VerifyEpochExtra kh d header of Some e \<Rightarrow> (d, Some e)
      | None \<Rightarrow>
          let d = d\<lparr>d_deferredEpochChecks := d_deferredEpochChecks d - {header_Hash kh header}\<rparr> in
          if IsCheckpointFinality (Some (d_config d)) (Number header) \<and> header_number header > 0 then
            (case d_db d of None \<Rightarrow> (d, None)
             | Some db \<Rightarrow>
                 let rawChain = rawChainReader db in
                 (case snapshot kh verify d rawChain (header_number header - 1) (ParentHash header) [] of
                    (d, Inl e) \<Rightarrow> (d, Some e)
                  | (d, Inr snap) \<Rightarrow> verifyCheckpointQCFull kh verify curves d rawChain header snap))
          else (d, None))"

definition set_finalized :: "hash \<Rightarrow> DPoS \<Rightarrow> DPoS" where
  "set_finalized hash d = d\<lparr>d_db := map_option (\<lambda>db. db\<lparr>db_finalized := hash\<rparr>) (d_db d)\<rparr>"

definition set_vs_hash :: "hash \<Rightarrow> DPoS \<Rightarrow> DPoS" where
  "set_vs_hash vsHash d =
     d\<lparr>d_db := map_option (\<lambda>db. db\<lparr>db_vsHash := vsHash\<rparr>) (d_db d), d_finalizedVSHash := Some vsHash\<rparr>"

definition OnCanonicalBlock :: "keccak \<Rightarrow> DPoS \<Rightarrow> Header option \<Rightarrow> DPoS" where
  "OnCanonicalBlock kh d block =
     (case block of None \<Rightarrow> d
      | Some header \<Rightarrow>
         (case d_finality d (header_Hash kh header) of None \<Rightarrow> d
          | Some result \<Rightarrow>
              let d = d\<lparr>d_finality := (d_finality d)(header_Hash kh header := None)\<rparr> in
              if (case runtimeFinalizedBlock d of None \<Rightarrow> False
                  | Some current \<Rightarrow> fr_FinalizedNumber result \<le> header_number current)
              then d
              else
                (case d_db d of
                   None \<Rightarrow> d\<lparr>d_finalizedVSHash := Some (fr_ValidatorSetHash result)\<rparr>
                 | Some db \<Rightarrow>
                     (case db_header db (fr_FinalizedHash result) (fr_FinalizedNumber result) of
                        None \<Rightarrow> d
                      | Some finalizedHeader \<Rightarrow>
                          set_vs_hash (fr_ValidatorSetHash result)
                            (if d_setFinalizedFn d then set_finalized (header_Hash kh finalizedHeader) d else d)))))"

definition CalcDifficulty ::
  "keccak \<Rightarrow> verifier \<Rightarrow> DPoS \<Rightarrow> chain \<Rightarrow> u64 \<Rightarrow> Header \<Rightarrow> DPoS \<times> int" where
  "CalcDifficulty kh verify d chain time parent =
     (if fakeDiff d then (d, diffNoTurn)
      else
        (case snapshot kh verify d chain (header_number parent) (header_Hash kh parent) [] of
           (d, Inl e) \<Rightarrow> (d, diffNoTurn)
         | (d, Inr snap) \<Rightarrow> (d, calcDifficultySlot snap time (d_validator d))))"

end
