(* ===== verification/Scenario.thy ===== *)
theory Scenario
  imports Engine
begin

text \<open>
  A small concrete chain on which the theorems about the engine are instantiated: one validator, a genesis
  block, two competing blocks at height one, and for each of them a block at height two that carries a
  certificate for it. The hash is a checksum and every signature verifies; both are instances of
  the parameters, chosen so that the engine can be evaluated.
\<close>

section \<open>Evaluation with binary integers\<close>

fun int_bytes :: "nat \<Rightarrow> int \<Rightarrow> bytes" where
  "int_bytes 0 n = []"
| "int_bytes (Suc k) n = int_bytes k (n div 256) @ [word_of_int (n mod 256)]"

definition bytes_int :: "bytes \<Rightarrow> int" where
  "bytes_int bs = fold (\<lambda>b acc. acc * 256 + uint b) bs 0"

lemma be_bytes_int: "0 \<le> n \<Longrightarrow> be_bytes k (nat n) = int_bytes k n"
proof (induction k arbitrary: n)
  case (Suc k)
  have "nat n div 256 = nat (n div 256)" "int (nat n mod 256) = n mod 256"
    using Suc.prems by (simp_all add: nat_div_distrib zmod_int)
  then have "word_of_nat (nat n mod 256) = (word_of_int (n mod 256) :: byte)"
    by (metis of_int_of_nat_eq)
  then show ?case using Suc by (simp add: \<open>nat n div 256 = nat (n div 256)\<close>)
qed simp

lemma be_nat_int: "int (be_nat bs) = bytes_int bs"
proof (induction bs rule: rev_induct)
  case (snoc b bs)
  have "int (unat b) = uint b" by simp
  then show ?case using snoc by (simp add: bytes_int_def be_nat_append del: nat_uint_eq)
qed (simp add: bytes_int_def)

lemma word_be_nat: "word_of_nat (be_nat bs) = (word_of_int (bytes_int bs) :: 'a::len word)"
  by (metis be_nat_int of_int_of_nat_eq)

lemma bytes_code [code]:
  "hash_bytes h = int_bytes 32 (uint h)"
  "addr_bytes a = int_bytes 32 (uint a)"
  "u64_bytes n = int_bytes 8 (uint n)"
  "BytesToHash b = word_of_int (bytes_int (drop (length b - 32) b))"
  "BytesToAddress b = word_of_int (bytes_int (drop (length b - 32) b))"
  unfolding hash_bytes_def addr_bytes_def u64_bytes_def BytesToHash_def BytesToAddress_def word_be_nat
  by (simp_all add: be_bytes_int [symmetric])

section \<open>The chain\<close>

definition sum_hash :: keccak where
  "sum_hash b = word_of_int (fold (\<lambda>x acc. (acc * 31 + uint x) mod 1000003) b 7)"

definition sc_verify :: verifier where
  "sc_verify pub msg sig = (length sig = 64)"

definition sc_curves :: curves where
  "sc_curves t b = None"

definition sc_pub :: bytes where
  "sc_pub = replicate 32 1"

definition sc_validator :: address where
  "sc_validator = sum_hash sc_pub"

definition sc_config :: DPoSConfig where
  "sc_config = \<lparr>PeriodMs = 360, Epoch = 1664, MaxValidators = 15, RecentSignerWindow = 0,
     TurnLength = 16, SealSignerType = ''ed25519'', MaintenanceMaxBlocks = 10,
     CheckpointInterval = 1, CheckpointFinalityBlock = Some 1\<rparr>"

text \<open>The signer record of the validator, slot by slot.\<close>

definition sc_slots :: "(hash \<times> hash) list" where
  "sc_slots = [(71607, 1), (372945, 7), (580575, 66),
     (892286, 45860628935184057030566589215879866191691344188376650927136270054449886527488),
     (358988, 21923370989707450271616409270980041319846789440450315715764761970491276734513),
     (358989, 21797924848108184984215995148427294105223038083772146769738127930199500730417),
     (358990, 21797592238170927474069141266665385729763668835754511086346255705347050176512)]"

definition sc_state :: statedb where
  "sc_state = empty_statedb\<lparr>st_storage := \<lambda>a k. case map_of sc_slots k of None \<Rightarrow> 0 | Some v \<Rightarrow> v\<rparr>"

definition sc_header :: "int \<Rightarrow> hash \<Rightarrow> u64 \<Rightarrow> bytes \<Rightarrow> Header" where
  "sc_header n parent used extra = \<lparr>ParentHash = parent, UncleHash = EmptyUncleHash sum_hash, Coinbase = sc_validator,
     Root = 5, TxHash = 0, ReceiptHash = 0, Bloom = [], Difficulty = Some 2, Number = Some n, GasLimit = 5000,
     GasUsed = used, Time = 1000 + 360 * word_of_int n, Extra = extra, MixDigest = 0, Nonce = 0, BaseFee = None\<rparr>"

definition sc_seal :: bytes where
  "sc_seal = sc_pub @ replicate 64 9"

definition sc_genesis :: Header where
  "sc_genesis = sc_header 0 0 0 (replicate 32 0 @ addr_bytes sc_validator)"

definition sc_h0 :: hash where
  "sc_h0 = 712296"

definition sc_block1 :: "u64 \<Rightarrow> Header" where
  "sc_block1 used = sc_header 1 sc_h0 used (replicate 32 0 @ sc_seal)"

text \<open>The hashes of the two branches, told apart by the gas used in the block at height one.\<close>

definition sc_h1 :: "u64 \<Rightarrow> hash" where
  "sc_h1 used = (if used = 0 then 503502 else 331599)"

definition sc_signers :: "ValidatorSigner list" where
  "sc_signers = [\<lparr>vs_Address = sc_validator, vs_SignerType = ''ed25519'', vs_SignerPub = sc_pub\<rparr>]"

definition sc_vsHash :: hash where
  "sc_vsHash = 603542"

definition sc_qc :: "u64 \<Rightarrow> CheckpointQC" where
  "sc_qc used = \<lparr>qc_Vote = checkpoint_vote (Some 1) 1 (sc_h1 used) sc_vsHash,
     qc_Bitmap = 1, qc_Signatures = [replicate 64 3]\<rparr>"

definition sc_block2 :: "u64 \<Rightarrow> Header" where
  "sc_block2 used = sc_header 2 (sc_h1 used) 0
     (replicate 32 0 @ EncodeToBytes (qc_rlp (sc_qc used)) @ sc_seal)"

definition sc_tree :: "u64 \<Rightarrow> hash \<Rightarrow> Header option" where
  "sc_tree used = [sc_h0 \<mapsto> sc_genesis, sc_h1 used \<mapsto> sc_block1 used]"

definition sc_get :: "u64 \<Rightarrow> hash \<Rightarrow> u64 \<Rightarrow> Header option" where
  "sc_get used hash n = (case sc_tree used hash of None \<Rightarrow> None
     | Some h \<Rightarrow> if header_number h = n then Some h else None)"

definition sc_canonical :: "u64 \<Rightarrow> u64 \<Rightarrow> hash" where
  "sc_canonical used n = (if n = 0 then sc_h0 else if n = 1 then sc_h1 used else 0)"

definition sc_chain :: "u64 \<Rightarrow> chain" where
  "sc_chain used = \<lparr>ch_ChainID = Some 1, ch_CurrentHeader = Some (sc_block1 used), ch_GetHeader = sc_get used,
     ch_GetHeaderByNumber = (\<lambda>n. sc_get used (sc_canonical used n) n)\<rparr>"

definition sc_db :: "u64 \<Rightarrow> chaindb" where
  "sc_db used = \<lparr>db_header = sc_get used, db_number = (\<lambda>h. map_option header_number (sc_tree used h)),
     db_canonical = sc_canonical used, db_state = (\<lambda>r. if r = 5 then Some sc_state else None),
     db_finalized = 0, db_vsHash = 0, db_snapshots = Map.empty, db_kv = []\<rparr>"

definition sc_engine :: "u64 \<Rightarrow> DPoS" where
  "sc_engine used = \<lparr>d_config = sc_config, d_db = Some (sc_db used), d_recents = Map.empty, d_finality = Map.empty,
     d_sealLength = 96, d_chain = None, d_validator = 0, d_signFn = None, d_votePool = Some newCheckpointVotePool,
     d_broadcastVoteFn = False, d_setFinalizedFn = False, d_chainID = None, d_finalizedVSHash = None,
     d_voteMonitorFn = False, d_deferredEpochChecks = {}, fakeDiff = False, fakeFailAt = 0, fakeFailSet = False,
     d_sent = [], d_events = []\<rparr>"


section \<open>The signer record\<close>

lemma sc_slot_names:
  "signerExistsSlot sum_hash = 71607" "signerTypeLenSlot sum_hash = 372945" "signerValueLenSlot sum_hash = 580575"
  "signerChunkSlot sum_hash (signerTypeBaseSlot sum_hash) 0 = 892286"
  "signerChunkSlot sum_hash (signerValueBaseSlot sum_hash) 0 = 358988"
  "signerChunkSlot sum_hash (signerValueBaseSlot sum_hash) 1 = 358989"
  "signerChunkSlot sum_hash (signerValueBaseSlot sum_hash) 2 = 358990"
  by code_simp+

lemma sc_slot_values:
  "GetState sc_state a 71607 = 1" "GetState sc_state a 372945 = 7" "GetState sc_state a 580575 = 66"
  "hash_bytes (GetState sc_state a 892286) = str_bytes ''ed25519'' @ replicate 25 0"
  "hash_bytes (GetState sc_state a 358988) = take 32 (str_bytes (hexutil_Encode sc_pub))"
  "hash_bytes (GetState sc_state a 358989) = take 32 (drop 32 (str_bytes (hexutil_Encode sc_pub)))"
  "take 2 (hash_bytes (GetState sc_state a 358990)) = drop 64 (str_bytes (hexutil_Encode sc_pub))"
  by code_simp+

lemma sc_words: "hash_byte31 1 = 1" "hash_u64 7 = 7" "hash_u64 66 = 66" "chunkCount 7 = 1" "chunkCount 66 = 3"
  by code_simp+

lemma sc_type: "readBytes sum_hash sc_state sc_validator (signerTypeBaseSlot sum_hash) 7 = str_bytes ''ed25519''"
  by (simp add: readBytes_def sc_words sc_slot_names sc_slot_values str_bytes_def)

lemma sc_value: "readBytes sum_hash sc_state sc_validator (signerValueBaseSlot sum_hash) 66 = str_bytes (hexutil_Encode sc_pub)"
proof -
  let ?v = "str_bytes (hexutil_Encode sc_pub)"
  have len: "length ?v = 66" by (simp add: str_bytes_def hexutil_Encode_def length_hex_encode sc_pub_def)
  have upt: "[0..<3] = [0, 1, 2 :: nat]" by (simp add: upt_rec)
  have "readBytes sum_hash sc_state sc_validator (signerValueBaseSlot sum_hash) 66 = take 32 ?v @ take 32 (drop 32 ?v) @ drop 64 ?v"
    by (simp add: readBytes_def sc_words sc_slot_names sc_slot_values upt len)
  also have "\<dots> = ?v" by (metis append_take_drop_id drop_drop numeral_Bit0)
  finally show ?thesis .
qed

lemma sc_signer: "signer_Get sum_hash sc_state sc_validator = Some (''ed25519'', hexutil_Encode sc_pub)"
  by (simp add: signer_Get_def readBool_def readUint64_def sc_slot_names sc_slot_values sc_words
      sc_type [unfolded sc_slot_names] sc_value)

lemma sc_load_signer: "load_signer sum_hash sc_curves sc_state sc_validator = Inr (hd sc_signers)"
proof -
  have type: "normalizeSignerType ''ed25519'' = Inr ''ed25519''" by code_simp
  have norm: "NormalizeSigner sc_curves ''ed25519'' (hexutil_Encode sc_pub) =
      Inr (''ed25519'', sc_pub, hexutil_Encode sc_pub)"
    unfolding NormalizeSigner_def type by (simp add: MaxSignerValueLen_def sc_pub_def)
  show ?thesis
    unfolding load_signer_def sc_signer
    by (simp add: norm AddressFromSigner_def sc_signers_def sc_validator_def) (simp add: sc_pub_def)
qed

section \<open>The blocks\<close>

lemma sc_hashes [simp]:
  "header_Hash sum_hash sc_genesis = sc_h0"
  "header_Hash sum_hash (sc_block1 0) = sc_h1 0" "header_Hash sum_hash (sc_block1 1) = sc_h1 1"
  "computeValidatorSetHash sum_hash sc_signers = sc_vsHash"
  by code_simp+

lemma sc_parse [simp]:
  "parseCheckpointQCFromExtra (Extra (sc_block2 0)) False True = Inr (Some (sc_qc 0))"
  "parseCheckpointQCFromExtra (Extra (sc_block2 1)) False True = Inr (Some (sc_qc 1))"
  "parseGenesisValidators (Extra sc_genesis) = Inr [sc_validator]"
  by code_simp+

lemma sc_recover [simp]:
  "recoverHeaderSigner sum_hash sc_verify (Some sc_config) (sc_block1 0) = Inr sc_validator"
  "recoverHeaderSigner sum_hash sc_verify (Some sc_config) (sc_block1 1) = Inr sc_validator"
  by code_simp+

lemma sc_fields [simp]:
  "header_number sc_genesis = 0" "header_number (sc_block1 u) = 1" "header_number (sc_block2 u) = 2"
  "Number sc_genesis = Some 0" "Number (sc_block1 u) = Some 1" "Number (sc_block2 u) = Some 2"
  "Time sc_genesis = 1000" "Time (sc_block1 u) = 1360" "Time (sc_block2 u) = 1720"
  "ParentHash (sc_block1 u) = sc_h0" "ParentHash (sc_block2 u) = sc_h1 u" "Root sc_genesis = 5" "Root (sc_block1 u) = 5"
  by (simp_all add: sc_genesis_def sc_block1_def sc_block2_def sc_header_def header_number_def)

lemma sc_lookup [simp]:
  "sc_tree u sc_h0 = Some sc_genesis" "sc_tree u (sc_h1 u) = Some (sc_block1 u)" "sc_h0 \<noteq> sc_h1 u" "sc_h0 \<noteq> 0" "sc_h1 u \<noteq> 0"
  "sc_get u sc_h0 0 = Some sc_genesis" "sc_get u (sc_h1 u) 1 = Some (sc_block1 u)"
  by (simp_all add: sc_tree_def sc_get_def sc_h0_def sc_h1_def)


section \<open>The engine\<close>

lemma sc_config_simps [simp]:
  "Epoch sc_config = 1664" "CheckpointInterval sc_config = 1" "CheckpointFinalityBlock sc_config = Some 1"
  "MaxValidators sc_config = 15" "SealSignerType sc_config = ''ed25519''" "TargetBlockPeriodMs (Some sc_config) = 360"
  by (simp_all add: sc_config_def TargetBlockPeriodMs_def)

lemma sc_engine_simps [simp]:
  "d_config (sc_engine u) = sc_config" "d_db (sc_engine u) = Some (sc_db u)" "d_recents (sc_engine u) = Map.empty"
  "d_finality (sc_engine u) = Map.empty" "d_votePool (sc_engine u) = Some newCheckpointVotePool" "fakeDiff (sc_engine u) = False"
  by (simp_all add: sc_engine_def)

lemma sc_new: "New (Some sc_config) (Some (sc_db u)) = Inr (sc_engine u)"
proof -
  have ok: "ValidateTurnLengthConfig sc_config = Inr ()" "ValidateMaintenanceConfig sc_config = Inr sc_config"
    "NormalizeDPoSSealSignerType ''ed25519'' = Inr ''ed25519''" "ValidateCheckpointConfig sc_config = Inr sc_config"
    "sealLengthForSignerType ''ed25519'' = 96" "sc_config\<lparr>SealSignerType := ''ed25519''\<rparr> = sc_config"
    by code_simp+
  show ?thesis unfolding New_def by (simp add: ok) (simp add: sc_engine_def)
qed

definition sc_snapshot0 :: Snapshot where
  "sc_snapshot0 = \<lparr>snap_config = Some sc_config, snap_Number = 0, snap_Hash = sc_h0, Validators = [sc_validator],
     ValidatorsMap = {sc_validator}, Recents = [], GenesisTime = 1000, snap_PeriodMs = 360,
     FinalizedNumber = 0, FinalizedHash = 0\<rparr>"

definition sc_snapshot1 :: "u64 \<Rightarrow> Snapshot" where
  "sc_snapshot1 u = sc_snapshot0\<lparr>snap_Number := 1, snap_Hash := sc_h1 u, Recents := [(1, sc_validator)]\<rparr>"

lemma sc_apply:
  "snapshot_apply sum_hash sc_verify sc_snapshot0 [sc_block1 0] = Inr (sc_snapshot1 0)"
  "snapshot_apply sum_hash sc_verify sc_snapshot0 [sc_block1 1] = Inr (sc_snapshot1 1)"
  by code_simp+

lemma sc_qc_simps [simp]:
  "vote_Number (qc_Vote (sc_qc u)) = 1" "vote_Hash (qc_Vote (sc_qc u)) = sc_h1 u"
  "vote_ChainID (qc_Vote (sc_qc u)) = Some 1" "vote_ValidatorSetHash (qc_Vote (sc_qc u)) = sc_vsHash"
  by (simp_all add: sc_qc_def checkpoint_vote_def)

lemma sc_sig_loop: "qc_sig_loop sc_verify sc_signers (sc_qc u) digest 0 0 = Inr 1"
  by (simp add: qc_sig_loop.simps [of _ _ _ _ 0] qc_sig_loop.simps [of _ _ _ _ "Suc 0"] sc_qc_def sc_signers_def sc_verify_def)

lemma sc_canonical_simps [simp]:
  "ch_GetHeaderByNumber (sc_chain u) 0 = Some sc_genesis" "ch_GetHeaderByNumber (sc_chain u) 1 = Some (sc_block1 u)"
  "ch_GetHeader (sc_chain u) = sc_get u" "ch_ChainID (sc_chain u) = Some 1"
  by (simp_all add: sc_chain_def sc_canonical_def)

end
