(* ===== verification/ScenarioEngine.thy ===== *)
theory ScenarioEngine
  imports Scenario
begin

text \<open>The calls of the engine on the example chain: snapshots, signer sets and the verification of both certificates.\<close>

lemma sort_by_single: "sort_by lt [x] = [x]"
  by (simp add: sort_by_def)

text \<open>Engines on a database of the example and chains that read it; what is cached about block one is left open.\<close>

definition sc_ready :: "u64 \<Rightarrow> DPoS \<Rightarrow> bool" where
  "sc_ready u d \<longleftrightarrow> d_config d = sc_config \<and> d_recents d sc_h0 = None \<and>
     (\<exists>snaps. d_db d = Some ((sc_db u)\<lparr>db_snapshots := snaps\<rparr>))"

definition sc_reads :: "u64 \<Rightarrow> chain \<Rightarrow> bool" where
  "sc_reads u chain \<longleftrightarrow> ch_GetHeader chain = sc_get u \<and> ch_GetHeaderByNumber chain 0 = Some sc_genesis \<and>
     ch_GetHeaderByNumber chain 1 = Some (sc_block1 u)"

definition sc_found :: "DPoS \<Rightarrow> Snapshot \<Rightarrow> DPoS" where
  "sc_found d s = (store_snap sc_snapshot0 d)\<lparr>d_recents := (d_recents d)(snap_Hash s \<mapsto> s)\<rparr>"

lemma sc_engine_ready: "sc_ready u (sc_engine u)" "sc_reads u (sc_chain u)" "sc_reads u (rawChainReader (sc_db u))"
proof -
  show "sc_ready u (sc_engine u)"
    unfolding sc_ready_def by (simp, intro exI [of _ Map.empty]) (simp add: sc_db_def)
  show "sc_reads u (sc_chain u)" by (simp add: sc_reads_def)
  show "sc_reads u (rawChainReader (sc_db u))" by (simp add: sc_reads_def rawChainReader_def sc_db_def sc_canonical_def)
qed

lemma sc_ready_found: "sc_ready u d \<Longrightarrow> snap_Hash s \<noteq> sc_h0 \<Longrightarrow> sc_ready u (sc_found d s)"
  by (auto simp: sc_ready_def sc_found_def store_snap_def snapshot_store_def)

lemma sc_snapshot_genesis:
  assumes "d_config d = sc_config" and "ch_GetHeaderByNumber chain 0 = Some sc_genesis"
  shows "snapshot_genesis sum_hash d chain = (store_snap sc_snapshot0 d, Inr sc_snapshot0)"
  using assms by (simp add: snapshot_genesis_def newSnapshot_def sc_snapshot0_def addr_sort_def sort_by_single)

lemma sc_unfinalized: "sc_ready u d \<Longrightarrow> runtimeFinalizedBlock (store_snap s d) = None"
  by (auto simp: sc_ready_def runtimeFinalizedBlock_def store_snap_def snapshot_store_def sc_db_def)

lemma sc_snapshot_at_genesis:
  assumes "sc_ready u d" and "sc_reads u chain"
  shows "snapshot sum_hash sc_verify d chain 0 sc_h0 [] = (sc_found d sc_snapshot0, Inr sc_snapshot0)"
proof -
  have "d_recents d sc_h0 = None" "snapshot_genesis sum_hash d chain = (store_snap sc_snapshot0 d, Inr sc_snapshot0)"
    using assms sc_snapshot_genesis by (auto simp: sc_ready_def sc_reads_def)
  then show ?thesis
    by (simp add: snapshot_def snapshot_base.simps [of _ _ _ 0] snapshot_apply_def sc_unfinalized [OF assms(1)] sc_found_def)
      (simp add: store_snap_def)
qed

lemma sc_build:
  assumes "sc_ready u d"
  shows "buildSignerSet sum_hash sc_curves (sc_found d s) sc_snapshot0 = Inr sc_signers"
proof -
  have "sort_by signer_before sc_signers = sc_signers" by (simp add: sc_signers_def sort_by_single)
  moreover have "load_signers sum_hash sc_curves sc_state [sc_validator] = Inr sc_signers"
    by (simp add: sc_load_signer) (simp add: sc_signers_def)
  ultimately show ?thesis
    using assms by (auto simp: sc_ready_def buildSignerSet_def sc_found_def store_snap_def snapshot_store_def sc_db_def
        sc_snapshot0_def loadSignerSet_def)
qed

text \<open>Both certificates pass, each on the chain of its branch.\<close>

lemma sc_full_verifies:
  assumes "u = 0 \<or> u = 1" and "sc_ready u d" and "sc_reads u chain" and "FinalizedNumber snap = 0"
  shows "verifyCheckpointQCFull sum_hash sc_verify sc_curves d chain (sc_block2 u) snap =
    (stageFinalityResult (sc_found d sc_snapshot0) (header_Hash sum_hash (sc_block2 u)) 1 (sc_h1 u) sc_vsHash, None)"
proof -
  have hash: "header_Hash sum_hash (sc_block1 u) = sc_h1 u"
    and parse: "parseCheckpointQCFromExtra (Extra (sc_block2 u)) False True = Inr (Some (sc_qc u))" using assms(1) by auto
  have active: "IsCheckpointFinality (Some sc_config) (Some 2)" by (simp add: IsCheckpointFinality_def)
  have get: "ch_GetHeader chain = sc_get u" "d_config d = sc_config" using assms(2,3) by (simp_all add: sc_reads_def sc_ready_def)
  show ?thesis
    by (simp add: verifyCheckpointQCFull_def active parse hash get ancestor_at_def sc_snapshot_at_genesis [OF assms(2,3)]
        sc_build [OF assms(2)] sc_sig_loop assms(4) Let_def)
       (simp add: sc_signers_def)
qed

lemma sc_snapshot0_simps [simp]: "FinalizedNumber sc_snapshot0 = 0" "snap_Hash sc_snapshot0 = sc_h0"
  by (simp_all add: sc_snapshot0_def)

lemmas sc_verifies = sc_full_verifies [OF _ sc_engine_ready(1,2) sc_snapshot0_simps(1)]

text \<open>The snapshot at height one: the lookup walks back one header and replays it.\<close>

lemma sc_base:
  assumes "sc_ready u d" and "sc_reads u chain" and "d_recents d (sc_h1 u) = None"
  shows "snapshot_base sum_hash d chain 1 (sc_h1 u) [] [] = (store_snap sc_snapshot0 d, Inr (sc_snapshot0, [sc_block1 u]))"
proof -
  have "d_recents d sc_h0 = None" "d_config d = sc_config" "ch_GetHeader chain = sc_get u" "ch_GetHeaderByNumber chain 0 = Some sc_genesis"
    using assms(1,2) by (auto simp: sc_ready_def sc_reads_def)
  then show ?thesis
    using assms(3)
    by (simp add: snapshot_base.simps [of _ _ _ 1] snapshot_base.simps [of _ _ _ 0] sc_snapshot_genesis next_header_def)
qed

lemma sc_snapshot_at_1:
  assumes "u = 0 \<or> u = 1" and "sc_ready u d" and "sc_reads u chain" and "d_recents d (sc_h1 u) = None"
  shows "snapshot sum_hash sc_verify d chain 1 (sc_h1 u) [] = (sc_found d (sc_snapshot1 u), Inr (sc_snapshot1 u))"
proof -
  have "snapshot_apply sum_hash sc_verify sc_snapshot0 [sc_block1 u] = Inr (sc_snapshot1 u)" using assms(1) sc_apply by auto
  moreover have "snap_Number (sc_snapshot1 u) = 1" by (simp add: sc_snapshot1_def)
  moreover have "d_config d = sc_config" using assms(2) by (simp add: sc_ready_def)
  ultimately show ?thesis
    by (simp add: snapshot_def sc_base [OF assms(2-4)] sc_unfinalized [OF assms(2)] sc_found_def)
      (simp add: store_snap_def Let_def)
qed

text \<open>Verifying the state of the carrier stages the checkpoint.\<close>

lemma sc_stages:
  assumes "u = 0 \<or> u = 1"
  shows "VerifyFinalizedState sum_hash sc_verify sc_curves (sc_engine u) (sc_block2 u) =
    (stageFinalityResult (sc_found (sc_found (sc_engine u) (sc_snapshot1 u)) sc_snapshot0)
       (header_Hash sum_hash (sc_block2 u)) 1 (sc_h1 u) sc_vsHash, None)"
proof -
  have epoch: "VerifyEpochExtra sum_hash (sc_engine u) (sc_block2 u) = None" by (simp add: VerifyEpochExtra_def)
  have eng: "(sc_engine u)\<lparr>d_deferredEpochChecks := d_deferredEpochChecks (sc_engine u) - X\<rparr> = sc_engine u" for X
    by (simp add: sc_engine_def)
  have active: "IsCheckpointFinality (Some sc_config) (Some 2)" by (simp add: IsCheckpointFinality_def)
  have snap: "snapshot sum_hash sc_verify (sc_engine u) (rawChainReader (sc_db u)) 1 (sc_h1 u) [] =
      (sc_found (sc_engine u) (sc_snapshot1 u), Inr (sc_snapshot1 u))"
    by (rule sc_snapshot_at_1 [OF assms sc_engine_ready(1,3)]) simp
  have s1: "snap_Hash (sc_snapshot1 u) \<noteq> sc_h0" "FinalizedNumber (sc_snapshot1 u) = 0"
    by (simp_all add: sc_snapshot1_def sc_lookup(3) [THEN not_sym])
  have "sc_ready u (sc_found (sc_engine u) (sc_snapshot1 u))" by (rule sc_ready_found [OF sc_engine_ready(1) s1(1)])
  note full = sc_full_verifies [OF assms this sc_engine_ready(3) s1(2)]
  show ?thesis
    unfolding VerifyFinalizedState_def epoch option.case(1) Let_def eng by (simp add: active snap full)
qed

end
