(* ===== verification/Replay.thy ===== *)
theory Replay
  imports ScenarioEngine
begin

text \<open>
  The snapshot lookup of the engine against a reference definition: replay every header from genesis.
  The lookup searches a cache, then the database, collects headers while it walks back, and replays
  them on what it found; it also writes to the cache and the database. The
  reference does none of this. The block tree is a map from hashes to headers that agrees with all that
  the chain knows.
\<close>

section \<open>The reference\<close>

fun replay ::
  "keccak \<Rightarrow> verifier \<Rightarrow> DPoSConfig \<Rightarrow> Header \<Rightarrow> (hash \<Rightarrow> Header option) \<Rightarrow> nat \<Rightarrow> hash \<Rightarrow> dpos_error + Snapshot" where
  "replay kh verify cfg g tree 0 hash =
     (case parseGenesisValidators (Extra g) of Inl e \<Rightarrow> Inl e
      | Inr vs \<Rightarrow> newSnapshot (Some cfg) 0 (header_Hash kh g) (addr_sort vs) (Time g) (TargetBlockPeriodMs (Some cfg)))"
| "replay kh verify cfg g tree (Suc n) hash =
     (case tree hash of None \<Rightarrow> Inl ErrUnknownAncestor
      | Some h \<Rightarrow>
         (case replay kh verify cfg g tree n (ParentHash h) of Inl e \<Rightarrow> Inl e
          | Inr s \<Rightarrow> snapshot_apply kh verify s [h]))"

text \<open>The engine overwrites the finalised checkpoint of the snapshots it returns.\<close>

definition strip :: "Snapshot \<Rightarrow> Snapshot" where
  "strip s = s\<lparr>FinalizedNumber := 0, FinalizedHash := 0\<rparr>"

definition block_tree :: "keccak \<Rightarrow> Header \<Rightarrow> (hash \<Rightarrow> Header option) \<Rightarrow> bool" where
  "block_tree kh g tree \<longleftrightarrow> tree (header_Hash kh g) = Some g \<and> header_number g = 0 \<and>
     (\<forall>hash h. tree hash = Some h \<longrightarrow> header_Hash kh h = hash \<and>
        (header_number h = 0 \<longrightarrow> h = g) \<and>
        (header_number h \<noteq> 0 \<longrightarrow> (\<forall>p. tree (ParentHash h) = Some p \<longrightarrow> header_number p = header_number h - 1) \<and>
           tree (ParentHash h) \<noteq> None))"

definition node :: "(hash \<Rightarrow> Header option) \<Rightarrow> hash \<Rightarrow> u64 \<Rightarrow> bool" where
  "node tree hash number \<longleftrightarrow> (\<exists>h. tree hash = Some h \<and> header_number h = number)"

lemma node_parent:
  assumes "block_tree kh g tree" and "tree hash = Some h" and "header_number h \<noteq> 0"
  shows "node tree (ParentHash h) (header_number h - 1)"
proof -
  obtain p where "tree (ParentHash h) = Some p" "header_number p = header_number h - 1"
    using assms unfolding block_tree_def by blast
  then show ?thesis by (auto simp: node_def)
qed

definition knows :: "keccak \<Rightarrow> Header \<Rightarrow> (hash \<Rightarrow> Header option) \<Rightarrow> chain \<Rightarrow> Header list \<Rightarrow> bool" where
  "knows kh g tree chain parents \<longleftrightarrow> ch_GetHeaderByNumber chain 0 = Some g \<and>
     (\<forall>hash n h. ch_GetHeader chain hash n = Some h \<longrightarrow> tree hash = Some h \<and> header_number h = n) \<and>
     (\<forall>p\<in>set parents. tree (header_Hash kh p) = Some p)"

definition snap_agrees ::
  "keccak \<Rightarrow> verifier \<Rightarrow> DPoSConfig \<Rightarrow> Header \<Rightarrow> (hash \<Rightarrow> Header option) \<Rightarrow> hash \<Rightarrow> Snapshot \<Rightarrow> bool" where
  "snap_agrees kh verify cfg g tree hash s \<longleftrightarrow> snap_Hash s = hash \<and> node tree hash (snap_Number s) \<and>
     (\<exists>t. replay kh verify cfg g tree (unat (snap_Number s)) hash = Inr t \<and> strip t = strip s)"

definition caches_agree :: "keccak \<Rightarrow> verifier \<Rightarrow> Header \<Rightarrow> (hash \<Rightarrow> Header option) \<Rightarrow> DPoS \<Rightarrow> bool" where
  "caches_agree kh verify g tree d \<longleftrightarrow>
     (\<forall>hash s. d_recents d hash = Some s \<longrightarrow> snap_agrees kh verify (d_config d) g tree hash s) \<and>
     (\<forall>db hash s. d_db d = Some db \<longrightarrow> db_snapshots db hash = Some s \<longrightarrow>
        snap_agrees kh verify (d_config d) g tree hash s)"

section \<open>Replay ignores position and finality\<close>

definition place :: "u64 \<Rightarrow> hash \<Rightarrow> u64 \<Rightarrow> hash \<Rightarrow> Snapshot \<Rightarrow> Snapshot" where
  "place n h fn fh s = s\<lparr>snap_Number := n, snap_Hash := h, FinalizedNumber := fn, FinalizedHash := fh\<rparr>"

lemma place_simps [simp]:
  "snap_config (place n h fn fh s) = snap_config s" "Validators (place n h fn fh s) = Validators s"
  "ValidatorsMap (place n h fn fh s) = ValidatorsMap s" "Recents (place n h fn fh s) = Recents s"
  "GenesisTime (place n h fn fh s) = GenesisTime s" "snap_PeriodMs (place n h fn fh s) = snap_PeriodMs s"
  "snap_Number (place n h fn fh s) = n" "snap_Hash (place n h fn fh s) = h"
  "FinalizedNumber (place n h fn fh s) = fn" "FinalizedHash (place n h fn fh s) = fh"
  "place n h fn fh (place n' h' fn' fh' s) = place n h fn fh s"
  by (simp_all add: place_def)

lemma place_Recents: "place n h fn fh (s\<lparr>Recents := R\<rparr>) = (place n h fn fh s)\<lparr>Recents := R\<rparr>"
  by (simp add: place_def)

lemma place_window [simp]:
  "recentSignerWindowSize (place n h fn fh s) = recentSignerWindowSize s"
  "recentlySignedAt (place n h fn fh s) = recentlySignedAt s"
  unfolding fun_eq_iff recentlySignedAt_def recentSignerWindowSize_def place_simps by simp_all

lemma place_prune: "prune_recents slot (place n h fn fh s) = place n h fn fh (prune_recents slot s)"
  by (simp add: prune_recents_def Let_def place_Recents)

lemma apply_header_place:
  "apply_header kh verify (place n h fn fh s) x = map_sum id (place n h fn fh) (apply_header kh verify s x)"
proof -
  have upd: "(place n h fn fh t)\<lparr>Validators := vs, ValidatorsMap := V\<rparr> =
      place n h fn fh (t\<lparr>Validators := vs, ValidatorsMap := V\<rparr>)" for t vs V
    by (simp add: place_def)
  show ?thesis
    unfolding apply_header_def place_prune Let_def
    by (simp add: place_Recents [symmetric] upd place_prune split: option.split sum.split)
qed

lemma apply_headers_place:
  "apply_headers kh verify (place n h fn fh s) hs = map_sum id (place n h fn fh) (apply_headers kh verify s hs)"
  by (induction hs arbitrary: s) (auto simp: apply_header_place split: sum.splits)

lemma apply_headers_base: "apply_headers kh verify s hs = Inr t \<Longrightarrow>
    snap_config t = snap_config s \<and> snap_Number t = snap_Number s \<and>
    FinalizedNumber t = FinalizedNumber s \<and> FinalizedHash t = FinalizedHash s"
proof (induction hs arbitrary: s)
  case (Cons h hs)
  then obtain s1 where s1: "apply_header kh verify s h = Inr s1" and "apply_headers kh verify s1 hs = Inr t"
    by (auto split: sum.splits)
  moreover from apply_header_cases [OF s1] have "snap_config s1 = snap_config s \<and> snap_Number s1 = snap_Number s \<and>
      FinalizedNumber s1 = FinalizedNumber s \<and> FinalizedHash s1 = FinalizedHash s"
    by (auto simp: prune_recents_eq)
  ultimately show ?case using Cons.IH by fastforce
qed simp


lemma snapshot_apply_single:
  "snapshot_apply kh verify s [h] = Inr t \<longleftrightarrow> header_number h = snap_Number s + 1 \<and>
     (\<exists>u. apply_header kh verify s h = Inr u \<and>
        t = place (snap_Number s + 1) (header_Hash kh h) (FinalizedNumber s) (FinalizedHash s) u)"
proof -
  have "place (snap_Number s + 1) x (FinalizedNumber s) (FinalizedHash s) u = u\<lparr>snap_Number := snap_Number u + 1, snap_Hash := x\<rparr>"
    if "apply_header kh verify s h = Inr u" for u x
    using apply_headers_base [of kh verify s "[h]" u] that by (simp add: place_def)
  then show ?thesis by (auto simp: snapshot_apply_def split: sum.splits)
qed

lemma contiguous_Cons: "contiguous (h # hs) \<longleftrightarrow> contiguous hs \<and> (hs \<noteq> [] \<longrightarrow> header_number (hd hs) = header_number h + 1)"
  by (cases hs) auto

lemma snapshot_apply_contiguous: "snapshot_apply kh verify s hs = Inr t \<Longrightarrow> hs \<noteq> [] \<Longrightarrow>
    contiguous hs \<and> header_number (hd hs) = snap_Number s + 1"
  by (auto simp: snapshot_apply_def split: if_splits)

text \<open>A replay can be cut after its first header.\<close>

lemma snapshot_apply_Cons:
  assumes "hs \<noteq> []"
  shows "snapshot_apply kh verify s (h # hs) = Inr t \<longleftrightarrow>
    (\<exists>s1. snapshot_apply kh verify s [h] = Inr s1 \<and> snapshot_apply kh verify s1 hs = Inr t)"
proof (cases "header_number h = snap_Number s + 1 \<and> contiguous hs \<and> header_number (hd hs) = header_number h + 1")
  case False
  then have "snapshot_apply kh verify s (h # hs) \<noteq> Inr t"
    using snapshot_apply_contiguous [of kh verify s "h # hs" t] assms by (auto simp: contiguous_Cons)
  moreover have "\<not> (snapshot_apply kh verify s [h] = Inr s1 \<and> snapshot_apply kh verify s1 hs = Inr t)" for s1
    using False snapshot_apply_contiguous [of kh verify s1 hs t] assms by (auto simp: snapshot_apply_single)
  ultimately show ?thesis by blast
next
  case True
  show ?thesis
  proof (cases "apply_header kh verify s h")
    case (Inl e)
    then show ?thesis using True assms by (simp add: snapshot_apply_def contiguous_Cons)
  next
    case (Inr u)
    let ?p = "place (snap_Number s + 1) (header_Hash kh h) (FinalizedNumber s) (FinalizedHash s)"
    have u: "snap_Number u = snap_Number s" "FinalizedNumber u = FinalizedNumber s" "FinalizedHash u = FinalizedHash s"
      using apply_headers_base [of kh verify s "[h]" u] Inr by auto
    have lhs: "snapshot_apply kh verify s (h # hs) =
        map_sum id (\<lambda>v. v\<lparr>snap_Number := snap_Number v + word_of_nat (Suc (length hs)), snap_Hash := header_Hash kh (last hs)\<rparr>)
          (apply_headers kh verify u hs)"
      using True assms Inr by (simp add: snapshot_apply_def contiguous_Cons split: sum.split)
    have rhs: "snapshot_apply kh verify (?p u) hs =
        map_sum id (\<lambda>v. v\<lparr>snap_Number := snap_Number v + word_of_nat (length hs), snap_Hash := header_Hash kh (last hs)\<rparr>)
          (map_sum id ?p (apply_headers kh verify u hs))"
      using True assms by (simp add: snapshot_apply_def apply_headers_place split: sum.split)
    have "(?p v)\<lparr>snap_Number := snap_Number (?p v) + word_of_nat (length hs), snap_Hash := x\<rparr> =
        v\<lparr>snap_Number := snap_Number v + word_of_nat (Suc (length hs)), snap_Hash := x\<rparr>"
      if "apply_headers kh verify u hs = Inr v" for v x
      using apply_headers_base [OF that] u by (simp add: place_def)
    then have "snapshot_apply kh verify s (h # hs) = snapshot_apply kh verify (?p u) hs"
      unfolding lhs rhs by (cases "apply_headers kh verify u hs") simp_all
    then show ?thesis using Inr True by (auto simp: snapshot_apply_single)
  qed
qed

lemma strip_place: "strip s = place (snap_Number s) (snap_Hash s) 0 0 s"
  by (simp add: strip_def place_def)

lemma snapshot_apply_single_strip:
  assumes "strip s = strip s'" and "snapshot_apply kh verify s [h] = Inr t"
  shows "\<exists>t'. snapshot_apply kh verify s' [h] = Inr t' \<and> strip t' = strip t"
proof -
  obtain fn fh where s': "s' = place (snap_Number s) (snap_Hash s) fn fh s"
  proof
    show "s' = place (snap_Number s) (snap_Hash s) (FinalizedNumber s') (FinalizedHash s') s"
      using assms(1) by (cases s; cases s') (simp add: strip_def place_def)
  qed
  obtain u where "header_number h = snap_Number s + 1" "apply_header kh verify s h = Inr u"
    "t = place (snap_Number s + 1) (header_Hash kh h) (FinalizedNumber s) (FinalizedHash s) u"
    using assms(2) by (auto simp: snapshot_apply_single)
  then show ?thesis
    unfolding snapshot_apply_single s' apply_header_place by (auto simp: strip_place)
qed

section \<open>The walk\<close>

fun linked :: "(hash \<Rightarrow> Header option) \<Rightarrow> hash \<Rightarrow> Header list \<Rightarrow> hash \<Rightarrow> bool" where
  "linked tree a [] b \<longleftrightarrow> a = b"
| "linked tree a (h # hs) b \<longleftrightarrow> ParentHash h = a \<and> (\<exists>c. tree c = Some h \<and> linked tree c hs b)"

lemma linked_last: "linked tree a hs b \<Longrightarrow> hs \<noteq> [] \<Longrightarrow> tree b = Some (last hs)"
  by (induction hs arbitrary: a) fastforce+

lemma linked_replay:
  assumes "linked tree a hs b" and "replay kh verify cfg g tree (unat (snap_Number s)) a = Inr s0"
    and "strip s0 = strip s" and "snapshot_apply kh verify s hs = Inr t" and "block_tree kh g tree"
    and "unat (snap_Number s) + length hs < 2 ^ 64"
  shows "\<exists>t0. replay kh verify cfg g tree (unat (snap_Number t)) b = Inr t0 \<and> strip t0 = strip t"
  using assms
proof (induction hs arbitrary: a s s0)
  case Nil
  then show ?case by (auto simp: snapshot_apply_def)
next
  case (Cons h hs)
  obtain c where c: "tree c = Some h" "linked tree c hs b" "ParentHash h = a" using Cons.prems(1) by auto
  obtain s1 where s1: "snapshot_apply kh verify s [h] = Inr s1" and rest: "snapshot_apply kh verify s1 hs = Inr t"
    using Cons.prems(4) snapshot_apply_Cons [of hs kh verify s h t]
    by (cases "hs = []") (auto simp: snapshot_apply_def [of _ _ _ "[]"])
  have n1: "snap_Number s1 = snap_Number s + 1" using s1 by (auto simp: snapshot_apply_single)
  have "unat (snap_Number s) + 1 < 2 ^ 64" using Cons.prems(6) by simp
  then have un: "unat (snap_Number s1) = Suc (unat (snap_Number s))"
    using n1 u64_Suc_nowrap [of "snap_Number s"] by simp
  obtain s1' where "snapshot_apply kh verify s0 [h] = Inr s1'" "strip s1' = strip s1"
    using snapshot_apply_single_strip [OF Cons.prems(3) [symmetric] s1] by blast
  then have "replay kh verify cfg g tree (unat (snap_Number s1)) c = Inr s1'"
    using Cons.prems(2) c by (simp add: un)
  with Cons.IH [OF c(2) this \<open>strip s1' = strip s1\<close> rest Cons.prems(5)] show ?case
    using Cons.prems(6) un by simp
qed


lemma found_Inr:
  "map_prod id (map_sum id (\<lambda>s. (s, headers))) x = (d', Inr (base, hs)) \<longleftrightarrow> x = (d', Inr base) \<and> hs = headers"
  by (cases x; cases "snd x") auto

lemma snapshot_base_cases:
  assumes "snapshot_base kh d chain number hash parents headers = (d', Inr (base, hs))"
  obtains (cached) "d_recents d hash = Some base" "d' = d" "hs = headers"
  | (genesis) "number = 0" "snapshot_genesis kh d chain = (d', Inr base)" "hs = headers"
  | (stored) db where "d_db d = Some db" "loadSnapshot (d_config d) db hash = Some base" "d' = d" "hs = headers"
  | (trust) "number \<noteq> 0" "length headers > FullImmutabilityThreshold \<or> ch_GetHeaderByNumber chain (number - 1) = None"
      "hs = headers" "snapshot_trust kh d chain number hash = Some (d', Inr base)"
  | (walk) header parents' where "number \<noteq> 0" "next_header kh chain number hash parents = Inr (header, parents')"
      "snapshot_base kh d chain (number - 1) (ParentHash header) parents' (headers @ [header]) = (d', Inr (base, hs))"
proof -
  let ?found = "map_prod id (map_sum id (\<lambda>s. (s, headers)))"
  let ?disk = "if number mod Epoch (d_config d) = 0
    then case d_db d of None \<Rightarrow> None | Some db \<Rightarrow> loadSnapshot (d_config d) db hash else None"
  let ?guard = "number mod Epoch (d_config d) = 0 \<and>
    (length headers > FullImmutabilityThreshold \<or> ch_GetHeaderByNumber chain (number - 1) = None)"
  let ?trust = "if ?guard then snapshot_trust kh d chain number hash else None"
  note r = assms [unfolded snapshot_base.simps [of kh d chain number hash parents headers] Let_def]
  show thesis
  proof (cases "d_recents d hash")
    case (Some s)
    have "(d, Inr (s, headers)) = (d', Inr (base, hs) :: dpos_error + Snapshot \<times> Header list)"
      using r [unfolded Some option.case(2)] .
    then show thesis using Some by (intro cached) auto
  next
    case None
    note r1 = r [unfolded None option.case(1)]
    show thesis
    proof (cases "number = 0")
      case True
      have "?found (snapshot_genesis kh d chain) = (d', Inr (base, hs))"
        using r1 [unfolded if_P [OF True]] .
      then show thesis unfolding found_Inr by (intro genesis [OF True]) auto
    next
      case False
      note r2 = r1 [unfolded if_not_P [OF False]]
      show thesis
      proof (cases ?disk)
        case (Some s)
        then obtain db where "d_db d = Some db" "loadSnapshot (d_config d) db hash = Some s"
          by (auto split: if_splits option.splits)
        moreover have "(d, Inr (s, headers)) = (d', Inr (base, hs) :: dpos_error + Snapshot \<times> Header list)"
          using r2 [unfolded Some option.case(2)] .
        ultimately show thesis by (intro stored [of db]) auto
      next
        case disk: None
        note r3 = r2 [unfolded disk option.case(1)]
        show thesis
        proof (cases ?trust)
          case (Some x)
          then have g: ?guard by (auto split: if_splits)
          have "x = (d', Inr base)" "hs = headers" using r3 [unfolded Some option.case(2)] by (simp_all only: found_Inr)
          then show thesis using g Some by (intro trust [OF False conjunct2 [OF g]]) auto
        next
          case t: None
          note r4 = r3 [unfolded t option.case(1)]
          show thesis
          proof (cases "next_header kh chain number hash parents")
            case (Inl e)
            then show thesis using r4 [unfolded Inl sum.case(1)] by simp
          next
            case (Inr x)
            then show thesis
              using r4 [unfolded Inr sum.case(2) split_beta] by (intro walk [OF False, of "fst x" "snd x"]) auto
          qed
        qed
      qed
    qed
  qed
qed

lemma snapshot_base_length:
  "snapshot_base kh d chain number hash parents headers = (d', Inr (base, hs)) \<Longrightarrow> length headers \<le> length hs"
proof (induction "unat number" arbitrary: number hash parents headers rule: less_induct)
  case less
  from less.prems show ?case
  proof (cases rule: snapshot_base_cases)
    case (walk header parents')
    then show ?thesis
      using less.hyps [OF _ walk(3)] by (simp add: unat_minus_one unat_gt_0)
  qed simp_all
qed

lemma snapshot_base_short:
  "snapshot_base kh d chain number hash parents headers = (d', Inr (base, hs)) \<Longrightarrow> length hs \<le> unat number + length headers"
proof (induction "unat number" arbitrary: number hash parents headers rule: less_induct)
  case less
  from less.prems show ?case
  proof (cases rule: snapshot_base_cases)
    case (walk header parents')
    have "0 < unat number" using walk(1) by (simp add: unat_gt_0)
    then show ?thesis
      using less.hyps [OF _ walk(3)] walk(1) by (simp add: unat_minus_one)
  qed simp_all
qed

lemma next_header_node:
  assumes "next_header kh chain number hash parents = Inr (header, parents')" and "knows kh g tree chain parents"
    and "block_tree kh g tree"
  shows "tree hash = Some header" and "header_number header = number" and "knows kh g tree chain parents'"
proof -
  have sub: "set (butlast parents) \<subseteq> set parents" by (auto dest: in_set_butlastD)
  have "tree hash = Some header \<and> header_number header = number \<and> knows kh g tree chain parents'"
  proof (cases "parents = []")
    case True
    then show ?thesis using assms(1,2) by (auto simp: next_header_def knows_def split: option.splits)
  next
    case False
    then have "header = last parents" "header_Hash kh header = hash" "header_number header = number" "parents' = butlast parents"
      using assms(1) by (auto simp: next_header_def Let_def split: if_splits)
    then show ?thesis using assms(2) False sub by (auto simp: knows_def)
  qed
  then show "tree hash = Some header" and "header_number header = number" and "knows kh g tree chain parents'"
    by simp_all
qed

lemma replay_config: "replay kh verify cfg g tree n hash = Inr s \<Longrightarrow> snap_config s = Some cfg"
proof (induction n arbitrary: hash s)
  case 0
  then show ?case by (auto simp: newSnapshot_def split: sum.splits if_splits)
next
  case (Suc n)
  then obtain h s0 where "replay kh verify cfg g tree n (ParentHash h) = Inr s0" "snapshot_apply kh verify s0 [h] = Inr s"
    by (auto split: option.splits sum.splits)
  then show ?case using Suc.IH [of "ParentHash h" s0] apply_headers_base [of kh verify s0 "[h]"]
    by (auto simp: snapshot_apply_single)
qed

lemma strip_fields:
  "strip s = strip t \<Longrightarrow> snap_config s = snap_config t \<and> snap_Number s = snap_Number t \<and> snap_Hash s = snap_Hash t \<and>
     Validators s = Validators t \<and> ValidatorsMap s = ValidatorsMap t"
  by (cases s; cases t) (simp add: strip_def)

lemma store_snap_simps [simp]:
  "d_config (store_snap s d) = d_config d" "d_recents (store_snap s d) = d_recents d"
  by (simp_all add: store_snap_def)

lemma caches_agree_store:
  "caches_agree kh verify g tree d \<Longrightarrow> snap_agrees kh verify (d_config d) g tree (snap_Hash s) s \<Longrightarrow>
    caches_agree kh verify g tree (store_snap s d)"
  by (auto simp: caches_agree_def store_snap_def snapshot_store_def split: if_splits)

lemma genesis_agrees:
  assumes "snapshot_genesis kh d chain = (d', Inr s)" and "knows kh g tree chain parents" and "block_tree kh g tree"
    and "caches_agree kh verify g tree d"
  shows "snap_agrees kh verify (d_config d) g tree (header_Hash kh g) s" and "caches_agree kh verify g tree d'"
    and "d_config d' = d_config d"
proof -
  obtain vs where vs: "parseGenesisValidators (Extra g) = Inr vs"
    "newSnapshot (Some (d_config d)) 0 (header_Hash kh g) (addr_sort vs) (Time g) (TargetBlockPeriodMs (Some (d_config d))) = Inr s"
    and d': "d' = store_snap s d"
    using assms(1,2) by (auto simp: snapshot_genesis_def knows_def split: sum.splits option.splits)
  then have "snap_Number s = 0" "snap_Hash s = header_Hash kh g" by (auto simp: newSnapshot_def split: if_splits)
  then show "snap_agrees kh verify (d_config d) g tree (header_Hash kh g) s"
    using vs assms(3) by (auto simp: snap_agrees_def node_def block_tree_def)
  then show "caches_agree kh verify g tree d'"
    using caches_agree_store [OF assms(4), of s] \<open>snap_Hash s = header_Hash kh g\<close> d' by simp
  show "d_config d' = d_config d" by (simp add: d')
qed

lemma snap_agrees_number:
  "snap_agrees kh verify cfg g tree hash s \<Longrightarrow> node tree hash n \<Longrightarrow> snap_Number s = n"
  by (auto simp: snap_agrees_def node_def)

lemma snap_agrees_config:
  assumes "snap_agrees kh verify cfg g tree hash s"
  shows "snap_config s = Some cfg"
proof -
  obtain t where t: "replay kh verify cfg g tree (unat (snap_Number s)) hash = Inr t" "strip t = strip s"
    using assms unfolding snap_agrees_def by blast
  show ?thesis using replay_config [OF t(1)] strip_fields [OF t(2)] by simp
qed

definition canonical_known :: "chain \<Rightarrow> u64 \<Rightarrow> bool" where
  "canonical_known chain number \<longleftrightarrow> (\<forall>n < number. ch_GetHeaderByNumber chain n \<noteq> None)"

lemma snapshot_base_sound:
  assumes "snapshot_base kh d chain number hash parents headers = (d', Inr (base, hs))"
    and "block_tree kh g tree" and "knows kh g tree chain parents" and "caches_agree kh verify g tree d"
    and "node tree hash number" and "canonical_known chain number" and "length hs \<le> FullImmutabilityThreshold"
    and "linked tree hash (rev headers) target"
  shows "\<exists>b. linked tree b (rev hs) target \<and> snap_agrees kh verify (d_config d) g tree b base \<and>
    caches_agree kh verify g tree d' \<and> d_config d' = d_config d \<and>
    unat (snap_Number base) + length hs = unat number + length headers"
  using assms
proof (induction "unat number" arbitrary: number hash parents headers rule: less_induct)
  case less
  note prems = less.prems
  from prems(1) show ?case
  proof (cases rule: snapshot_base_cases)
    case cached
    then have a: "snap_agrees kh verify (d_config d) g tree hash base"
      using prems(4) by (auto simp: caches_agree_def)
    then show ?thesis using prems cached snap_agrees_number [OF a prems(5)] by auto
  next
    case genesis
    then have "hash = header_Hash kh g" using prems(2,5) by (auto simp: node_def block_tree_def)
    then show ?thesis
      using genesis genesis_agrees [OF genesis(2) prems(3,2,4)] prems(8) snap_agrees_number [OF _ prems(5)] by auto
  next
    case (stored db)
    then obtain s where s: "db_snapshots db hash = Some s" "base = s\<lparr>snap_config := Some (d_config d)\<rparr>"
      by (auto simp: loadSnapshot_def split: option.splits)
    have a: "snap_agrees kh verify (d_config d) g tree hash s" using prems(4) s(1) stored(1) by (auto simp: caches_agree_def)
    have "snap_config s = Some (d_config d)" by (rule snap_agrees_config [OF a])
    then have "base = s" using s(2) by simp
    then show ?thesis using prems stored a snap_agrees_number [OF a prems(5)] by auto
  next
    case trust
    have "number - 1 < number" using trust(1) by (simp add: word_less_nat_alt unat_minus_one unat_gt_0)
    then show ?thesis using trust prems(6,7) by (auto simp: canonical_known_def)
  next
    case (walk header parents')
    note nh = next_header_node [OF walk(2) prems(3,2)]
    have lt: "number - 1 < number" using walk(1) by (simp add: word_less_nat_alt unat_minus_one unat_gt_0)
    have "\<exists>b. linked tree b (rev hs) target \<and> snap_agrees kh verify (d_config d) g tree b base \<and>
      caches_agree kh verify g tree d' \<and> d_config d' = d_config d \<and>
      unat (snap_Number base) + length hs = unat (number - 1) + length (headers @ [header])"
    proof (rule less.hyps [OF _ walk(3) prems(2) nh(3) prems(4)])
      show "unat (number - 1) < unat number" using lt by (simp add: word_less_nat_alt)
      show "node tree (ParentHash header) (number - 1)"
        using node_parent [OF prems(2) nh(1)] nh(2) walk(1) by simp
      show "canonical_known chain (number - 1)" using prems(6) lt by (auto simp: canonical_known_def)
      show "linked tree (ParentHash header) (rev (headers @ [header])) target" using prems(8) nh(1) by auto
    qed (rule prems(7))
    moreover have "0 < unat number" using walk(1) by (simp add: unat_gt_0)
    ultimately show ?thesis using walk(1) by (simp add: unat_minus_one)
  qed
qed


section \<open>The lookup is the replay\<close>

lemma snapshot_Inr:
  assumes "snapshot kh verify d chain number hash parents = (d', Inr s)"
  obtains d1 base hs t where "snapshot_base kh d chain number hash parents [] = (d1, Inr (base, hs))"
    "snapshot_apply kh verify base (rev hs) = Inr t" "strip s = strip t"
    "d_recents d' = (d_recents d1)(snap_Hash s \<mapsto> s)"
    "d' = d1\<lparr>d_recents := d_recents d'\<rparr> \<or> d' = store_snap s (d1\<lparr>d_recents := d_recents d'\<rparr>)"
proof -
  obtain d1 base hs where b: "snapshot_base kh d chain number hash parents [] = (d1, Inr (base, hs))"
    using assms by (auto simp: snapshot_def split: prod.splits sum.splits)
  then obtain t where t: "snapshot_apply kh verify base (rev hs) = Inr t"
    using assms by (auto simp: snapshot_def split: sum.splits)
  let ?fin = "case runtimeFinalizedBlock d1 of
      Some f \<Rightarrow> if header_number f \<le> snap_Number t
                then t\<lparr>FinalizedNumber := header_number f, FinalizedHash := header_Hash kh f\<rparr> else t
    | None \<Rightarrow> t"
  let ?d2 = "d1\<lparr>d_recents := (d_recents d1)(snap_Hash ?fin \<mapsto> ?fin)\<rparr>"
  have "(d', Inr s) = (if snap_Number ?fin mod Epoch (d_config ?d2) = 0 \<and> length hs > 0
      then store_snap ?fin ?d2 else ?d2, Inr ?fin :: dpos_error + Snapshot)"
    using assms unfolding snapshot_def b prod.case sum.case t Let_def by (rule sym)
  then have s: "s = ?fin" and d': "d' = ?d2 \<or> d' = store_snap ?fin ?d2" by (auto split: if_splits)
  have "strip s = strip t" unfolding s by (simp add: strip_def split: option.split)
  moreover have "d_recents d' = (d_recents d1)(snap_Hash s \<mapsto> s)" using d' s by auto
  moreover have "d' = d1\<lparr>d_recents := d_recents d'\<rparr> \<or> d' = store_snap s (d1\<lparr>d_recents := d_recents d'\<rparr>)"
    using d' s by auto
  ultimately show thesis using that b t by blast
qed

lemma snapshot_sound:
  assumes "snapshot kh verify d chain number hash parents = (d', Inr s)"
    and "block_tree kh g tree" and "knows kh g tree chain parents" and "caches_agree kh verify g tree d"
    and "node tree hash number" and "canonical_known chain number"
    and "\<And>d1 base hs. snapshot_base kh d chain number hash parents [] = (d1, Inr (base, hs)) \<Longrightarrow>
       length hs \<le> FullImmutabilityThreshold"
  shows "snap_agrees kh verify (d_config d) g tree hash s" and "snap_Number s = number"
    and "caches_agree kh verify g tree d'" and "d_config d' = d_config d"
proof -
  obtain d1 base hs t where b: "snapshot_base kh d chain number hash parents [] = (d1, Inr (base, hs))"
    and t: "snapshot_apply kh verify base (rev hs) = Inr t" "strip s = strip t"
    and d': "d_recents d' = (d_recents d1)(snap_Hash s \<mapsto> s)"
      "d' = d1\<lparr>d_recents := d_recents d'\<rparr> \<or> d' = store_snap s (d1\<lparr>d_recents := d_recents d'\<rparr>)"
    using snapshot_Inr [OF assms(1)] .
  obtain b where l: "linked tree b (rev hs) hash" and a: "snap_agrees kh verify (d_config d) g tree b base"
    and d1: "caches_agree kh verify g tree d1" "d_config d1 = d_config d"
    and n: "unat (snap_Number base) + length hs = unat number"
    using snapshot_base_sound [OF b assms(2-6) assms(7) [OF b]] by auto
  obtain s0 where s0: "replay kh verify (d_config d) g tree (unat (snap_Number base)) b = Inr s0" "strip s0 = strip base"
    using a unfolding snap_agrees_def by blast
  have lt: "unat (snap_Number base) + length (rev hs) < 2 ^ 64" using n u64_less_2p64 [of number] by simp
  obtain t0 where t0: "replay kh verify (d_config d) g tree (unat (snap_Number t)) hash = Inr t0" "strip t0 = strip t"
    using linked_replay [OF l s0 t(1) assms(2) lt] by blast
  have "snap_Number t = snap_Number base + word_of_nat (length hs) \<and> snap_Hash t = hash"
  proof (cases "hs = []")
    case True
    then show ?thesis using t(1) l a by (simp add: snapshot_apply_def snap_agrees_def)
  next
    case False
    then have "snap_Number t = snap_Number base + word_of_nat (length hs)" "snap_Hash t = header_Hash kh (hd hs)"
      using t(1) by (auto simp: snapshot_apply_def last_rev split: if_splits sum.splits dest: apply_headers_base)
    moreover have "header_Hash kh (hd hs) = hash"
      using linked_last [OF l] False assms(2) by (auto simp: last_rev block_tree_def)
    ultimately show ?thesis by simp
  qed
  moreover have "word_of_nat (unat number) = (word_of_nat (unat (snap_Number base)) + word_of_nat (length hs) :: u64)"
    unfolding n [symmetric] by (rule of_nat_add)
  then have "number = snap_Number base + word_of_nat (length hs)" by simp
  ultimately have tn: "snap_Number t = number" "snap_Hash t = hash" by simp_all
  note st = strip_fields [OF t(2)]
  show sn: "snap_Number s = number" using tn st by simp
  show agrees: "snap_agrees kh verify (d_config d) g tree hash s"
    using t0 tn st t(2) assms(5) unfolding snap_agrees_def by simp
  have hs: "snap_Hash s = hash" using agrees by (simp add: snap_agrees_def)
  have upd: "caches_agree kh verify g tree (d1\<lparr>d_recents := d_recents d'\<rparr>)"
    using d1 agrees hs unfolding d'(1) by (auto simp: caches_agree_def split: if_splits)
  then show "caches_agree kh verify g tree d'"
    using d'(2) caches_agree_store [OF upd, of s] agrees hs d1(2) by auto
  show "d_config d' = d_config d" using d'(2) d1(2) by (auto dest: arg_cong [of _ _ d_config])
qed




lemma sc_block_tree: "block_tree sum_hash sc_genesis (sc_tree 0)"
  by (auto simp: block_tree_def sc_tree_def sc_h0_def sc_h1_def split: if_splits)

lemma sc_knows: "knows sum_hash sc_genesis (sc_tree 0) (sc_chain 0) []"
  by (auto simp: knows_def sc_get_def split: option.splits if_splits)


end
