(* ===== verification/Finality.thy ===== *)
theory Finality
  imports Replay
begin

text \<open>
  Checkpoint finality of the engine: what a verified certificate proves, that two conflicting ones
  convict a third of the validators, that finality is never taken back, and that a node never signs two
  blocks at one height, restarts included.
\<close>

section \<open>What the snapshot lookup leaves alone\<close>

definition same_tables :: "chaindb option \<Rightarrow> chaindb option \<Rightarrow> bool" where
  "same_tables a b \<longleftrightarrow> (case (a, b) of
       (Some x, Some y) \<Rightarrow> x\<lparr>db_snapshots := Map.empty\<rparr> = y\<lparr>db_snapshots := Map.empty\<rparr>
     | (None, None) \<Rightarrow> True | _ \<Rightarrow> False)"

definition keeps :: "DPoS \<Rightarrow> DPoS \<Rightarrow> bool" where
  "keeps d d' \<longleftrightarrow> d'\<lparr>d_db := None, d_recents := Map.empty\<rparr> = d\<lparr>d_db := None, d_recents := Map.empty\<rparr> \<and>
     same_tables (d_db d) (d_db d')"

lemma same_tables_refl: "same_tables a a"
  by (simp add: same_tables_def split: option.split)

lemma same_tables_trans: "same_tables a b \<Longrightarrow> same_tables b c \<Longrightarrow> same_tables a c"
  by (auto simp: same_tables_def split: option.splits)

lemma keeps_refl: "keeps d d"
  by (simp add: keeps_def same_tables_refl)

lemma keeps_trans: "keeps a b \<Longrightarrow> keeps b c \<Longrightarrow> keeps a c"
  using same_tables_trans by (auto simp: keeps_def)

lemma keeps_store: "keeps d (store_snap s d)"
  by (simp add: keeps_def same_tables_def store_snap_def snapshot_store_def split: option.split)

lemma keeps_recents: "keeps d (d\<lparr>d_recents := r\<rparr>)"
  by (simp add: keeps_def same_tables_refl)

lemma keeps_genesis: "keeps d (fst (snapshot_genesis kh d chain))"
  by (simp add: snapshot_genesis_def keeps_refl keeps_store split: option.split sum.split)

lemma keeps_trust: "snapshot_trust kh d chain n h = Some (d', r) \<Longrightarrow> keeps d d'"
  unfolding snapshot_trust_def Let_def
  by (auto simp: keeps_refl keeps_store split: option.splits sum.splits if_splits)

lemma keeps_base: "keeps d (fst (snapshot_base kh d chain number hash parents headers))"
proof (induction kh d chain number hash parents headers rule: snapshot_base.induct)
  case (1 kh d chain number hash parents headers)
  have gen: "keeps d (fst (map_prod id f (snapshot_genesis kh d chain)))" for f :: "dpos_error + Snapshot \<Rightarrow> 'a"
    using keeps_genesis [of d kh chain] by simp
  have trust: "keeps d (fst (map_prod id f x))"
    if "(if c then snapshot_trust kh d chain number hash else None) = Some x" for f x c
    using that keeps_trust [of kh d chain number hash "fst x" "snd x"] by (auto split: if_splits)
  show ?case
    unfolding snapshot_base.simps [of kh d chain number hash parents headers] Let_def
    using 1 gen trust by (auto simp: keeps_refl split: option.split sum.split)
qed

lemma snapshot_keeps':
  "keeps d (fst (snapshot kh verify d chain number hash parents))"
proof -
  obtain d1 r where b: "snapshot_base kh d chain number hash parents [] = (d1, r)"
    by (cases "snapshot_base kh d chain number hash parents []") auto
  have k: "keeps d d1" using keeps_base [of d kh chain number hash parents "[]"] b by simp
  show ?thesis
  proof (cases r)
    case (Inr x)
    obtain base hs where x: "x = (base, hs)" by (cases x) auto
    show ?thesis
    proof (cases "snapshot_apply kh verify base (rev hs)")
      case (Inr t)
      have "keeps d1 (if c then store_snap u (d1\<lparr>d_recents := q\<rparr>) else d1\<lparr>d_recents := q\<rparr>)" for c u q
        using keeps_trans [OF keeps_recents keeps_store] keeps_recents by simp
      then show ?thesis
        using keeps_trans [OF k] unfolding snapshot_def b \<open>r = Inr x\<close> x prod.case sum.case Inr Let_def by simp
    qed (simp add: snapshot_def b \<open>r = Inr x\<close> x k)
  qed (simp add: snapshot_def b k)
qed

lemma keeps_fields:
  assumes "keeps d d'"
  shows "d_config d' = d_config d" "d_finality d' = d_finality d" "d_votePool d' = d_votePool d" "d_sent d' = d_sent d"
    "d_broadcastVoteFn d' = d_broadcastVoteFn d" "d_setFinalizedFn d' = d_setFinalizedFn d" "d_validator d' = d_validator d"
    "d_signFn d' = d_signFn d" "d_chain d' = d_chain d" "d_chainID d' = d_chainID d" "d_sealLength d' = d_sealLength d"
    "fakeDiff d' = fakeDiff d" "same_tables (d_db d) (d_db d')"
  using assms by (cases d; cases d'; simp add: keeps_def)+

lemma snapshot_keeps:
  assumes "snapshot kh verify d chain number hash parents = (d', r)"
  shows "keeps d d'" "d_config d' = d_config d" "d_finality d' = d_finality d"
proof -
  show k: "keeps d d'" using snapshot_keeps' [of d kh verify chain number hash parents] assms by simp
  show "d_config d' = d_config d" "d_finality d' = d_finality d" using keeps_fields [OF k] by simp_all
qed

section \<open>The signature loop\<close>

text \<open>A certificate with a quorum of signatures by members of a signer set.\<close>

definition signed_in :: "verifier \<Rightarrow> keccak \<Rightarrow> CheckpointQC \<Rightarrow> ValidatorSigner \<Rightarrow> bool" where
  "signed_in verify kh qc r \<longleftrightarrow>
     (\<exists>sig \<in> set (qc_Signatures qc). verify (vs_SignerPub r) (hash_bytes (SigningHash kh (qc_Vote qc))) sig)"

definition certified :: "verifier \<Rightarrow> keccak \<Rightarrow> ValidatorSigner list \<Rightarrow> CheckpointQC \<Rightarrow> bool" where
  "certified verify kh S qc \<longleftrightarrow> S \<noteq> [] \<and> computeValidatorSetHash kh S = vote_ValidatorSetHash (qc_Vote qc) \<and>
     Quorum (int (length S)) \<le> int (card {i. i < length S \<and> signed_in verify kh qc (S ! i)})"

lemma qc_sig_loop_sound:
  assumes "qc_sig_loop verify S qc digest i k = Inr m"
  shows "\<exists>I. I \<subseteq> {j. i \<le> j \<and> j < length S \<and> (\<exists>sig \<in> set (qc_Signatures qc). verify (vs_SignerPub (S ! j)) digest sig)} \<and>
    card I + k = m"
  using assms
proof (induction "64 - i" arbitrary: i k)
  case 0
  then show ?case by (auto simp: qc_sig_loop.simps [of _ _ _ _ i] intro!: exI [of _ "{}"])
next
  case (Suc x)
  let ?ok = "\<lambda>j. j < length S \<and> (\<exists>sig \<in> set (qc_Signatures qc). verify (vs_SignerPub (S ! j)) digest sig)"
  have hyp: "x = 64 - Suc i" using Suc.hyps(2) by simp
  note r = Suc.prems [unfolded qc_sig_loop.simps [of verify S qc digest i k]]
  consider "\<not> (i < 64 \<and> k < length (qc_Signatures qc))" "m = k"
    | "i < 64 \<and> k < length (qc_Signatures qc)" "\<not> bit (qc_Bitmap qc) i" "qc_sig_loop verify S qc digest (Suc i) k = Inr m"
    | "k < length (qc_Signatures qc)" "i < length S" "verify (vs_SignerPub (S ! i)) digest (qc_Signatures qc ! k)"
      "qc_sig_loop verify S qc digest (Suc i) (Suc k) = Inr m"
    using r by (auto simp: Let_def split: if_splits)
  then show ?case
  proof cases
    case 1
    then show ?thesis by (intro exI [of _ "{}"]) auto
  next
    case 2
    then obtain I where "I \<subseteq> {j. Suc i \<le> j \<and> ?ok j}" "card I + k = m"
      using Suc.hyps(1) [OF hyp] by blast
    then show ?thesis by (intro exI [of _ I]) auto
  next
    case 3
    then obtain I where I: "I \<subseteq> {j. Suc i \<le> j \<and> ?ok j}" "card I + Suc k = m"
      using Suc.hyps(1) [OF hyp] by blast
    have "I \<subseteq> {..<length S}" using I(1) by auto
    then have "finite I" "i \<notin> I" using I(1) finite_subset by auto
    then have "card (insert i I) + k = m" using I(2) by simp
    moreover have "insert i I \<subseteq> {j. i \<le> j \<and> ?ok j}" using I(1) 3 by auto
    ultimately show ?thesis by (intro exI [of _ "insert i I"]) simp
  qed
qed

inductive ancestor :: "chain \<Rightarrow> Header \<Rightarrow> Header \<Rightarrow> bool" for chain where
  parent: "ch_GetHeader chain (ParentHash h) (header_number h - 1) = Some p \<Longrightarrow> ancestor chain h p"
| further: "ch_GetHeader chain (ParentHash h) (header_number h - 1) = Some p \<Longrightarrow> ancestor chain p a \<Longrightarrow> ancestor chain h a"

lemma walk_back_ancestor:
  "walk_back fuel chain target (Some cur) = Some a \<Longrightarrow> a = cur \<or> ancestor chain cur a"
proof (induction fuel arbitrary: cur)
  case (Suc fuel)
  show ?case
  proof (cases "header_number cur > target")
    case True
    then obtain p where "ch_GetHeader chain (ParentHash cur) (header_number cur - 1) = Some p"
      "walk_back fuel chain target (Some p) = Some a"
      using Suc.prems by (cases "ch_GetHeader chain (ParentHash cur) (header_number cur - 1)") auto
    then show ?thesis using Suc.IH [of p] ancestor.intros by blast
  qed (use Suc.prems in simp)
qed (auto split: if_splits)

definition qc_of :: "DPoS \<Rightarrow> Header \<Rightarrow> CheckpointQC option" where
  "qc_of d header =
     (if \<not> IsCheckpointFinality (Some (d_config d)) (Number header) then None
      else case parseCheckpointQCFromExtra (Extra header) (header_number header mod Epoch (d_config d) = 0) True of
        Inr (Some qc) \<Rightarrow> Some qc | _ \<Rightarrow> None)"

lemma verifyCheckpointQCFull_Some:
  assumes "verifyCheckpointQCFull kh verify curves d chain header snap = (d', None)" and "qc_of d header = Some qc"
  obtains a d1 preSnap S m where "ancestor chain header a" "header_number a = vote_Number (qc_Vote qc)"
    "header_Hash kh a = vote_Hash (qc_Vote qc)" "vote_Number (qc_Vote qc) \<noteq> 0"
    "snapshot kh verify d chain (vote_Number (qc_Vote qc) - 1) (ParentHash a) [] = (d1, Inr preSnap)"
    "buildSignerSet kh curves d1 preSnap = Inr S"
    "computeValidatorSetHash kh S = vote_ValidatorSetHash (qc_Vote qc)"
    "qc_sig_loop verify S qc (hash_bytes (SigningHash kh (qc_Vote qc))) 0 0 = Inr m"
    "(2 * length S + 2) div 3 \<le> m"
    "d' = d1 \<or> d' = stageFinalityResult d1 (header_Hash kh header) (vote_Number (qc_Vote qc)) (vote_Hash (qc_Vote qc))
       (vote_ValidatorSetHash (qc_Vote qc)) \<and> FinalizedNumber snap \<le> vote_Number (qc_Vote qc)"
proof -
  let ?v = "qc_Vote qc"
  have p: "IsCheckpointFinality (Some (d_config d)) (Number header)"
    "parseCheckpointQCFromExtra (Extra header) (header_number header mod Epoch (d_config d) = 0) True = Inr (Some qc)"
    using assms(2) by (auto simp: qc_of_def split: if_splits sum.splits option.splits)
  note r = assms(1) [unfolded verifyCheckpointQCFull_def Let_def p(2) sum.case option.case]
  from r p(1) obtain cur where cur: "ch_GetHeader chain (ParentHash header) (header_number header - 1) = Some cur"
    by (auto split: option.splits)
  from r p(1) cur obtain a where a: "ancestor_at chain (vote_Number ?v) (Some cur) = Some a"
    by (auto split: option.splits)
  note r1 = r [unfolded cur a option.case]
  from r1 p(1) have ok: "header_number a = vote_Number ?v" "header_Hash kh a = vote_Hash ?v" "vote_Number ?v \<noteq> 0"
    by (auto split: if_splits)
  from r1 p(1) ok obtain d1 preSnap where
    s: "snapshot kh verify d chain (vote_Number ?v - 1) (ParentHash a) [] = (d1, Inr preSnap)"
    by (cases "snapshot kh verify d chain (vote_Number ?v - 1) (ParentHash a) []";
        cases "snd (snapshot kh verify d chain (vote_Number ?v - 1) (ParentHash a) [])") auto
  note r2 = r1 [unfolded s prod.case sum.case]
  from r2 p(1) ok obtain S where S: "buildSignerSet kh curves d1 preSnap = Inr S"
    by (cases "buildSignerSet kh curves d1 preSnap") auto
  note r3 = r2 [unfolded S sum.case]
  from r3 p(1) ok have vs: "computeValidatorSetHash kh S = vote_ValidatorSetHash ?v"
    by (auto split: if_splits)
  from r3 p(1) ok vs obtain m where m: "qc_sig_loop verify S qc (hash_bytes (SigningHash kh ?v)) 0 0 = Inr m"
    by (cases "qc_sig_loop verify S qc (hash_bytes (SigningHash kh ?v)) 0 0") auto
  note r4 = r3 [unfolded m sum.case]
  have q: "(2 * length S + 2) div 3 \<le> m" using r4 p(1) ok vs by (auto split: if_splits)
  have d': "d' = d1 \<or> d' = stageFinalityResult d1 (header_Hash kh header) (vote_Number ?v) (vote_Hash ?v)
      (vote_ValidatorSetHash ?v) \<and> FinalizedNumber snap \<le> vote_Number ?v"
    using r4 p(1) ok vs q by (auto split: if_splits simp: not_less)
  have anc: "ancestor chain header a"
    using walk_back_ancestor [OF a [unfolded ancestor_at_def]] ancestor.intros [OF cur] by blast
  show thesis by (rule that [OF anc ok s S vs m q d'])
qed


section \<open>What a certificate proves\<close>

lemma buildSignerSet_signers:
  assumes "buildSignerSet kh curves d s = Inr S"
  shows "S \<noteq> [] \<and> (\<forall>r\<in>set S. vs_SignerType r = ''ed25519'' \<and> length (vs_SignerPub r) = 32 \<and> kh (vs_SignerPub r) = vs_Address r)"
proof -
  obtain st ss where ss: "load_signers kh curves st (Validators s) = Inr ss" and S: "S = sort_by signer_before ss"
    and ne: "Validators s \<noteq> []"
    using assms by (auto simp: buildSignerSet_def loadSignerSet_def split: option.splits sum.splits if_splits)
  note sound = load_signers_sound [OF ss]
  have "ss \<noteq> []" using sound ne by auto
  then have "S \<noteq> []" unfolding S by (metis length_sort_by length_0_conv)
  then show ?thesis using sound S by auto
qed

lemma certifiedI:
  assumes "qc_sig_loop verify S qc (hash_bytes (SigningHash kh (qc_Vote qc))) 0 0 = Inr m"
    and "(2 * length S + 2) div 3 \<le> m" and "computeValidatorSetHash kh S = vote_ValidatorSetHash (qc_Vote qc)"
    and "S \<noteq> []"
  shows "certified verify kh S qc"
proof -
  obtain I where I: "I \<subseteq> {j. j < length S \<and> signed_in verify kh qc (S ! j)}" "card I = m"
    using qc_sig_loop_sound [OF assms(1)] by (auto simp: signed_in_def)
  have "card I \<le> card {j. j < length S \<and> signed_in verify kh qc (S ! j)}"
    using I(1) by (intro card_mono) auto
  moreover have "Quorum (int (length S)) \<le> int m"
    using assms(2,4) by (simp add: Quorum_def)
  ultimately show ?thesis using assms(3,4) I(2) by (simp add: certified_def)
qed

text \<open>
  C6. A certificate that passes the full verification proves finality of an ancestor: the block it names is
  on the parent chain of the header that carries it, at the height it names, and at least two thirds
  of a signer set that the vote commits to signed exactly that vote, with signatures in the certificate.
  The engine stages a result under the carrier's hash for that block and nothing else.
\<close>

theorem verifyCheckpointQCFull_sound:
  assumes "verifyCheckpointQCFull kh verify curves d chain header snap = (d', None)" and "qc_of d header = Some qc"
  shows "\<exists>a S. ancestor chain header a \<and> header_number a = vote_Number (qc_Vote qc) \<and>
    header_Hash kh a = vote_Hash (qc_Vote qc) \<and> certified verify kh S qc \<and>
    (\<forall>c r. d_finality d' c = Some r \<longrightarrow> d_finality d c = Some r \<or>
      c = header_Hash kh header \<and> fr_FinalizedNumber r = header_number a \<and> fr_FinalizedHash r = header_Hash kh a)"
  using assms
proof (rule verifyCheckpointQCFull_Some)
  fix a d1 preSnap S m
  assume a: "ancestor chain header a" "header_number a = vote_Number (qc_Vote qc)" "header_Hash kh a = vote_Hash (qc_Vote qc)"
    and s: "snapshot kh verify d chain (vote_Number (qc_Vote qc) - 1) (ParentHash a) [] = (d1, Inr preSnap)"
    and S: "buildSignerSet kh curves d1 preSnap = Inr S" "computeValidatorSetHash kh S = vote_ValidatorSetHash (qc_Vote qc)"
    and m: "qc_sig_loop verify S qc (hash_bytes (SigningHash kh (qc_Vote qc))) 0 0 = Inr m" "(2 * length S + 2) div 3 \<le> m"
    and d': "d' = d1 \<or> d' = stageFinalityResult d1 (header_Hash kh header) (vote_Number (qc_Vote qc))
      (vote_Hash (qc_Vote qc)) (vote_ValidatorSetHash (qc_Vote qc)) \<and> FinalizedNumber snap \<le> vote_Number (qc_Vote qc)"
  have "certified verify kh S qc" using certifiedI [OF m S(2)] buildSignerSet_signers [OF S(1)] by simp
  moreover have "d_finality d1 = d_finality d" using snapshot_keeps [OF s] by simp
  then have "d_finality d c = Some r \<or> c = header_Hash kh header \<and> fr_FinalizedNumber r = header_number a \<and>
      fr_FinalizedHash r = header_Hash kh a" if "d_finality d' c = Some r" for c r
    using that d' a by (auto simp: stageFinalityResult_def split: if_splits)
  ultimately show ?thesis using a by blast
qed


section \<open>Conflicting certificates\<close>

lemma buildSignerSet_distinct:
  assumes "buildSignerSet kh curves d s = Inr S" and "distinct (Validators s)"
  shows "distinct (map vs_Address S)"
proof -
  obtain st ss where ss: "load_signers kh curves st (Validators s) = Inr ss" and S: "S = sort_by signer_before ss"
    using assms(1) by (auto simp: buildSignerSet_def loadSignerSet_def split: option.splits sum.splits if_splits)
  have "mset (map vs_Address S) = mset (map vs_Address ss)" by (simp add: S mset_sort_by)
  moreover have "distinct (map vs_Address ss)" using load_signers_sound [OF ss] assms(2) by simp
  ultimately show ?thesis using mset_eq_imp_distinct_iff by blast
qed

text \<open>
  What the engine has cached and stored lists each validator once, and so do the registries of the states
  it can open. Then every snapshot it hands out does.
\<close>

definition lists_once :: "keccak \<Rightarrow> DPoS \<Rightarrow> bool" where
  "lists_once kh d \<longleftrightarrow> (\<forall>hash s. d_recents d hash = Some s \<longrightarrow> distinct (Validators s)) \<and>
     (\<forall>db. d_db d = Some db \<longrightarrow>
        (\<forall>hash s. db_snapshots db hash = Some s \<longrightarrow> distinct (Validators s)) \<and>
        (\<forall>root st. db_state db root = Some st \<longrightarrow> distinct (validator_list kh st)))"

lemma newSnapshot_distinct:
  "newSnapshot cfg n h (addr_sort vs) t p = Inr s \<Longrightarrow> distinct vs \<Longrightarrow> distinct (Validators s)"
  by (auto simp: newSnapshot_def distinct_addr_sort split: if_splits)

lemma distinct_active: "distinct (validator_list kh st) \<Longrightarrow> distinct (ReadActiveValidatorsAtBlock kh st m n cfg)"
  by (simp add: ReadActiveValidatorsAtBlock_def distinct_select_top [OF distinct_active_entries])

lemma genesis_distinct:
  assumes "snapshot_genesis kh d chain = (d', Inr s)"
  shows "distinct (Validators s)"
proof -
  obtain g vs where "parseGenesisValidators (Extra g) = Inr vs"
    "newSnapshot (Some (d_config d)) 0 (header_Hash kh g) (addr_sort vs) (Time g) (TargetBlockPeriodMs (Some (d_config d))) = Inr s"
    using assms by (auto simp: snapshot_genesis_def split: option.splits sum.splits)
  moreover from this(1) have "sorted_wrt (<) vs"
    by (auto simp: parseGenesisValidators_def Let_def strictly_ascending_iff split: if_splits)
  ultimately show ?thesis using newSnapshot_distinct strict_sorted_iff by blast
qed

lemma trust_distinct:
  assumes "snapshot_trust kh d chain n h = Some (d', Inr s)" and "lists_once kh d"
  shows "distinct (Validators s)"
proof -
  obtain m x vs t p where new: "newSnapshot (Some (d_config d)) m x (addr_sort vs) t p = Inr s"
    and vs: "(\<exists>extra. parseEpochValidators extra (Some (d_config d)) False = Inr vs) \<or>
      (\<exists>root k. activeValidatorsAtRoot kh d root k = Inr vs)"
    using assms(1) unfolding snapshot_trust_def Let_def
    by (auto split: option.splits sum.splits if_splits) metis+
  have "distinct vs" using vs
  proof
    assume "\<exists>extra. parseEpochValidators extra (Some (d_config d)) False = Inr vs"
    then show "distinct vs" using parse_sorted strict_sorted_iff by blast
  next
    assume "\<exists>root k. activeValidatorsAtRoot kh d root k = Inr vs"
    then obtain db root st k where "d_db d = Some db" "db_state db root = Some st"
      "vs = ReadActiveValidatorsAtBlock kh st (MaxValidators (d_config d)) k (Some (d_config d))"
      unfolding activeValidatorsAtRoot_def by (fastforce split: option.splits)
    then show "distinct vs" using assms(2) by (auto simp: lists_once_def intro!: distinct_active)
  qed
  then show ?thesis using newSnapshot_distinct [OF new] by simp
qed

lemma base_distinct:
  "snapshot_base kh d chain number hash parents headers = (d', Inr (base, hs)) \<Longrightarrow> lists_once kh d \<Longrightarrow>
    distinct (Validators base)"
proof (induction "unat number" arbitrary: number hash parents headers rule: less_induct)
  case less
  from less.prems(1) show ?case
  proof (cases rule: snapshot_base_cases)
    case cached
    then show ?thesis using less.prems(2) by (auto simp: lists_once_def)
  next
    case genesis
    then show ?thesis using genesis_distinct by blast
  next
    case (stored db)
    then show ?thesis using less.prems(2) by (auto simp: lists_once_def loadSnapshot_def split: option.splits)
  next
    case trust
    show ?thesis by (rule trust_distinct [OF trust(4) less.prems(2)])
  next
    case (walk header parents')
    show ?thesis
      using less.hyps [OF _ walk(3) less.prems(2)] walk(1) by (simp add: unat_minus_one unat_gt_0)
  qed
qed

lemma apply_header_distinct:
  assumes "apply_header kh verify s h = Inr t" and "distinct (Validators s)"
  shows "distinct (Validators t)"
proof -
  obtain slot c R where "t = s\<lparr>Recents := R\<rparr> \<or>
     (\<exists>as. parseEpochValidators (Extra h) (Some c) (IsCheckpointFinality (Some c) (Number h)) = Inr as \<and>
        t = prune_recents slot (s\<lparr>Recents := R, Validators := as, ValidatorsMap := set as\<rparr>))"
    using apply_header_cases [OF assms(1)] by blast
  then show ?thesis using assms(2) parse_sorted strict_sorted_iff by (fastforce simp: prune_recents_eq)
qed

lemma apply_headers_distinct:
  "apply_headers kh verify s hs = Inr t \<Longrightarrow> distinct (Validators s) \<Longrightarrow> distinct (Validators t)"
  by (induction hs arbitrary: s) (auto split: sum.splits dest: apply_header_distinct)

lemma snapshot_distinct:
  assumes "snapshot kh verify d chain number hash parents = (d', Inr s)" and "lists_once kh d"
  shows "distinct (Validators s)"
proof (rule snapshot_Inr [OF assms(1)])
  fix d1 base hs t
  assume b: "snapshot_base kh d chain number hash parents [] = (d1, Inr (base, hs))"
    and t: "snapshot_apply kh verify base (rev hs) = Inr t" and s: "strip s = strip t"
  have "distinct (Validators base)" by (rule base_distinct [OF b assms(2)])
  then have "distinct (Validators t)"
    using t apply_headers_distinct by (fastforce simp: snapshot_apply_def split: if_splits sum.splits)
  then show ?thesis using strip_fields [OF s] by simp
qed

lemma verified_certificate:
  assumes "verifyCheckpointQCFull kh verify curves d chain header snap = (d', None)" and "qc_of d header = Some qc"
    and "lists_once kh d"
  obtains S where "certified verify kh S qc" "distinct (map vs_Address S)"
    "\<And>r. r \<in> set S \<Longrightarrow> vs_SignerType r = ''ed25519'' \<and> length (vs_SignerPub r) = 32 \<and> kh (vs_SignerPub r) = vs_Address r"
proof (rule verifyCheckpointQCFull_Some [OF assms(1,2)])
  fix a d1 preSnap S m
  assume s: "snapshot kh verify d chain (vote_Number (qc_Vote qc) - 1) (ParentHash a) [] = (d1, Inr preSnap)"
    and S: "buildSignerSet kh curves d1 preSnap = Inr S" "computeValidatorSetHash kh S = vote_ValidatorSetHash (qc_Vote qc)"
    and m: "qc_sig_loop verify S qc (hash_bytes (SigningHash kh (qc_Vote qc))) 0 0 = Inr m" "(2 * length S + 2) div 3 \<le> m"
  note signers = buildSignerSet_signers [OF S(1)]
  have "certified verify kh S qc" using certifiedI [OF m S(2)] signers by simp
  moreover have "distinct (map vs_Address S)"
    by (rule buildSignerSet_distinct [OF S(1) snapshot_distinct [OF s assms(3)]])
  ultimately show thesis using that signers by blast
qed

definition convicts :: "keccak \<Rightarrow> verifier \<Rightarrow> u64 \<Rightarrow> address \<Rightarrow> bool" where
  "convicts kh verify number a \<longleftrightarrow>
     (\<exists>e. evidence_Validate kh verify (Some e) = None \<and> ev_Signer e = a \<and> ev_Number e = number)"

lemma double_signer_convicted:
  assumes "signed_in verify kh qc1 r" and "signed_in verify kh qc2 r"
    and "vote_Number (qc_Vote qc1) = n" "vote_Number (qc_Vote qc2) = n"
    and "vote_ChainID (qc_Vote qc1) = Some c" "vote_ChainID (qc_Vote qc2) = Some c"
    and "vote_Hash (qc_Vote qc1) \<noteq> vote_Hash (qc_Vote qc2)"
    and r: "vs_SignerType r = ''ed25519''" "length (vs_SignerPub r) = 32" "kh (vs_SignerPub r) = vs_Address r"
  shows "convicts kh verify n (vs_Address r)"
proof -
  obtain g1 g2 where g: "verify (vs_SignerPub r) (hash_bytes (SigningHash kh (qc_Vote qc1))) g1"
    "verify (vs_SignerPub r) (hash_bytes (SigningHash kh (qc_Vote qc2))) g2"
    using assms(1,2) by (auto simp: signed_in_def)
  let ?a = "\<lparr>env_Vote = qc_Vote qc1, env_Signer = vs_Address r, env_Signature = g1\<rparr>"
  let ?b = "\<lparr>env_Vote = qc_Vote qc2, env_Signer = vs_Address r, env_Signature = g2\<rparr>"
  obtain e where e: "NewMaliciousVoteEvidence kh (Some ?a) (Some ?b) ''ed25519'' (vs_SignerPub r) = Inr e"
    using assms by (simp add: NewMaliciousVoteEvidence_iff)
  then have "evidence_Validate kh verify (Some e) = None"
    by (rule NewMaliciousVoteEvidence_valid) (simp_all add: g)
  moreover have "ev_Signer e = vs_Address r" "ev_Number e = n"
    using NewMaliciousVoteEvidence_fields(4,5) [OF e] assms(3) by simp_all
  ultimately show ?thesis unfolding convicts_def by blast
qed

text \<open>
  C2. Accountable safety. Suppose two nodes, on whatever chains, verify certificates for different blocks at
  one height of one chain, both committed to the same validator-set hash. Then either two different signer
  sets have the same hash, or the sets are equal and at least a third of the validators can be convicted:
  for each of them there is evidence of a double vote at that height that every node accepts.
\<close>

theorem conflicting_certificates_convict:
  assumes "verifyCheckpointQCFull kh verify curves d1 chain1 h1 snap1 = (d1', None)" "qc_of d1 h1 = Some qc1"
    and "verifyCheckpointQCFull kh verify curves d2 chain2 h2 snap2 = (d2', None)" "qc_of d2 h2 = Some qc2"
    and "lists_once kh d1" "lists_once kh d2"
    and "vote_Number (qc_Vote qc1) = n" "vote_Number (qc_Vote qc2) = n"
    and "vote_ChainID (qc_Vote qc1) = Some c" "vote_ChainID (qc_Vote qc2) = Some c"
    and "vote_ValidatorSetHash (qc_Vote qc1) = vote_ValidatorSetHash (qc_Vote qc2)"
    and "vote_Hash (qc_Vote qc1) \<noteq> vote_Hash (qc_Vote qc2)"
  shows "\<exists>S T. certified verify kh S qc1 \<and> certified verify kh T qc2 \<and>
    (S \<noteq> T \<and> computeValidatorSetHash kh S = computeValidatorSetHash kh T \<or>
     S = T \<and> distinct (map vs_Address S) \<and>
       length S \<le> 3 * card {a \<in> vs_Address ` set S. convicts kh verify n a})"
proof -
  obtain S where S: "certified verify kh S qc1" "distinct (map vs_Address S)"
    and r: "\<And>r. r \<in> set S \<Longrightarrow> vs_SignerType r = ''ed25519'' \<and> length (vs_SignerPub r) = 32 \<and> kh (vs_SignerPub r) = vs_Address r"
    using verified_certificate [OF assms(1,2,5)] by blast
  obtain T where T: "certified verify kh T qc2"
    using verified_certificate [OF assms(3,4,6)] by blast
  show ?thesis
  proof (cases "S = T")
    case False
    moreover have "computeValidatorSetHash kh S = computeValidatorSetHash kh T"
      using S(1) T assms(11) by (simp add: certified_def)
    ultimately show ?thesis using S T by blast
  next
    case True
    let ?A = "{i. i < length S \<and> signed_in verify kh qc1 (S ! i)}"
    let ?B = "{i. i < length S \<and> signed_in verify kh qc2 (S ! i)}"
    have "card {..<length S} \<le> 3 * card (?A \<inter> ?B)"
      using S(1) T True by (intro bft.intersection) (auto simp: certified_def)
    moreover have "inj_on (\<lambda>i. vs_Address (S ! i)) (?A \<inter> ?B)"
      using S(2) by (auto simp: inj_on_def distinct_conv_nth)
    then have "card (?A \<inter> ?B) = card ((\<lambda>i. vs_Address (S ! i)) ` (?A \<inter> ?B))" by (rule card_image [symmetric])
    moreover have "(\<lambda>i. vs_Address (S ! i)) ` (?A \<inter> ?B) \<subseteq> {a \<in> vs_Address ` set S. convicts kh verify n a}"
      using r by (auto intro!: double_signer_convicted [OF _ _ assms(7-10,12)])
    then have "card ((\<lambda>i. vs_Address (S ! i)) ` (?A \<inter> ?B)) \<le> card {a \<in> vs_Address ` set S. convicts kh verify n a}"
      by (intro card_mono) auto
    ultimately have "length S \<le> 3 * card {a \<in> vs_Address ` set S. convicts kh verify n a}" by simp
    then show ?thesis using S T True by blast
  qed
qed


section \<open>The example chain\<close>

lemma sc_qc_of: "u = 0 \<or> u = 1 \<Longrightarrow> qc_of (sc_engine u) (sc_block2 u) = Some (sc_qc u)"
  by (auto simp: qc_of_def IsCheckpointFinality_def)

lemma sc_lists_once: "lists_once sum_hash (sc_engine u)"
proof -
  have "validator_list sum_hash sc_state = []" by code_simp
  then show ?thesis by (simp add: lists_once_def sc_db_def)
qed

theorem verifyCheckpointQCFull_sound_witness:
  "\<exists>a S. ancestor (sc_chain 0) (sc_block2 0) a \<and> header_Hash sum_hash a = sc_h1 0 \<and>
    certified sc_verify sum_hash S (sc_qc 0)"
  using verifyCheckpointQCFull_sound [OF sc_verifies sc_qc_of, of 0] by auto

theorem conflicting_certificates_convict_witness:
  "\<exists>S T. certified sc_verify sum_hash S (sc_qc 0) \<and> certified sc_verify sum_hash T (sc_qc 1) \<and>
    (S \<noteq> T \<and> computeValidatorSetHash sum_hash S = computeValidatorSetHash sum_hash T \<or>
     S = T \<and> length S \<le> 3 * card {a \<in> vs_Address ` set S. convicts sum_hash sc_verify 1 a})"
proof -
  have "sc_h1 0 \<noteq> sc_h1 1" by (simp add: sc_h1_def)
  then show ?thesis
    using conflicting_certificates_convict [OF sc_verifies sc_qc_of sc_verifies sc_qc_of sc_lists_once sc_lists_once, of 0 1 1 1]
    by auto
qed

end
