(* ===== verification/Steps.thy ===== *)
theory Steps
  imports Finality
begin

text \<open>
  What each call of the engine does to the state that matters for finality: the tables of the database, the staged results and the
  record of the votes sent. Most calls leave all three alone (quiet); verifying a state stages results, each of them for a certified block;
  a canonical block finalises a staged one; producing a vote first records it.
\<close>

section \<open>Calls that touch neither finality nor the record of votes\<close>

text \<open>What is fixed when the engine is built.\<close>

definition shape :: "DPoS \<Rightarrow> DPoSConfig \<times> nat \<times> bool" where
  "shape d = (d_config d, d_sealLength d, fakeDiff d)"

definition quiet :: "DPoS \<Rightarrow> DPoS \<Rightarrow> bool" where
  "quiet d d' \<longleftrightarrow> same_tables (d_db d) (d_db d') \<and> d_sent d' = d_sent d \<and> d_finality d' = d_finality d \<and> shape d' = shape d"

lemma quiet_refl [simp]: "quiet d d"
  by (simp add: quiet_def same_tables_refl)

lemma quiet_trans: "quiet a b \<Longrightarrow> quiet b c \<Longrightarrow> quiet a c"
  using same_tables_trans by (auto simp: quiet_def)

lemma keeps_quiet: "keeps d d' \<Longrightarrow> quiet d d'"
  using keeps_fields by (simp add: quiet_def shape_def)

lemma snapshot_quiet: "snapshot kh verify d chain n h ps = (d', r) \<Longrightarrow> quiet d d'"
  by (rule keeps_quiet [OF snapshot_keeps(1)])

lemma quiet_pool [simp]: "quiet d (set_pool p d)" "quiet d (emitVoteMonitorEvent d src prev env)"
  by (simp_all add: quiet_def shape_def set_pool_def emitVoteMonitorEvent_def same_tables_refl split: option.split)

lemma quiet_add_vote [simp]: "quiet d (add_vote src env d)"
  using quiet_trans [OF quiet_pool(1) quiet_pool(2)] by (simp add: add_vote_def Let_def split: prod.split)

lemma quiet_prune [simp]: "quiet d (prune_at_head chain d)"
  by (simp add: prune_at_head_def prune_votes_def split: option.split)

lemma quiet_fold: "(\<And>x d. quiet d (f x d)) \<Longrightarrow> quiet d (fold f xs d)"
  by (induction xs arbitrary: d) (use quiet_trans in fastforce)+

lemma quiet_promote [simp]: "quiet d (promote_pending verify records vsHash digest candidate d)"
  unfolding promote_pending_def
  by (auto split: prod.split intro!: quiet_trans [OF quiet_pool(1) quiet_fold])

lemma HandleIncomingVote_quiet: "quiet d (fst (HandleIncomingVote kh verify curves d env))"
proof -
  have "quiet d (prune_at_head chain (set_pool p d'))" "quiet d (prune_at_head chain (add_vote src e d'))"
    if "quiet d d'" for d' chain p e src
    using that quiet_trans quiet_prune quiet_pool(1) quiet_add_vote by meson+
  then show ?thesis
    unfolding HandleIncomingVote_def Let_def
    by (auto split: option.split prod.split sum.split dest!: snapshot_quiet)
qed

lemma assembleCheckpointQC_quiet: "quiet d (fst (assembleCheckpointQC kh verify curves d chain header snap))"
proof -
  have "quiet d (promote_pending verify records vsHash digest candidate d')" if "quiet d d'" for d' records vsHash digest candidate
    using quiet_trans [OF that] by simp
  then show ?thesis
    unfolding assembleCheckpointQC_def Let_def
    by (auto split: option.split prod.split sum.split dest!: snapshot_quiet)
qed

lemma epoch_extra_quiet: "epoch_extra_error kh d header parent snap = (d', r) \<Longrightarrow> quiet d d'"
  by (auto simp: epoch_extra_error_def quiet_def shape_def same_tables_refl split: sum.splits if_splits)

lemma verifyCascadingFields_quiet: "quiet d (fst (verifyCascadingFields kh verify d chain header parents))"
proof -
  have e: "quiet d d'" if "epoch_extra_error kh d1 header parent snap = (d', r)" "quiet d d1" for d1 d' parent snap r
    using that epoch_extra_quiet quiet_trans by blast
  show ?thesis
    unfolding verifyCascadingFields_def Let_def
    by (auto split: option.split prod.split sum.split dest!: snapshot_quiet intro: e)
qed

lemma verifyHeader_quiet: "quiet d (fst (verifyHeader kh verify now d chain header parents))"
  using verifyCascadingFields_quiet by (simp add: verifyHeader_def Let_def split: option.split)

lemma CalcDifficulty_quiet: "quiet d (fst (CalcDifficulty kh verify d chain time parent))"
  unfolding CalcDifficulty_def by (auto split: prod.split sum.split dest!: snapshot_quiet)

lemma FinalizedValidatorSetHash_quiet: "quiet d (fst (FinalizedValidatorSetHash d))"
  by (simp add: FinalizedValidatorSetHash_def quiet_def shape_def same_tables_refl split: option.split)


section \<open>Calls that stage, finalise and sign\<close>

text \<open>A staged result names the block of a certificate.\<close>

definition certified_at :: "verifier \<Rightarrow> keccak \<Rightarrow> u64 \<Rightarrow> hash \<Rightarrow> bool" where
  "certified_at verify kh n h \<longleftrightarrow>
     (\<exists>qc S. certified verify kh S qc \<and> vote_Number (qc_Vote qc) = n \<and> vote_Hash (qc_Vote qc) = h)"

definition stages :: "verifier \<Rightarrow> keccak \<Rightarrow> DPoS \<Rightarrow> DPoS \<Rightarrow> bool" where
  "stages verify kh d d' \<longleftrightarrow> same_tables (d_db d) (d_db d') \<and> d_sent d' = d_sent d \<and> shape d' = shape d \<and>
     (\<forall>c r. d_finality d' c = Some r \<longrightarrow> d_finality d c = Some r \<or>
        certified_at verify kh (fr_FinalizedNumber r) (fr_FinalizedHash r))"

lemma quiet_stages: "quiet d d' \<Longrightarrow> stages verify kh d d'"
  by (simp add: quiet_def stages_def)

lemma quiet_stages_trans: "quiet a b \<Longrightarrow> stages verify kh b c \<Longrightarrow> stages verify kh a c"
  using same_tables_trans by (auto simp: quiet_def stages_def)

lemma verifyCheckpointQCFull_fails:
  assumes "verifyCheckpointQCFull kh verify curves d chain header snap = (d', r)" and "r \<noteq> None \<or> qc_of d header = None"
  shows "quiet d d'"
proof (cases "qc_of d header")
  case None
  then show ?thesis
    using assms(1) by (auto simp: verifyCheckpointQCFull_def qc_of_def Let_def split: if_splits sum.splits option.splits)
next
  case (Some qc)
  then have "r \<noteq> None" using assms(2) by simp
  then show ?thesis
    using assms(1) unfolding verifyCheckpointQCFull_def Let_def
    by (auto split: if_splits sum.splits option.splits prod.splits dest!: snapshot_quiet)
qed

lemma verifyCheckpointQCFull_stages: "stages verify kh d (fst (verifyCheckpointQCFull kh verify curves d chain header snap))"
proof -
  obtain d' r where v: "verifyCheckpointQCFull kh verify curves d chain header snap = (d', r)"
    by (cases "verifyCheckpointQCFull kh verify curves d chain header snap") auto
  show ?thesis
  proof (cases "r = None \<and> qc_of d header \<noteq> None")
    case False
    then show ?thesis using verifyCheckpointQCFull_fails [OF v] quiet_stages v by auto
  next
    case True
    then obtain qc where qc: "qc_of d header = Some qc" and ok: "verifyCheckpointQCFull kh verify curves d chain header snap = (d', None)"
      using v by auto
    show ?thesis using ok qc
    proof (rule verifyCheckpointQCFull_Some)
      fix a d1 preSnap S m
      assume s: "snapshot kh verify d chain (vote_Number (qc_Vote qc) - 1) (ParentHash a) [] = (d1, Inr preSnap)"
        and S: "buildSignerSet kh curves d1 preSnap = Inr S" "computeValidatorSetHash kh S = vote_ValidatorSetHash (qc_Vote qc)"
        and m: "qc_sig_loop verify S qc (hash_bytes (SigningHash kh (qc_Vote qc))) 0 0 = Inr m" "(2 * length S + 2) div 3 \<le> m"
        and d': "d' = d1 \<or> d' = stageFinalityResult d1 (header_Hash kh header) (vote_Number (qc_Vote qc))
          (vote_Hash (qc_Vote qc)) (vote_ValidatorSetHash (qc_Vote qc)) \<and> FinalizedNumber snap \<le> vote_Number (qc_Vote qc)"
      have "certified verify kh S qc" using certifiedI [OF m S(2)] buildSignerSet_signers [OF S(1)] by simp
      then have "certified_at verify kh (vote_Number (qc_Vote qc)) (vote_Hash (qc_Vote qc))"
        unfolding certified_at_def by blast
      then have "stages verify kh d1 d'"
        using d' by (auto simp: stages_def shape_def stageFinalityResult_def same_tables_refl split: if_splits)
      then show ?thesis using quiet_stages_trans [OF snapshot_quiet [OF s]] v by simp
    qed
  qed
qed

lemma VerifyFinalizedState_stages: "stages verify kh d (fst (VerifyFinalizedState kh verify curves d header))"
proof -
  have del: "quiet d (d\<lparr>d_deferredEpochChecks := x\<rparr>)" for x by (simp add: quiet_def shape_def same_tables_refl)
  have full: "stages verify kh d (fst (verifyCheckpointQCFull kh verify curves d1 chain header snap))"
    if "snapshot kh verify (d\<lparr>d_deferredEpochChecks := x\<rparr>) ch n h ps = (d1, r)" for d1 chain snap x ch n h ps r
    by (rule quiet_stages_trans [OF quiet_trans [OF del snapshot_quiet [OF that]] verifyCheckpointQCFull_stages])
  have snap: "stages verify kh d d1"
    if "snapshot kh verify (d\<lparr>d_deferredEpochChecks := x\<rparr>) ch n h ps = (d1, r)" for d1 x ch n h ps r
    by (rule quiet_stages [OF quiet_trans [OF del snapshot_quiet [OF that]]])
  show ?thesis
    unfolding VerifyFinalizedState_def Let_def
    by (auto split: option.split prod.split sum.split intro: full snap quiet_stages [OF del] quiet_stages [OF quiet_refl])
qed

section \<open>Finalising\<close>

text \<open>The header tables of the node: a header is stored under its own hash and number.\<close>

definition headers_ok :: "keccak \<Rightarrow> chaindb \<Rightarrow> bool" where
  "headers_ok kh db \<longleftrightarrow> (\<forall>h n x. db_header db h n = Some x \<longrightarrow>
     header_Hash kh x = h \<and> header_number x = n \<and> h \<noteq> 0 \<and> db_number db h = Some n)"

lemma same_tables_Some:
  assumes "same_tables (Some db) x"
  obtains db' where "x = Some db'" "db_header db' = db_header db" "db_number db' = db_number db"
    "db_finalized db' = db_finalized db" "db_kv db' = db_kv db"
proof (cases x)
  case (Some db')
  then have "db\<lparr>db_snapshots := Map.empty\<rparr> = db'\<lparr>db_snapshots := Map.empty\<rparr>" using assms by (simp add: same_tables_def)
  then show thesis using Some that by (cases db; cases db') simp
qed (use assms in \<open>simp add: same_tables_def\<close>)

lemma finalized_block:
  assumes "d_db d = Some db" and "headers_ok kh db"
  shows "runtimeFinalizedBlock d = Some b \<longleftrightarrow> (\<exists>n. db_header db (db_finalized db) n = Some b)"
proof
  assume "runtimeFinalizedBlock d = Some b"
  then show "\<exists>n. db_header db (db_finalized db) n = Some b"
    using assms(1) by (auto simp: runtimeFinalizedBlock_def split: if_splits option.splits)
next
  assume "\<exists>n. db_header db (db_finalized db) n = Some b"
  then obtain n where n: "db_header db (db_finalized db) n = Some b" by blast
  then have "db_finalized db \<noteq> 0" "db_number db (db_finalized db) = Some n" using assms(2) by (auto simp: headers_ok_def)
  then show "runtimeFinalizedBlock d = Some b" using assms(1) n by (simp add: runtimeFinalizedBlock_def)
qed

lemma OnCanonicalBlock_cases:
  assumes "d_db d = Some db" and "headers_ok kh db"
  obtains (same) "same_tables (d_db d) (d_db (OnCanonicalBlock kh d block)) \<or>
      (\<exists>v. d_db (OnCanonicalBlock kh d block) = Some (db\<lparr>db_vsHash := v\<rparr>))"
  | (finalises) b v c r where "d_db (OnCanonicalBlock kh d block) = Some (db\<lparr>db_vsHash := v, db_finalized := header_Hash kh b\<rparr>)"
      "d_finality d c = Some r" "db_header db (fr_FinalizedHash r) (fr_FinalizedNumber r) = Some b"
      "\<And>x. runtimeFinalizedBlock d = Some x \<Longrightarrow> header_number x < fr_FinalizedNumber r"
proof (cases block)
  case None
  then show thesis using same by (simp add: OnCanonicalBlock_def same_tables_refl)
next
  case (Some header)
  let ?c = "header_Hash kh header"
  let ?d = "d\<lparr>d_finality := (d_finality d)(?c := None)\<rparr>"
  have rt: "runtimeFinalizedBlock ?d = runtimeFinalizedBlock d" by (simp add: runtimeFinalizedBlock_def)
  show thesis
  proof (cases "d_finality d ?c")
    case None
    then show thesis using same Some by (simp add: OnCanonicalBlock_def same_tables_refl)
  next
    case r: (Some r)
    show thesis
    proof (cases "(case runtimeFinalizedBlock d of None \<Rightarrow> False | Some current \<Rightarrow> fr_FinalizedNumber r \<le> header_number current) \<or>
        db_header db (fr_FinalizedHash r) (fr_FinalizedNumber r) = None")
      case True
      then have "d_db (OnCanonicalBlock kh d block) = d_db d"
        using Some r assms(1) rt by (auto simp: OnCanonicalBlock_def Let_def)
      then show thesis using same by (simp add: same_tables_refl)
    next
      case False
      then obtain b where b: "db_header db (fr_FinalizedHash r) (fr_FinalizedNumber r) = Some b" by auto
      have lt: "header_number x < fr_FinalizedNumber r" if "runtimeFinalizedBlock d = Some x" for x
        using False that by auto
      have "OnCanonicalBlock kh d block = set_vs_hash (fr_ValidatorSetHash r)
          (if d_setFinalizedFn ?d then set_finalized (header_Hash kh b) ?d else ?d)"
        using Some r False b assms(1) rt by (auto simp: OnCanonicalBlock_def Let_def)
      then have "d_db (OnCanonicalBlock kh d block) = Some (db\<lparr>db_vsHash := fr_ValidatorSetHash r\<rparr>) \<or>
          d_db (OnCanonicalBlock kh d block) = Some (db\<lparr>db_vsHash := fr_ValidatorSetHash r, db_finalized := header_Hash kh b\<rparr>)"
        using assms(1) by (auto simp: set_vs_hash_def set_finalized_def)
      then show thesis using same finalises [OF _ r b lt] by blast
    qed
  qed
qed

lemma OnCanonicalBlock_rest:
  "d_sent (OnCanonicalBlock kh d block) = d_sent d"
  "d_finality (OnCanonicalBlock kh d block) c = Some r \<Longrightarrow> d_finality d c = Some r"
  "shape (OnCanonicalBlock kh d block) = shape d"
  by (auto simp: shape_def OnCanonicalBlock_def Let_def set_vs_hash_def set_finalized_def split: option.splits if_splits)

section \<open>Signing\<close>

lemma write_signed_db: "d_db d = Some db \<Longrightarrow>
    d_db (write_signed n h d) = Some (db\<lparr>db_kv := WriteSignedCheckpoint (db_kv db) n h\<rparr>)"
  by (simp add: write_signed_def)

lemma buildSignerSet_db: "buildSignerSet kh curves d s = Inr S \<Longrightarrow> \<exists>db. d_db d = Some db"
  by (auto simp: buildSignerSet_def split: option.splits)

lemma same_tables_None: "same_tables a b \<Longrightarrow> a = None \<longleftrightarrow> b = None"
  by (auto simp: same_tables_def split: option.splits)

lemma maybeProduceCheckpointVote_cases:
  obtains (silent) "quiet d (maybeProduceCheckpointVote kh verify curves d chain header snap v signFn)"
  | (signs) d1 db env where "quiet d d1" "d_db d = Some db"
      "\<And>h. ReadSignedCheckpoint (db_kv db) (vote_Number (env_Vote env)) = Some h \<Longrightarrow> h = vote_Hash (env_Vote env)"
      "maybeProduceCheckpointVote kh verify curves d chain header snap v signFn =
        broadcast env (add_vote ''local'' env (write_signed (vote_Number (env_Vote env)) (vote_Hash (env_Vote env)) d1))"
proof -
  let ?d' = "maybeProduceCheckpointVote kh verify curves d chain header snap v signFn"
  let ?cand = "(header_number header - 1) div CheckpointInterval (d_config d) * CheckpointInterval (d_config d)"
  let ?guard = "\<lambda>h. case d_db d of None \<Rightarrow> False
    | Some db \<Rightarrow> (case ReadSignedCheckpoint (db_kv db) ?cand of None \<Rightarrow> False | Some existing \<Rightarrow> existing \<noteq> h)"
  note e = maybeProduceCheckpointVote_def [of kh verify curves d chain header snap v signFn, unfolded Let_def]
  show thesis
  proof (cases "?d' = d")
    case True
    then show thesis using silent by simp
  next
    case loud: False
    from loud obtain cp where cp: "ch_GetHeaderByNumber chain ?cand = Some cp"
      unfolding e by (cases "ch_GetHeaderByNumber chain ?cand") (auto split: if_splits)
    let ?h = "header_Hash kh cp"
    from loud have g: "\<not> ?guard ?h" unfolding e cp option.case(2) by (auto split: if_splits)
    obtain d1 r where s: "snapshot kh verify d chain (?cand - 1) (ParentHash cp) [] = (d1, r)" by (cases "snapshot kh verify d chain (?cand - 1) (ParentHash cp) []")
    note q = snapshot_quiet [OF s]
    have d': "?d' = (case r of Inl x \<Rightarrow> d1 | Inr preSnap \<Rightarrow>
        (case buildSignerSet kh curves d1 preSnap of Inl x \<Rightarrow> d1
         | Inr records \<Rightarrow>
            if (case signer_pub records v of None \<Rightarrow> True | Some pub \<Rightarrow> length pub = 0) then d1
            else (case signFn v (hash_bytes (SigningHash kh (checkpoint_vote (ch_ChainID chain) ?cand ?h (computeValidatorSetHash kh records)))) of
                None \<Rightarrow> d1
              | Some rawSig \<Rightarrow> if length rawSig \<noteq> 64 then d1
                  else
                    (let env = \<lparr>env_Vote = checkpoint_vote (ch_ChainID chain) ?cand ?h (computeValidatorSetHash kh records), env_Signer = v, env_Signature = rawSig\<rparr>
                     in broadcast env (add_vote ''local'' env (write_signed ?cand ?h d1))))))"
      using loud unfolding e cp option.case(2) if_not_P [OF g] s prod.case Let_def by (auto split: if_splits)
    show thesis
    proof (cases "?d' = d1")
      case True
      then show thesis using silent q by simp
    next
      case False
      from False d' obtain preSnap where r: "r = Inr preSnap" by (cases r) auto
      from False d' r obtain S where S: "buildSignerSet kh curves d1 preSnap = Inr S" by (cases "buildSignerSet kh curves d1 preSnap") auto
      let ?env = "\<lambda>sig. \<lparr>env_Vote = checkpoint_vote (ch_ChainID chain) ?cand ?h (computeValidatorSetHash kh S),
        env_Signer = v, env_Signature = sig\<rparr>"
      from False d' [unfolded r S sum.case Let_def] obtain sig where
        d'': "?d' = broadcast (?env sig) (add_vote ''local'' (?env sig) (write_signed ?cand ?h d1))"
        by (auto split: if_splits option.splits)
      then obtain env where env: "vote_Number (env_Vote env) = ?cand" "vote_Hash (env_Vote env) = ?h"
        "?d' = broadcast env (add_vote ''local'' env (write_signed ?cand ?h d1))"
        by (intro that [of "?env sig"]) (simp_all add: checkpoint_vote_def)
      obtain db1 where db1: "d_db d1 = Some db1" using buildSignerSet_db [OF S] by blast
      then obtain db where db: "d_db d = Some db"
        using q same_tables_None [of "d_db d" "d_db d1"] by (auto simp: quiet_def)
      show thesis
        using signs [OF q db, of env] g env db by (auto split: option.splits)
    qed
  qed
qed


lemma regossip_cases:
  obtains (silent) "quiet d (regossip kh verify curves chain v signFn (n, h) d)"
  | (sends) d1 env where "quiet d d1" "vote_Number (env_Vote env) = n" "vote_Hash (env_Vote env) = h"
      "regossip kh verify curves chain v signFn (n, h) d = broadcast env (add_vote ''restart-gossip'' env d1)"
proof -
  let ?d' = "regossip kh verify curves chain v signFn (n, h) d"
  note e = regossip_def [of kh verify curves chain v signFn, THEN fun_cong, THEN fun_cong, of "(n, h)" d, unfolded prod.case Let_def]
  show thesis
  proof (cases "?d' = d")
    case True
    then show thesis using silent by simp
  next
    case loud: False
    from loud obtain cp where cp: "ch_GetHeaderByNumber chain n = Some cp"
      unfolding e by (cases "ch_GetHeaderByNumber chain n") auto
    from loud have hash: "header_Hash kh cp = h" unfolding e cp by (auto split: if_splits)
    obtain d1 r where s: "snapshot kh verify d chain (n - 1) (ParentHash cp) [] = (d1, r)"
      by (cases "snapshot kh verify d chain (n - 1) (ParentHash cp) []")
    note q = snapshot_quiet [OF s]
    note e1 = e [unfolded cp option.case(2) hash s prod.case, simplified]
    show thesis
    proof (cases "?d' = d1")
      case True
      then show thesis using silent q by simp
    next
      case False
      from False e1 obtain preSnap where r: "r = Inr preSnap" by (cases r) auto
      from False e1 r obtain S where S: "buildSignerSet kh curves d1 preSnap = Inr S" by (cases "buildSignerSet kh curves d1 preSnap") auto
      let ?env = "\<lambda>sig. \<lparr>env_Vote = checkpoint_vote (ch_ChainID chain) n h (computeValidatorSetHash kh S),
        env_Signer = v, env_Signature = sig\<rparr>"
      from False e1 [unfolded r S sum.case] obtain sig where
        "?d' = broadcast (?env sig) (add_vote ''restart-gossip'' (?env sig) d1)"
        by (auto split: if_splits option.splits)
      then show thesis using sends [OF q, of "?env sig"] by (simp add: checkpoint_vote_def)
    qed
  qed
qed

lemma broadcast_simps [simp]:
  "d_db (broadcast env d) = d_db d" "d_finality (broadcast env d) = d_finality d"
  "set (d_sent (broadcast env d)) \<subseteq> insert env (set (d_sent d))" "shape (broadcast env d) = shape d"
  by (auto simp: broadcast_def shape_def)

end
