(* ===== verification/Runs.thy ===== *)
theory Runs
  imports Steps
begin

text \<open>
  Runs of the engine. A step is one call of the engine by the node: a vote from a peer, a header to verify, a state to
  verify, a block that becomes canonical, a vote to produce, the gossip after a restart; or one of the things that happen around it:
  a cache forgets entries, the node restarts, the chain writes headers and states. The theorems hold in every reachable
  engine: what is finalised is certified and stays finalised, and no two votes that the node ever sent conflict.
\<close>

section \<open>The invariant\<close>

text \<open>Every vote sent is recorded under its height, so that a later vote can be checked against it.\<close>

definition sent_recorded :: "chaindb \<Rightarrow> CheckpointVoteEnvelope list \<Rightarrow> bool" where
  "sent_recorded db sent \<longleftrightarrow> signed_store_ok (db_kv db) \<and>
     (\<forall>env \<in> set sent. ReadSignedCheckpoint (db_kv db) (vote_Number (env_Vote env)) = Some (vote_Hash (env_Vote env)))"

definition finalized_ok :: "keccak \<Rightarrow> verifier \<Rightarrow> chaindb \<Rightarrow> bool" where
  "finalized_ok kh verify db \<longleftrightarrow> db_finalized db = 0 \<or>
     (\<exists>n b. db_header db (db_finalized db) n = Some b \<and> certified_at verify kh n (db_finalized db))"

definition engine_inv :: "keccak \<Rightarrow> verifier \<Rightarrow> DPoS \<Rightarrow> bool" where
  "engine_inv kh verify d \<longleftrightarrow>
     (\<exists>db. d_db d = Some db \<and> headers_ok kh db \<and> sent_recorded db (d_sent d) \<and> finalized_ok kh verify db) \<and>
     (\<forall>c r. d_finality d c = Some r \<longrightarrow> certified_at verify kh (fr_FinalizedNumber r) (fr_FinalizedHash r))"

lemma engine_invI:
  assumes "d_db d = Some db" "headers_ok kh db" "sent_recorded db (d_sent d)" "finalized_ok kh verify db"
    and "\<And>c r. d_finality d c = Some r \<Longrightarrow> certified_at verify kh (fr_FinalizedNumber r) (fr_FinalizedHash r)"
  shows "engine_inv kh verify d"
  using assms by (simp add: engine_inv_def)

lemma engine_invE:
  assumes "engine_inv kh verify d"
  obtains db where "d_db d = Some db" "headers_ok kh db" "sent_recorded db (d_sent d)" "finalized_ok kh verify db"
    "\<And>c r. d_finality d c = Some r \<Longrightarrow> certified_at verify kh (fr_FinalizedNumber r) (fr_FinalizedHash r)"
  using assms by (auto simp: engine_inv_def)

text \<open>The tables that the invariant reads.\<close>

lemma tables_ok:
  assumes "db_header db' = db_header db" "db_number db' = db_number db"
  shows "headers_ok kh db' = headers_ok kh db"
    and "db_finalized db' = db_finalized db \<Longrightarrow> finalized_ok kh verify db' = finalized_ok kh verify db"
    and "db_kv db' = db_kv db \<Longrightarrow> sent_recorded db' sent = sent_recorded db sent"
  using assms by (simp_all add: headers_ok_def finalized_ok_def sent_recorded_def)

text \<open>Finality only grows.\<close>

definition advances :: "DPoS \<Rightarrow> DPoS \<Rightarrow> bool" where
  "advances d d' \<longleftrightarrow> (\<forall>b. runtimeFinalizedBlock d = Some b \<longrightarrow>
     (\<exists>b'. runtimeFinalizedBlock d' = Some b' \<and> (b' = b \<or> header_number b < header_number b')))"

lemma advances_trans:
  assumes "advances a b" and "advances b c"
  shows "advances a c"
  unfolding advances_def
proof (intro allI impI)
  fix x
  assume "runtimeFinalizedBlock a = Some x"
  then obtain y where y: "runtimeFinalizedBlock b = Some y" "y = x \<or> header_number x < header_number y"
    using assms(1) unfolding advances_def by blast
  then obtain z where "runtimeFinalizedBlock c = Some z" "z = y \<or> header_number y < header_number z"
    using assms(2) unfolding advances_def by blast
  then show "\<exists>z. runtimeFinalizedBlock c = Some z \<and> (z = x \<or> header_number x < header_number z)"
    using y(2) by auto
qed

lemma finalized_cong:
  "d_db d = Some db \<Longrightarrow> d_db d' = Some db' \<Longrightarrow> db_header db' = db_header db \<Longrightarrow> db_number db' = db_number db \<Longrightarrow>
    db_finalized db' = db_finalized db \<Longrightarrow> runtimeFinalizedBlock d' = runtimeFinalizedBlock d"
  by (simp add: runtimeFinalizedBlock_def split: option.split)

lemma same_tables_finalized: "same_tables (d_db d) (d_db d') \<Longrightarrow> runtimeFinalizedBlock d' = runtimeFinalizedBlock d"
proof (cases "d_db d")
  case (Some db)
  assume "same_tables (d_db d) (d_db d')"
  then obtain db' where "d_db d' = Some db'" "db_header db' = db_header db" "db_number db' = db_number db"
    "db_finalized db' = db_finalized db" using Some same_tables_Some [of db "d_db d'"] by auto
  then show ?thesis using finalized_cong [OF Some] by simp
qed (auto simp: same_tables_def runtimeFinalizedBlock_def split: option.splits)

lemma stages_inv:
  assumes "stages verify kh d d'" and "engine_inv kh verify d"
  shows "engine_inv kh verify d'" and "advances d d'"
proof -
  obtain db where db: "d_db d = Some db" "headers_ok kh db" "sent_recorded db (d_sent d)" "finalized_ok kh verify db"
    and staged: "\<And>c r. d_finality d c = Some r \<Longrightarrow> certified_at verify kh (fr_FinalizedNumber r) (fr_FinalizedHash r)"
    using engine_invE [OF assms(2)] by blast
  have st: "same_tables (Some db) (d_db d')" "d_sent d' = d_sent d" using assms(1) db(1) by (simp_all add: stages_def)
  obtain db' where db': "d_db d' = Some db'" "db_header db' = db_header db" "db_number db' = db_number db"
    "db_finalized db' = db_finalized db" "db_kv db' = db_kv db"
    by (rule same_tables_Some [OF st(1)])
  note ok = tables_ok [OF db'(2,3)]
  have "certified_at verify kh (fr_FinalizedNumber r) (fr_FinalizedHash r)" if "d_finality d' c = Some r" for c r
    using assms(1) staged that unfolding stages_def by blast
  then show "engine_inv kh verify d'"
    using db db' st(2) ok by (intro engine_invI [OF db'(1)]) simp_all
  show "advances d d'" using finalized_cong [OF db(1) db'(1-4)] by (simp add: advances_def)
qed

lemma OnCanonicalBlock_inv:
  assumes "engine_inv kh verify d"
  shows "engine_inv kh verify (OnCanonicalBlock kh d block)" and "advances d (OnCanonicalBlock kh d block)"
proof -
  let ?d' = "OnCanonicalBlock kh d block"
  obtain db where db: "d_db d = Some db" "headers_ok kh db" "sent_recorded db (d_sent d)" "finalized_ok kh verify db"
    and staged: "\<And>c r. d_finality d c = Some r \<Longrightarrow> certified_at verify kh (fr_FinalizedNumber r) (fr_FinalizedHash r)"
    using engine_invE [OF assms] by blast
  note rest = OnCanonicalBlock_rest(1) [of kh d block] staged [OF OnCanonicalBlock_rest(2)]
  have "engine_inv kh verify ?d' \<and> advances d ?d'"
    using db(1,2)
  proof (cases rule: OnCanonicalBlock_cases [where block = block])
    case same
    then obtain db' where db': "d_db ?d' = Some db'" "db_header db' = db_header db" "db_number db' = db_number db"
      "db_finalized db' = db_finalized db" "db_kv db' = db_kv db"
    proof
      assume "same_tables (d_db d) (d_db ?d')"
      then have "same_tables (Some db) (d_db ?d')" by (simp add: db(1))
      then show thesis by (rule same_tables_Some) (rule that)
    next
      assume "\<exists>v. d_db ?d' = Some (db\<lparr>db_vsHash := v\<rparr>)"
      then show thesis using that by fastforce
    qed
    note ok = tables_ok [OF db'(2,3)]
    have "engine_inv kh verify ?d'"
      using db db' ok rest by (intro engine_invI [OF db'(1)]) simp_all
    then show ?thesis using finalized_cong [OF db(1) db'(1-4)] by (simp add: advances_def)
  next
    case (finalises b v c r)
    let ?db' = "db\<lparr>db_vsHash := v, db_finalized := header_Hash kh b\<rparr>"
    have hash: "header_Hash kh b = fr_FinalizedHash r" "header_number b = fr_FinalizedNumber r"
      using db(2) finalises(3) by (auto simp: headers_ok_def)
    have ok: "headers_ok kh ?db'" "sent_recorded ?db' (d_sent ?d')" using db(2,3) rest(1) tables_ok(1,3) [of ?db' db] by simp_all
    have "finalized_ok kh verify ?db'"
      using finalises(3) hash staged [OF finalises(2)] by (auto simp: finalized_ok_def)
    then have inv: "engine_inv kh verify ?d'" using rest(2) by (intro engine_invI [OF finalises(1) ok])
    have "runtimeFinalizedBlock ?d' = Some b"
      unfolding finalized_block [OF finalises(1) ok(1)] using finalises(3) hash by auto
    then have "advances d ?d'" using finalises(4) hash by (simp add: advances_def)
    with inv show ?thesis by simp
  qed
  then show "engine_inv kh verify ?d'" and "advances d ?d'" by simp_all
qed

definition recorded :: "DPoS \<Rightarrow> CheckpointVoteEnvelope \<Rightarrow> bool" where
  "recorded d env \<longleftrightarrow> (\<exists>db. d_db d = Some db \<and>
     ReadSignedCheckpoint (db_kv db) (vote_Number (env_Vote env)) = Some (vote_Hash (env_Vote env)))"

lemma quiet_recorded: "quiet d d' \<Longrightarrow> recorded d env \<Longrightarrow> recorded d' env"
  unfolding quiet_def recorded_def by (metis same_tables_Some)

lemma quiet_inv: "quiet d d' \<Longrightarrow> engine_inv kh verify d \<Longrightarrow> engine_inv kh verify d' \<and> advances d d'"
  using stages_inv [OF quiet_stages] by blast

lemma broadcast_inv:
  assumes "engine_inv kh verify d" and "recorded d env"
  shows "engine_inv kh verify (broadcast env d)" and "advances d (broadcast env d)"
proof -
  obtain db where db: "d_db d = Some db" "headers_ok kh db" "sent_recorded db (d_sent d)" "finalized_ok kh verify db"
    and staged: "\<And>c r. d_finality d c = Some r \<Longrightarrow> certified_at verify kh (fr_FinalizedNumber r) (fr_FinalizedHash r)"
    using engine_invE [OF assms(1)] by blast
  have "sent_recorded db (d_sent (broadcast env d))"
    using db assms(2) by (auto simp: sent_recorded_def recorded_def broadcast_def)
  then show "engine_inv kh verify (broadcast env d)"
    using db staged by (intro engine_invI [of _ db]) simp_all
  show "advances d (broadcast env d)" by (simp add: advances_def runtimeFinalizedBlock_def)
qed

lemma write_signed_inv:
  assumes "engine_inv kh verify d" and "d_db d = Some db"
    and "\<And>x. ReadSignedCheckpoint (db_kv db) n = Some x \<Longrightarrow> x = h"
  shows "engine_inv kh verify (write_signed n h d)" and "advances d (write_signed n h d)"
proof -
  let ?db = "db\<lparr>db_kv := WriteSignedCheckpoint (db_kv db) n h\<rparr>"
  have ok: "headers_ok kh db" "sent_recorded db (d_sent d)" "finalized_ok kh verify db"
    and staged: "\<And>c r. d_finality d c = Some r \<Longrightarrow> certified_at verify kh (fr_FinalizedNumber r) (fr_FinalizedHash r)"
    using assms(1,2) by (auto simp: engine_inv_def)
  note db' = write_signed_db [OF assms(2), of n h]
  have "sent_recorded ?db (d_sent d)"
    using ok(2) assms(3) by (auto simp: sent_recorded_def Read_WriteSignedCheckpoint intro: signed_store_ok_Write)
  moreover have "d_sent (write_signed n h d) = d_sent d" "d_finality (write_signed n h d) = d_finality d"
    by (simp_all add: write_signed_def)
  ultimately show "engine_inv kh verify (write_signed n h d)"
    using ok staged tables_ok(1,2) [of ?db db] by (intro engine_invI [OF db']) simp_all
  have "runtimeFinalizedBlock (write_signed n h d) = runtimeFinalizedBlock d"
    by (rule finalized_cong [OF assms(2) db']) simp_all
  then show "advances d (write_signed n h d)" by (simp add: advances_def)
qed

lemma maybeProduceCheckpointVote_inv:
  assumes inv: "engine_inv kh verify d"
  shows "engine_inv kh verify (maybeProduceCheckpointVote kh verify curves d chain header snap v signFn) \<and>
    advances d (maybeProduceCheckpointVote kh verify curves d chain header snap v signFn)"
proof (cases rule: maybeProduceCheckpointVote_cases [of d kh verify curves chain header snap v signFn])
  case silent
  then show ?thesis using quiet_inv inv by blast
next
  case (signs d1 db env)
  let ?n = "vote_Number (env_Vote env)" and ?h = "vote_Hash (env_Vote env)"
  let ?w = "write_signed ?n ?h d1"
  obtain db1 where db1: "d_db d1 = Some db1" "db_kv db1 = db_kv db"
    using same_tables_Some [of db "d_db d1"] signs(1,2) by (metis quiet_def)
  have inv1: "engine_inv kh verify d1" "advances d d1" using quiet_inv [OF signs(1) inv] by simp_all
  have w: "engine_inv kh verify ?w" "advances d1 ?w"
    using write_signed_inv [OF inv1(1) db1(1)] signs(3) db1(2) by auto
  have "recorded ?w env"
    unfolding recorded_def write_signed_db [OF db1(1)] by (simp add: Read_WriteSignedCheckpoint)
  then have r: "recorded (add_vote ''local'' env ?w) env" using quiet_recorded [OF quiet_add_vote] by blast
  have a: "engine_inv kh verify (add_vote ''local'' env ?w)" "advances ?w (add_vote ''local'' env ?w)"
    using quiet_inv [OF quiet_add_vote w(1)] by simp_all
  show ?thesis
    unfolding signs(4) using broadcast_inv [OF a(1) r] inv1(2) w(2) a(2) advances_trans by blast
qed

lemma regossip_inv:
  assumes inv: "engine_inv kh verify d" and rec: "d_db d = Some db" "ReadSignedCheckpoint (db_kv db) n = Some h"
  shows "engine_inv kh verify (regossip kh verify curves chain v signFn (n, h) d) \<and>
    advances d (regossip kh verify curves chain v signFn (n, h) d) \<and>
    (\<exists>db'. d_db (regossip kh verify curves chain v signFn (n, h) d) = Some db' \<and> db_kv db' = db_kv db)"
proof -
  have kv: "\<exists>db'. d_db d' = Some db' \<and> db_kv db' = db_kv db" if "quiet d d'" for d'
    using that same_tables_Some [of db "d_db d'"] rec(1) by (metis quiet_def)
  show ?thesis
  proof (cases rule: regossip_cases [of d kh verify curves chain v signFn n h])
    case silent
    then show ?thesis using quiet_inv [OF silent inv] kv by blast
  next
    case (sends d1 env)
    let ?a = "add_vote ''restart-gossip'' env d1"
    have q: "quiet d ?a" using quiet_trans [OF sends(1) quiet_add_vote] .
    have "recorded d env" using rec sends(2,3) by (simp add: recorded_def)
    then have r: "recorded ?a env" using quiet_recorded [OF q] by simp
    have a: "engine_inv kh verify ?a" "advances d ?a" using quiet_inv [OF q inv] by simp_all
    show ?thesis
      unfolding sends(4) broadcast_simps(1)
      using broadcast_inv(1) [OF a(1) r] advances_trans [OF a(2) broadcast_inv(2) [OF a(1) r]] kv [OF q] by blast
  qed
qed

lemma regossip_all_inv:
  assumes "engine_inv kh verify d" and "d_db d = Some db"
    and "\<And>n h. (n, h) \<in> set xs \<Longrightarrow> ReadSignedCheckpoint (db_kv db) n = Some h"
  shows "engine_inv kh verify (fold (regossip kh verify curves chain v signFn) xs d) \<and>
    advances d (fold (regossip kh verify curves chain v signFn) xs d)"
  using assms
proof (induction xs arbitrary: d db)
  case Nil
  then show ?case by (simp add: advances_def)
next
  case (Cons x xs)
  obtain n h where x: "x = (n, h)" by (cases x)
  have "ReadSignedCheckpoint (db_kv db) n = Some h" using Cons.prems(3) x by simp
  note r = regossip_inv [OF Cons.prems(1,2) this, of curves chain v signFn]
  then obtain db' where "d_db (regossip kh verify curves chain v signFn x d) = Some db'" "db_kv db' = db_kv db" using x by auto
  then have "engine_inv kh verify (fold (regossip kh verify curves chain v signFn) xs (regossip kh verify curves chain v signFn x d)) \<and>
      advances (regossip kh verify curves chain v signFn x d)
        (fold (regossip kh verify curves chain v signFn) xs (regossip kh verify curves chain v signFn x d))"
    using r x Cons.prems(3) by (intro Cons.IH) auto
  then show ?case using advances_trans [of d] r x by auto
qed

lemma RestartGossip_inv:
  assumes "engine_inv kh verify d"
  shows "engine_inv kh verify (RestartGossip kh verify curves d chain n) \<and> advances d (RestartGossip kh verify curves d chain n)"
proof -
  obtain db where db: "d_db d = Some db" "signed_store_ok (db_kv db)" using assms by (auto simp: engine_inv_def sent_recorded_def)
  have "advances d d" by (simp add: advances_def)
  moreover have "engine_inv kh verify (fold f (ListUnsettledSignedCheckpoints (db_kv db) n) d) \<and>
      advances d (fold f (ListUnsettledSignedCheckpoints (db_kv db) n) d)"
    if "f = regossip kh verify curves chain v signFn" for f v signFn
    unfolding that by (rule regossip_all_inv [OF assms db(1)]) (simp add: set_ListUnsettled [OF db(2)])
  ultimately show ?thesis using assms db(1) by (simp add: RestartGossip_def split: option.split)
qed

section \<open>Steps and runs\<close>

text \<open>The chain adds headers and states; it leaves what the engine wrote alone.\<close>

definition grows :: "chaindb \<Rightarrow> chaindb \<Rightarrow> bool" where
  "grows db db' \<longleftrightarrow> (\<forall>h n x. db_header db h n = Some x \<longrightarrow> db_header db' h n = Some x) \<and>
     db_finalized db' = db_finalized db \<and> db_kv db' = db_kv db"

inductive engine_step :: "keccak \<Rightarrow> verifier \<Rightarrow> curves \<Rightarrow> DPoS \<Rightarrow> DPoS \<Rightarrow> bool" for kh verify curves where
  vote: "engine_step kh verify curves d (fst (HandleIncomingVote kh verify curves d env))"
| header: "engine_step kh verify curves d (fst (verifyHeader kh verify now d chain h parents))"
| state: "engine_step kh verify curves d (fst (VerifyFinalizedState kh verify curves d h))"
| canonical: "engine_step kh verify curves d (OnCanonicalBlock kh d block)"
| assemble: "engine_step kh verify curves d (fst (assembleCheckpointQC kh verify curves d chain h snap))"
| produce: "engine_step kh verify curves d (maybeProduceCheckpointVote kh verify curves d chain h snap v signFn)"
| gossip: "engine_step kh verify curves d (RestartGossip kh verify curves d chain n)"
| difficulty: "engine_step kh verify curves d (fst (CalcDifficulty kh verify d chain time parent))"
| query: "engine_step kh verify curves d (fst (FinalizedValidatorSetHash d))"
| authorize: "engine_step kh verify curves d (Authorize d a f)"
| callbacks: "engine_step kh verify curves d (SetVoteCallbacks d chain bf sf chainID)"
| evict: "engine_step kh verify curves d (d\<lparr>d_recents := d_recents d |` A, d_finality := d_finality d |` B\<rparr>)"
| restart: "New (Some cfg) (d_db d) = Inr d' \<Longrightarrow> engine_step kh verify curves d (d'\<lparr>d_sent := d_sent d\<rparr>)"
| import: "d_db d = Some db \<Longrightarrow> grows db db' \<Longrightarrow> headers_ok kh db' \<Longrightarrow> engine_step kh verify curves d (d\<lparr>d_db := Some db'\<rparr>)"


lemma New_fields:
  assumes "New (Some cfg) db = Inr d"
  shows "d_db d = db" "d_sent d = []" "d_finality d = Map.empty" "d_recents d = Map.empty"
  using assms by (auto simp: New_def split: if_splits sum.splits)

lemma restart_inv:
  assumes "engine_inv kh verify d" and "New (Some cfg) (d_db d) = Inr d'"
  shows "engine_inv kh verify (d'\<lparr>d_sent := d_sent d\<rparr>) \<and> advances d (d'\<lparr>d_sent := d_sent d\<rparr>)"
proof -
  have fin: "runtimeFinalizedBlock (d'\<lparr>d_sent := d_sent d\<rparr>) = runtimeFinalizedBlock d"
    using New_fields(1) [OF assms(2)] by (simp add: runtimeFinalizedBlock_def)
  show ?thesis using assms(1) New_fields [OF assms(2)] fin by (simp add: engine_inv_def advances_def)
qed

lemma import_inv:
  assumes "engine_inv kh verify d" and "d_db d = Some db" and "grows db db'" and "headers_ok kh db'"
  shows "engine_inv kh verify (d\<lparr>d_db := Some db'\<rparr>) \<and> advances d (d\<lparr>d_db := Some db'\<rparr>)"
proof -
  let ?d' = "d\<lparr>d_db := Some db'\<rparr>"
  have ok: "headers_ok kh db" "sent_recorded db (d_sent d)" "finalized_ok kh verify db"
    and staged: "\<And>c r. d_finality d c = Some r \<Longrightarrow> certified_at verify kh (fr_FinalizedNumber r) (fr_FinalizedHash r)"
    using assms(1,2) by (auto simp: engine_inv_def)
  have "runtimeFinalizedBlock ?d' = Some b" if "runtimeFinalizedBlock d = Some b" for b
    using that assms(3) unfolding finalized_block [OF assms(2) ok(1)] finalized_block [of ?d' db', OF _ assms(4), simplified]
    by (auto simp: grows_def)
  then have "advances d ?d'" by (simp add: advances_def)
  moreover have "sent_recorded db' (d_sent ?d')" "finalized_ok kh verify db'"
    using ok(2,3) assms(3) unfolding sent_recorded_def grows_def finalized_ok_def by (simp, metis)
  then have "engine_inv kh verify ?d'" using assms(4) staged by (intro engine_invI [of _ db']) simp_all
  ultimately show ?thesis by simp
qed

lemma engine_step_inv:
  assumes "engine_step kh verify curves d d'" and "engine_inv kh verify d"
  shows "engine_inv kh verify d' \<and> advances d d'"
  using assms
proof (induction rule: engine_step.induct)
  case (state d h)
  then show ?case using stages_inv [OF VerifyFinalizedState_stages] by blast
next
  case (canonical d block)
  then show ?case using OnCanonicalBlock_inv by blast
next
  case (authorize d a f)
  have "quiet d (Authorize d a f)" by (simp add: quiet_def shape_def Authorize_def same_tables_refl)
  then show ?case using authorize quiet_inv by blast
next
  case (callbacks d chain bf sf chainID)
  have "quiet d (SetVoteCallbacks d chain bf sf chainID)" by (simp add: quiet_def shape_def SetVoteCallbacks_def Let_def same_tables_refl)
  then show ?case using callbacks quiet_inv by blast
next
  case (evict d B A)
  have "stages verify kh d (d\<lparr>d_recents := d_recents d |` A, d_finality := d_finality d |` B\<rparr>)"
    by (auto simp: stages_def shape_def same_tables_refl restrict_map_def split: if_splits)
  then show ?case using evict stages_inv by blast
next
  case (vote d env)
  then show ?case by (rule quiet_inv [OF HandleIncomingVote_quiet])
next
  case (header d now chain h parents)
  then show ?case by (rule quiet_inv [OF verifyHeader_quiet])
next
  case (assemble d chain h snap)
  then show ?case by (rule quiet_inv [OF assembleCheckpointQC_quiet])
next
  case (difficulty d chain time parent)
  then show ?case by (rule quiet_inv [OF CalcDifficulty_quiet])
next
  case (query d)
  then show ?case by (rule quiet_inv [OF FinalizedValidatorSetHash_quiet])
next
  case (restart cfg d d')
  then show ?case by (intro restart_inv)
qed (rule maybeProduceCheckpointVote_inv RestartGossip_inv import_inv; assumption)+

text \<open>A node starts on a database in which nothing is finalised yet.\<close>

inductive engine_run :: "keccak \<Rightarrow> verifier \<Rightarrow> curves \<Rightarrow> DPoS \<Rightarrow> bool" for kh verify curves where
  start: "New (Some cfg) (Some db) = Inr d \<Longrightarrow> headers_ok kh db \<Longrightarrow> db_finalized db = 0 \<Longrightarrow> signed_store_ok (db_kv db) \<Longrightarrow>
    engine_run kh verify curves d"
| step: "engine_run kh verify curves d \<Longrightarrow> engine_step kh verify curves d d' \<Longrightarrow> engine_run kh verify curves d'"

lemma engine_run_inv: "engine_run kh verify curves d \<Longrightarrow> engine_inv kh verify d"
proof (induction rule: engine_run.induct)
  case (start cfg db d)
  then show ?case
    using New_fields [OF start(1)] by (intro engine_invI [of _ db]) (simp_all add: sent_recorded_def finalized_ok_def)
qed (use engine_step_inv in blast)


section \<open>Theorems about every run\<close>

lemma finalized_ok_block:
  assumes "d_db d = Some db" and "headers_ok kh db" and "finalized_ok kh verify db" and "runtimeFinalizedBlock d = Some b"
  shows "certified_at verify kh (header_number b) (header_Hash kh b)"
proof -
  obtain n where n: "db_header db (db_finalized db) n = Some b"
    using assms(4) unfolding finalized_block [OF assms(1,2)] by blast
  then have b: "header_Hash kh b = db_finalized db" "header_number b = n" "db_finalized db \<noteq> 0" "db_number db (db_finalized db) = Some n"
    using assms(2) by (auto simp: headers_ok_def)
  then obtain m c where "db_header db (db_finalized db) m = Some c" "certified_at verify kh m (db_finalized db)"
    using assms(3) by (auto simp: finalized_ok_def)
  moreover from this(1) have "db_number db (db_finalized db) = Some m" using assms(2) by (auto simp: headers_ok_def)
  ultimately show ?thesis using b by simp
qed



text \<open>
  C3. A node never signs two blocks at one height. Two votes that it has sent in a run, across restarts and
  reorganisations, never name different blocks at the same height, so no evidence of a double vote
  can be built from them.
\<close>

theorem no_double_vote:
  assumes "engine_run kh verify curves d" and "e1 \<in> set (d_sent d)" and "e2 \<in> set (d_sent d)"
  shows "(vote_Number (env_Vote e1) = vote_Number (env_Vote e2) \<longrightarrow> vote_Hash (env_Vote e1) = vote_Hash (env_Vote e2)) \<and>
    (\<forall>t pub e. NewMaliciousVoteEvidence kh (Some e1) (Some e2) t pub \<noteq> Inr e)"
  using engine_run_inv [OF assms(1)]
proof (rule engine_invE)
  fix db
  assume "sent_recorded db (d_sent d)"
  then have "vote_Number (env_Vote e1) = vote_Number (env_Vote e2) \<longrightarrow> vote_Hash (env_Vote e1) = vote_Hash (env_Vote e2)"
    using assms(2,3) unfolding sent_recorded_def by (metis option.inject)
  then show ?thesis by (auto simp: NewMaliciousVoteEvidence_iff)
qed

section \<open>The type of a running engine\<close>

definition config_ok :: "DPoSConfig \<Rightarrow> bool" where
  "config_ok c \<longleftrightarrow> Epoch c \<noteq> 0 \<and> TargetBlockPeriodMs (Some c) \<noteq> 0 \<and> MaxValidators c \<noteq> 0 \<and>
     TurnLength c \<noteq> 0 \<and> Epoch c mod TurnLength c = 0 \<and> MaintenanceMaxBlocks c \<noteq> 0 \<and> SealSignerType c = ''ed25519'' \<and>
     (CheckpointFinalityBlock c \<noteq> None \<longrightarrow> CheckpointInterval c \<noteq> 0 \<and> MaxValidators c \<le> 64)"

definition shape_ok :: "DPoSConfig \<times> nat \<times> bool \<Rightarrow> bool" where
  "shape_ok = (\<lambda>(c, n, fake). config_ok c \<and> n = 96 \<and> \<not> fake)"

lemma New_shape:
  assumes "New (Some cfg) db = Inr d"
  shows "shape_ok (shape d)"
proof -
  obtain c1 t c2 where c: "Epoch cfg \<noteq> 0" "TargetBlockPeriodMs (Some cfg) \<noteq> 0" "MaxValidators cfg \<noteq> 0"
    "ValidateTurnLengthConfig cfg = Inr ()" "ValidateMaintenanceConfig cfg = Inr c1"
    "NormalizeDPoSSealSignerType (SealSignerType c1) = Inr t" "ValidateCheckpointConfig (c1\<lparr>SealSignerType := t\<rparr>) = Inr c2"
    "shape d = (c2, sealLengthForSignerType (SealSignerType c2), False)"
    using assms by (auto simp: New_def shape_def split: if_splits sum.splits)
  have t: "t = ''ed25519''" using c(6) by (auto simp: NormalizeDPoSSealSignerType_def DPoSSealSignerTypeEd25519_def Let_def split: if_splits)
  have c1: "\<exists>m. m \<noteq> 0 \<and> c1 = cfg\<lparr>MaintenanceMaxBlocks := m\<rparr>"
    using c(5) by (intro exI [of _ "MaintenanceMaxBlocks c1"]) (auto simp: ValidateMaintenanceConfig_def Let_def split: if_splits)
  have c2: "c2 = c1\<lparr>SealSignerType := t\<rparr> \<or> c2 = c1\<lparr>SealSignerType := t, CheckpointInterval := 200\<rparr>"
    "CheckpointFinalityBlock c2 \<noteq> None \<longrightarrow> CheckpointInterval c2 \<noteq> 0 \<and> MaxValidators c2 \<le> 64"
    using c(7) by (auto simp: ValidateCheckpointConfig_def not_less split: if_splits)
  have turn: "TurnLength cfg \<noteq> 0" "Epoch cfg mod TurnLength cfg = 0"
    using c(4) by (auto simp: ValidateTurnLengthConfig_def split: if_splits)
  obtain m where m: "m \<noteq> 0" "c1 = cfg\<lparr>MaintenanceMaxBlocks := m\<rparr>" using c1 by blast
  have "Epoch c2 = Epoch cfg" "TurnLength c2 = TurnLength cfg" "PeriodMs c2 = PeriodMs cfg" "MaxValidators c2 = MaxValidators cfg"
    "MaintenanceMaxBlocks c2 = m" "SealSignerType c2 = ''ed25519''"
    using c2(1) m t by auto
  then have "config_ok c2" "SealSignerType c2 = ''ed25519''"
    using c(1-3) c2(2) m(1) unfolding config_ok_def TargetBlockPeriodMs_def by (simp_all add: turn)
  then show ?thesis by (simp add: c(8) shape_ok_def sealLengthForSignerType_def extraSealEd25519_def)
qed

lemma quiet_shape: "quiet d d' \<Longrightarrow> shape d' = shape d"
  by (simp add: quiet_def)

lemma produce_shape: "shape (maybeProduceCheckpointVote kh verify curves d chain header snap v signFn) = shape d"
proof (cases rule: maybeProduceCheckpointVote_cases [of d kh verify curves chain header snap v signFn])
  case (signs d1 db env)
  have "shape (write_signed n h d1) = shape d1" for n h by (simp add: shape_def write_signed_def)
  then show ?thesis using quiet_shape [OF signs(1)] quiet_shape [OF quiet_add_vote] signs(4) by simp
qed (rule quiet_shape)

lemma regossip_shape: "shape (regossip kh verify curves chain v signFn (n, h) d) = shape d"
proof (cases rule: regossip_cases [of d kh verify curves chain v signFn n h])
  case (sends d1 env)
  then show ?thesis using quiet_shape [OF sends(1)] quiet_shape [OF quiet_add_vote] by simp
qed (rule quiet_shape)

lemma gossip_shape: "shape (RestartGossip kh verify curves d chain n) = shape d"
proof -
  have "shape (fold (regossip kh verify curves chain v signFn) xs d) = shape d" for v signFn xs
    by (induction xs arbitrary: d) (auto simp: regossip_shape)
  then show ?thesis by (simp add: RestartGossip_def split: option.split)
qed

lemma engine_step_shape: "engine_step kh verify curves d d' \<Longrightarrow> shape_ok (shape d) \<Longrightarrow> shape_ok (shape d')"
proof (induction rule: engine_step.induct)
  case (vote d env)
  then show ?case by (simp add: quiet_shape [OF HandleIncomingVote_quiet])
next
  case (header d now chain h parents)
  then show ?case by (simp add: quiet_shape [OF verifyHeader_quiet])
next
  case (state d h)
  then show ?case using VerifyFinalizedState_stages [of verify kh d curves h] by (simp add: stages_def)
next
  case (assemble d chain h snap)
  then show ?case by (simp add: quiet_shape [OF assembleCheckpointQC_quiet])
next
  case (difficulty d chain time parent)
  then show ?case by (simp add: quiet_shape [OF CalcDifficulty_quiet])
next
  case (query d)
  then show ?case by (simp add: quiet_shape [OF FinalizedValidatorSetHash_quiet])
next
  case (restart cfg d d')
  then show ?case using New_shape [OF restart(1)] by (simp add: shape_def)
next
  case (authorize d a f)
  then show ?case by (simp add: shape_def Authorize_def)
next
  case (callbacks d chain bf sf chainID)
  then show ?case by (simp add: shape_def SetVoteCallbacks_def Let_def)
next
  case (evict d B A)
  then show ?case by (simp add: shape_def)
next
  case (import d db db')
  then show ?case by (simp add: shape_def)
qed (simp_all add: OnCanonicalBlock_rest(3) produce_shape gossip_shape)

text \<open>
  C11. A running engine is well typed. However it was configured, and whatever it has done since, its configuration is one that the
  rest of the code can use: no divisor is zero, epochs are whole turns, seals are ed25519 seals of 96 bytes, and with
  checkpoint finality every validator has a bit in the 64-bit bitmap of a certificate.
\<close>

theorem engine_well_typed:
  assumes "engine_run kh verify curves d"
  shows "config_ok (d_config d) \<and> d_sealLength d = 96 \<and> \<not> fakeDiff d"
proof -
  have "shape_ok (shape d)"
    using assms by (induction rule: engine_run.induct) (auto dest: New_shape engine_step_shape)
  then show ?thesis by (simp add: shape_ok_def shape_def)
qed

section \<open>A run on the example chain\<close>

lemma sc_headers_ok: "headers_ok sum_hash (sc_db 0)"
  by (auto simp: headers_ok_def sc_db_def sc_get_def sc_tree_def sc_h0_def sc_h1_def split: if_splits option.splits)

lemma sc_start: "engine_run sum_hash sc_verify sc_curves (sc_engine 0)"
  by (rule engine_run.start [OF sc_new sc_headers_ok]) (simp_all add: sc_db_def signed_store_ok_def)

definition sc_staged :: DPoS where
  "sc_staged = SetVoteCallbacks (fst (VerifyFinalizedState sum_hash sc_verify sc_curves (sc_engine 0) (sc_block2 0)))
     (sc_chain 0) True True (Some 1)"

definition sc_final :: DPoS where
  "sc_final = OnCanonicalBlock sum_hash sc_staged (Some (sc_block2 0))"

lemma sc_steps: "engine_run sum_hash sc_verify sc_curves sc_staged" "engine_run sum_hash sc_verify sc_curves sc_final"
proof -
  show "engine_run sum_hash sc_verify sc_curves sc_staged"
    unfolding sc_staged_def
    by (rule engine_run.step [OF engine_run.step [OF sc_start engine_step.state] engine_step.callbacks])
  then show "engine_run sum_hash sc_verify sc_curves sc_final"
    unfolding sc_final_def by (rule engine_run.step [OF _ engine_step.canonical])
qed

lemma sc_finalized: "runtimeFinalizedBlock sc_final = Some (sc_block1 0)"
proof -
  let ?f = "stageFinalityResult (sc_found (sc_found (sc_engine 0) (sc_snapshot1 0)) sc_snapshot0)
    (header_Hash sum_hash (sc_block2 0)) 1 (sc_h1 0) sc_vsHash"
  obtain snaps where db: "d_db ?f = Some ((sc_db 0)\<lparr>db_snapshots := snaps\<rparr>)"
    by (simp add: stageFinalityResult_def sc_found_def store_snap_def snapshot_store_def)
  have "VerifyFinalizedState sum_hash sc_verify sc_curves (sc_engine 0) (sc_block2 0) = (?f, None)" by (rule sc_stages) simp
  then have staged: "sc_staged = ?f\<lparr>d_chain := Some (sc_chain 0), d_broadcastVoteFn := True, d_setFinalizedFn := True, d_chainID := Some 1\<rparr>"
    by (simp add: sc_staged_def SetVoteCallbacks_def)
  have none: "runtimeFinalizedBlock (sc_staged\<lparr>d_finality := x\<rparr>) = None" for x
    using db by (simp add: runtimeFinalizedBlock_def staged sc_db_def)
  have res: "d_finality sc_staged (header_Hash sum_hash (sc_block2 0)) = Some \<lparr>fr_CarrierHash = header_Hash sum_hash (sc_block2 0),
      fr_FinalizedNumber = 1, fr_FinalizedHash = sc_h1 0, fr_ValidatorSetHash = sc_vsHash\<rparr>"
    "d_db sc_staged = Some ((sc_db 0)\<lparr>db_snapshots := snaps\<rparr>)" "d_setFinalizedFn sc_staged"
    using db by (simp_all add: staged) (simp_all add: stageFinalityResult_def)
  show ?thesis
    unfolding sc_final_def OnCanonicalBlock_def option.case res(1) Let_def none
    using res(2,3) by (simp add: sc_db_def set_vs_hash_def set_finalized_def runtimeFinalizedBlock_def)
qed



text \<open>The validator signs block one and sends its vote.\<close>

definition sc_voter :: DPoS where
  "sc_voter = SetVoteCallbacks (sc_engine 0) (sc_chain 0) True False (Some 1)"

definition sc_voted :: DPoS where
  "sc_voted = maybeProduceCheckpointVote sum_hash sc_verify sc_curves sc_voter (sc_chain 0) (sc_block2 0) sc_snapshot0
     sc_validator (\<lambda>_ _. Some (replicate 64 9))"

lemma sc_voted_run: "engine_run sum_hash sc_verify sc_curves sc_voted"
  unfolding sc_voted_def sc_voter_def
  by (rule engine_run.step [OF engine_run.step [OF sc_start engine_step.callbacks] engine_step.produce])

lemma sc_voted_sent: "\<exists>env. d_sent sc_voted = [env] \<and> vote_Number (env_Vote env) = 1 \<and> vote_Hash (env_Vote env) = sc_h1 0"
proof -
  have ready: "sc_ready 0 sc_voter" using sc_engine_ready(1) [of 0] by (simp add: sc_ready_def sc_voter_def SetVoteCallbacks_def)
  note snap = sc_snapshot_at_genesis [OF ready sc_engine_ready(2)] and build = sc_build [OF ready, of sc_snapshot0]
  have cfg: "d_config sc_voter = sc_config" using ready by (simp add: sc_ready_def)
  have db: "d_db sc_voter = Some (sc_db 0)" by (simp add: sc_voter_def SetVoteCallbacks_def)
  have kv: "ReadSignedCheckpoint (db_kv (sc_db 0)) 1 = None" by (simp add: sc_db_def ReadSignedCheckpoint_def)
  have pub: "signer_pub sc_signers sc_validator = Some sc_pub" "sc_pub \<noteq> []" by (simp_all add: signer_pub_def sc_signers_def sc_pub_def)
  have el: "first_eligible sc_config = 1" by (simp add: first_eligible_def firstCheckpointAtOrAfter_def big_Uint64_def)
  have le: "\<not> (2 :: u64) \<le> 1" by (simp add: word_le_nat_alt)
  have sent: "d_sent (add_vote src env (write_signed n h (sc_found sc_voter s))) = []"
    "d_broadcastVoteFn (add_vote src env (write_signed n h (sc_found sc_voter s)))" for src env n h s
    by (simp_all add: add_vote_def set_pool_def emitVoteMonitorEvent_def write_signed_def sc_found_def store_snap_def sc_voter_def
        SetVoteCallbacks_def sc_engine_def Let_def split: prod.split option.split)
  show ?thesis
    unfolding sc_voted_def maybeProduceCheckpointVote_def Let_def cfg
    by (simp add: el le snap build db kv pub broadcast_def sent) (simp add: checkpoint_vote_def)
qed

theorem no_double_vote_witness:
  "\<exists>env. d_sent sc_voted = [env] \<and> (\<forall>e. NewMaliciousVoteEvidence sum_hash (Some env) (Some env) ''ed25519'' sc_pub \<noteq> Inr e)"
proof -
  obtain env where env: "d_sent sc_voted = [env]" using sc_voted_sent by blast
  then show ?thesis using no_double_vote [OF sc_voted_run, of env env] by simp
qed


theorem engine_well_typed_witness: "config_ok (d_config sc_voted) \<and> d_sealLength sc_voted = 96 \<and> \<not> fakeDiff sc_voted"
  by (rule engine_well_typed [OF sc_voted_run])

end
