(* ===== verification/Headers.thy ===== *)
theory Headers
  imports Steps
begin

text \<open>
  Header verification of the engine (verifyHeader, verifyCascadingFields, verifySeal, VerifyHeaders): what an accepted header is,
  that an accepted header can be replayed, that an accepted batch is a chain, the gas limit rule, and the loops that follow parent links.
\<close>

section \<open>The gas limit\<close>

lemma sint_small:
  assumes "uint a < 2 ^ 63"
  shows "sint (a :: u64) = uint a"
proof -
  have "- (2 ^ 63) \<le> uint a" by (rule order_trans [OF _ uint_nonnegative]) simp
  then have "signed_take_bit 63 (uint a) = uint a" using assms by (intro signed_take_bit_int_eq_self)
  then show ?thesis by (simp add: sint_uint)
qed

lemma sint_sub_small:
  fixes a b :: u64
  assumes "uint a < 2 ^ 63" and "uint b < 2 ^ 63"
  shows "sint (a - b) = uint a - uint b"
proof -
  have "- m \<le> x - y" "x - y < m" if "x < m" "y < m" "0 \<le> x" "0 \<le> y" for x y m :: int using that by linarith+
  then have "- (2 ^ 63) \<le> uint a - uint b" "uint a - uint b < 2 ^ 63" using assms uint_nonnegative by blast+
  then have "signed_take_bit 63 (uint a - uint b) = uint a - uint b" by (rule signed_take_bit_int_eq_self)
  then show ?thesis by (simp add: sint_word_diff sint_small [OF assms(1)] sint_small [OF assms(2)])
qed

lemma uint_sub_small:
  fixes a b :: u64
  assumes "uint b \<le> uint a"
  shows "uint (a - b) = uint a - uint b"
  using assms by (simp add: uint_sub_lem [symmetric] word_le_def)

lemma abs_diff:
  fixes a b :: u64
  assumes "uint a < 2 ^ 63" and "uint b < 2 ^ 63"
  shows "uint (if sint (a - b) < 0 then (a - b) * (-1) else a - b) = \<bar>uint a - uint b\<bar>"
proof (cases "uint a < uint b")
  case True
  then show ?thesis using assms uint_sub_small [of a b] by (simp add: sint_sub_small)
next
  case False
  then show ?thesis using assms uint_sub_small [of b a] by (simp add: sint_sub_small)
qed

text \<open>
  C40. The gas limit rule. For limits below 2 to the power 63, which is what the engine admits, the signed 64-bit subtraction of the code does
  not overflow: a gas limit is accepted exactly when it differs from the parent's by less than a 1024th of it and is at least 5000.
\<close>

theorem VerifyGaslimit_iff:
  assumes "parent \<le> MaxGasLimit" and "limit \<le> MaxGasLimit"
  shows "VerifyGaslimit parent limit = None \<longleftrightarrow>
    \<bar>uint parent - uint limit\<bar> < uint parent div 1024 \<and> 5000 \<le> uint limit"
proof -
  have "uint MaxGasLimit = 2 ^ 63 - 1" by (simp add: MaxGasLimit_def)
  then have small: "uint parent < 2 ^ 63" "uint limit < 2 ^ 63" using assms by (simp_all add: word_le_def)
  have "uint (parent div GasLimitBoundDivisor) = uint parent div 1024" "uint MinGasLimit = 5000"
    by (simp_all add: uint_div GasLimitBoundDivisor_def MinGasLimit_def)
  then show ?thesis
    unfolding VerifyGaslimit_def Let_def by (auto simp: word_le_def word_less_def abs_diff [OF small])
qed

theorem VerifyGaslimit_iff_witness: "VerifyGaslimit 10000000 10009764 = None \<and> VerifyGaslimit 10000000 10009765 \<noteq> None"
proof -
  have m: "(10000000 :: u64) \<le> MaxGasLimit" "(10009764 :: u64) \<le> MaxGasLimit" "(10009765 :: u64) \<le> MaxGasLimit" by code_simp+
  show ?thesis using VerifyGaslimit_iff [OF m(1,2)] VerifyGaslimit_iff [OF m(1,3)] by simp
qed

section \<open>An accepted header\<close>

lemma recentlySignedAt_prune: "recentlySignedAt (prune_recents slot s) slot v = recentlySignedAt s slot v"
proof -
  let ?w = "recentSignerWindowSize s"
  have w: "recentSignerWindowSize (prune_recents slot s) = ?w" "Validators (prune_recents slot s) = Validators s"
    "snap_config (prune_recents slot s) = snap_config s"
    by (simp_all add: prune_recents_eq recentSignerWindowSize_def split: option.split)
  have f: "filter (\<lambda>(x, a). \<not> x \<le> (if slot > ?w then slot - ?w else 0) \<and> a = v) (Recents (prune_recents slot s)) =
      filter (\<lambda>(x, a). \<not> x \<le> (if slot > ?w then slot - ?w else 0) \<and> a = v) (Recents s)"
    by (auto simp: prune_recents_eq pruned_def not_less intro!: filter_cong)
  show ?thesis unfolding recentlySignedAt_def w Let_def f ..
qed

lemma verifySeal_None:
  assumes "verifySeal kh verify d snap h = None"
  obtains slot where "header_number h \<noteq> 0" "recoverHeaderSigner kh verify (Some (d_config d)) h = Inr (Coinbase h)"
    "Coinbase h \<in> ValidatorsMap snap" "headerSlot (Time h) (GenesisTime snap) (snap_PeriodMs snap) = Some slot"
    "\<not> recentlySignedAt snap slot (Coinbase h)"
    "\<not> fakeDiff d \<Longrightarrow> Difficulty h = Some (if inturnSlot snap slot (Coinbase h) then diffInTurn else diffNoTurn)"
  using assms by (auto simp: verifySeal_def split: if_splits sum.splits option.splits)


lemma verifyCascadingFields_None:
  assumes "verifyCascadingFields kh verify d chain h parents = (d', None)"
  obtains p d1 snap pslot slot where "parent_header chain h parents = Some p" "header_number p = header_number h - 1"
    "header_Hash kh p = ParentHash h" "GasUsed h \<le> GasLimit h" "Time p + TargetBlockPeriodMs (Some (d_config d)) \<le> Time h"
    "snapshot kh verify d chain (header_number h - 1) (ParentHash h) parents = (d1, Inr snap)"
    "headerSlot (Time p) (GenesisTime snap) (snap_PeriodMs snap) = Some pslot"
    "headerSlot (Time h) (GenesisTime snap) (snap_PeriodMs snap) = Some slot" "pslot < slot"
    "verifySeal kh verify d' snap h = None" "d_config d' = d_config d" "fakeDiff d' = fakeDiff d"
proof -
  note r = assms [unfolded verifyCascadingFields_def Let_def]
  from r obtain p where p: "parent_header chain h parents = Some p" by (auto split: option.splits)
  note r1 = r [unfolded p option.case]
  from r1 have ok: "header_number p = header_number h - 1" "header_Hash kh p = ParentHash h" "GasUsed h \<le> GasLimit h"
    "Time p + TargetBlockPeriodMs (Some (d_config d)) \<le> Time h"
    by (auto split: if_splits option.splits)
  obtain d1 x where s: "snapshot kh verify d chain (header_number h - 1) (ParentHash h) parents = (d1, x)"
    by (cases "snapshot kh verify d chain (header_number h - 1) (ParentHash h) parents")
  from r1 ok obtain snap where x: "x = Inr snap" by (cases x) (auto simp: s split: if_splits option.splits)
  note r2 = r1 [unfolded s x prod.case sum.case]
  let ?shape = "if header_number h mod Epoch (d_config d) = 0
    then epoch_shape_error (IsCheckpointFinality (Some (d_config d)) (Number h)) (extra_middle (d_sealLength d) (Extra h)) else None"
  from r2 have sh: "?shape = None" by (cases ?shape) (auto split: if_splits)
  have guards: "\<not> (header_number p \<noteq> header_number h - 1 \<or> header_Hash kh p \<noteq> ParentHash h)" "\<not> GasLimit h < GasUsed h"
    "\<not> Time h < Time p + TargetBlockPeriodMs (Some (d_config d))" using ok by auto
  note r3 = r2 [unfolded if_not_P [OF guards(1)] if_not_P [OF guards(2)] sh option.case if_not_P [OF guards(3)]]
  from r3 have gt: "\<not> (Time h < GenesisTime snap \<or> Time p < GenesisTime snap)" by (auto split: if_splits)
  have tail: "(case (headerSlot (Time p) (GenesisTime snap) (snap_PeriodMs snap),
                headerSlot (Time h) (GenesisTime snap) (snap_PeriodMs snap)) of
            (Some parentSlot, Some hdrSlot) \<Rightarrow>
              if hdrSlot \<le> parentSlot then (d1, Some errInvalidSlot)
              else
         (case (if header_number h mod Epoch (d_config d) = 0 then epoch_extra_error kh d1 h p snap else (d1, None)) of
            (d, Some e) \<Rightarrow> (d, Some e)
          | (d, None) \<Rightarrow>
         (case verifyCheckpointQCStructure d chain h of Some e \<Rightarrow> (d, Some e)
          | None \<Rightarrow> (d, verifySeal kh verify d snap h)))
          | _ \<Rightarrow> (d1, Some errInvalidTimestamp)) = (d', None)"
    unfolding prod.case using r3 [unfolded if_not_P [OF gt]] .
  from tail obtain pslot slot where slots: "headerSlot (Time p) (GenesisTime snap) (snap_PeriodMs snap) = Some pslot"
    "headerSlot (Time h) (GenesisTime snap) (snap_PeriodMs snap) = Some slot" "pslot < slot"
    by (auto simp: not_le split: option.splits if_splits)
  obtain d2 y where e: "(if header_number h mod Epoch (d_config d) = 0 then epoch_extra_error kh d1 h p snap else (d1, None)) = (d2, y)"
    by (cases "if header_number h mod Epoch (d_config d) = 0 then epoch_extra_error kh d1 h p snap else (d1, None)")
  have q: "quiet d1 d2" using e epoch_extra_quiet by (auto split: if_splits)
  have seal: "d2 = d'" "verifySeal kh verify d' snap h = None"
    using tail slots by (auto simp: e split: option.splits if_splits)
  have "shape d' = shape d" using quiet_trans [OF snapshot_quiet [OF s] q] seal(1) by (simp add: quiet_def)
  then have "d_config d' = d_config d" "fakeDiff d' = fakeDiff d" by (simp_all add: shape_def)
  then show thesis using that p ok s x slots seal by blast
qed

lemma verifyHeader_None:
  assumes "verifyHeader kh verify now d chain h parents = (d', None)" and "\<not> fakeDiff d" and "header_number h \<noteq> 0"
  shows "verifyCascadingFields kh verify d chain h parents = (d', None)" and "GasLimit h \<le> MaxGasLimit"
    and "Time h \<le> now + 2 * TargetBlockPeriodMs (Some (d_config d))"
    and "\<And>p. parent_header chain h parents = Some p \<Longrightarrow> VerifyGaslimit (GasLimit p) (GasLimit h) = None"
proof -
  have pos: "header_number h > 0" using assms(3) by (simp add: word_gt_0)
  note r = assms(1) [unfolded verifyHeader_def Let_def]
  show "verifyCascadingFields kh verify d chain h parents = (d', None)" "GasLimit h \<le> MaxGasLimit"
    "Time h \<le> now + 2 * TargetBlockPeriodMs (Some (d_config d))"
    "\<And>p. parent_header chain h parents = Some p \<Longrightarrow> VerifyGaslimit (GasLimit p) (GasLimit h) = None"
    using r assms(2) pos by (auto simp: not_less split: if_splits option.splits)
qed

text \<open>The replay accepts what the seal check accepts, except that an epoch header must also carry a list of validators.\<close>

lemma accepted_applies:
  assumes "verifySeal kh verify d snap h = None" and "snap_config snap = Some (d_config d)"
    and "Epoch (d_config d) \<noteq> 0" and "header_number h mod Epoch (d_config d) \<noteq> 0"
  shows "\<exists>s. apply_header kh verify snap h = Inr s"
  using assms(1)
proof (rule verifySeal_None)
  fix slot
  assume seal: "recoverHeaderSigner kh verify (Some (d_config d)) h = Inr (Coinbase h)" "Coinbase h \<in> ValidatorsMap snap"
    "headerSlot (Time h) (GenesisTime snap) (snap_PeriodMs snap) = Some slot" "\<not> recentlySignedAt snap slot (Coinbase h)"
  have "snap_config (prune_recents slot snap) = Some (d_config d)" "ValidatorsMap (prune_recents slot snap) = ValidatorsMap snap"
    "\<not> recentlySignedAt (prune_recents slot snap) slot (Coinbase h)"
    using assms(2) seal(4) by (simp_all add: recentlySignedAt_prune) (simp_all add: prune_recents_eq)
  then show ?thesis using seal assms(3,4) by (simp add: apply_header_def Let_def)
qed



section \<open>Loops along parent links\<close>

text \<open>A header that is found under a number has that number.\<close>

definition well_numbered :: "chain \<Rightarrow> bool" where
  "well_numbered chain \<longleftrightarrow> (\<forall>hash n h. ch_GetHeader chain hash n = Some h \<longrightarrow> header_number h = n)"

lemma unat_pred: "n \<noteq> 0 \<Longrightarrow> unat n = Suc (unat (n - 1))" for n :: u64
  using unat_gt_0 [of n] by (simp add: unat_minus_one)

lemma ancestor_at_unfold:
  assumes "well_numbered chain"
  shows "ancestor_at chain target (Some h) =
    (if header_number h > target then ancestor_at chain target (ch_GetHeader chain (ParentHash h) (header_number h - 1)) else Some h)"
proof (cases "header_number h > target")
  case True
  then have k: "unat (header_number h) = Suc (unat (header_number h - 1))" by (intro unat_pred) auto
  show ?thesis
    using True assms by (cases "ch_GetHeader chain (ParentHash h) (header_number h - 1)") (simp_all add: ancestor_at_def k well_numbered_def)
next
  case False
  then show ?thesis by (cases "unat (header_number h)") (simp_all add: ancestor_at_def)
qed


lemma sc_well_numbered: "well_numbered (sc_chain u)"
  by (auto simp: well_numbered_def sc_get_def split: option.splits if_splits)



section \<open>A header of the example chain\<close>

lemma sc_header_checks:
  "extra_shape_error (sc_engine 0) (sc_block1 0) = None"
  "VerifyGaslimit (GasLimit sc_genesis) (GasLimit (sc_block1 0)) = None"
  "parseCheckpointQCFromExtra (Extra (sc_block1 0)) False True = Inr None"
  "headerSlot 1360 1000 360 = Some 1" "headerSlot 1000 1000 360 = Some 0"
  "inturnSlot sc_snapshot0 1 sc_validator" "\<not> recentlySignedAt sc_snapshot0 1 sc_validator"
  by code_simp+

lemma sc_block1_simps [simp]:
  "GasLimit (sc_block1 u) = 5000" "GasUsed (sc_block1 u) = u" "Difficulty (sc_block1 u) = Some 2"
  "Coinbase (sc_block1 u) = sc_validator" "UncleHash (sc_block1 u) = EmptyUncleHash sum_hash" "MixDigest (sc_block1 u) = 0" "Nonce (sc_block1 u) = 0"
  by (simp_all add: sc_block1_def sc_header_def)

lemma sc_seal: "verifySeal sum_hash sc_verify (sc_found (sc_engine 0) sc_snapshot0) sc_snapshot0 (sc_block1 0) = None"
proof -
  have "ValidatorsMap sc_snapshot0 = {sc_validator}" "GenesisTime sc_snapshot0 = 1000" "snap_PeriodMs sc_snapshot0 = 360"
    "d_config (sc_found (sc_engine 0) sc_snapshot0) = sc_config" "diffInTurn = 2"
    by (simp_all add: sc_snapshot0_def sc_found_def diffInTurn_def)
  then show ?thesis by (simp add: verifySeal_def sc_header_checks)
qed

lemma sc_cascades: "snd (verifyCascadingFields sum_hash sc_verify (sc_engine 0) (sc_chain 0) (sc_block1 0) []) = None"
proof -
  have "parent_header (sc_chain 0) (sc_block1 0) [] = Some sc_genesis" by (simp add: parent_header_def)
  moreover have "GenesisTime sc_snapshot0 = 1000" "snap_PeriodMs sc_snapshot0 = 360" by (simp_all add: sc_snapshot0_def)
  moreover have "verifyCheckpointQCStructure (sc_found (sc_engine 0) sc_snapshot0) (sc_chain 0) (sc_block1 0) = None"
    by (simp add: verifyCheckpointQCStructure_def sc_header_checks sc_found_def IsCheckpointFinality_def)
  ultimately show ?thesis
    using sc_seal sc_snapshot_at_genesis [OF sc_engine_ready(1,2), of 0]
    by (simp add: verifyCascadingFields_def sc_header_checks word_less_nat_alt)
qed

lemma sc_accepts: "snd (verifyHeader sum_hash sc_verify 5000 (sc_engine 0) (sc_chain 0) (sc_block1 0) []) = None"
proof -
  have "parent_header (sc_chain 0) (sc_block1 0) [] = Some sc_genesis" by (simp add: parent_header_def)
  moreover have "\<not> fakeFailSet (sc_engine 0)" "diffInTurn = 2" "(5000 :: u64) \<le> MaxGasLimit"
    by (simp_all add: sc_engine_def diffInTurn_def MaxGasLimit_def word_le_nat_alt)
  ultimately show ?thesis
    using sc_cascades sc_header_checks(1,2) by (simp add: verifyHeader_def Let_def word_less_nat_alt word_le_nat_alt)
qed


end
