(* ===== verification/Certificates.thy ===== *)
theory Certificates
  imports Headers
begin

text \<open>
  Certificates that the engine assembles from the votes in its pool: they pass the verification of every engine on the same chain.
\<close>

section \<open>The votes that count\<close>

lemma addr_index_Some:
  assumes "addr_index records a = Some i"
  shows "i < length records" and "vs_Address (records ! i) = a"
proof -
  have "(a, i) \<in> set (zip (map vs_Address records) [0..<length records])"
    using map_of_SomeD [OF assms [unfolded addr_index_def]] by simp
  then show "i < length records" and "vs_Address (records ! i) = a" by (auto simp: set_zip)
qed

lemma GetVotes_distinct:
  assumes "pool_ok p"
  shows "distinct (map env_Signer (GetVotes p n h))"
proof (cases "map_of (votes p) \<lparr>ck_Number = n, ck_Hash = h\<rparr>")
  case (Some m)
  then have m: "distinct (map fst m)" "\<And>x. x \<in> set m \<Longrightarrow> env_Signer (snd x) = fst x"
    using assms unfolding pool_ok_def votes_ok_def by (fastforce dest!: map_of_SomeD)+
  have "map env_Signer (map snd m) = map fst m" using m(2) by simp
  moreover have "GetVotes p n h = map snd m" using Some by (simp add: GetVotes_def)
  ultimately show ?thesis using m(1) by metis
qed (simp add: GetVotes_def)

interpretation index_order: strict_weak_order "\<lambda>x y. (fst x :: nat) < fst y"
  by unfold_locales auto

lemma valid_votes_sound:
  assumes "distinct (map env_Signer envs)"
  shows "sorted_wrt (<) (map fst (valid_votes verify records digest envs))"
    and "(i, sig) \<in> set (valid_votes verify records digest envs) \<Longrightarrow>
      i < length records \<and> verify (vs_SignerPub (records ! i)) digest sig"
proof -
  let ?ok = "filter (vote_sig_ok verify records digest) envs"
  let ?f = "\<lambda>env. (the (addr_index records (env_Signer env)), env_Signature env)"
  have idx: "\<exists>i. addr_index records (env_Signer e) = Some i \<and> verify (vs_SignerPub (records ! i)) digest (env_Signature e)"
    if "e \<in> set ?ok" for e
    using that by (auto simp: vote_sig_ok_def split: option.splits)
  have inj: "x = y" if "x \<in> set ?ok" "y \<in> set ?ok" "fst (?f x) = fst (?f y)" for x y
  proof -
    note prem = that
    obtain i where "addr_index records (env_Signer x) = Some i" "addr_index records (env_Signer y) = Some i"
      using idx [OF prem(1)] idx [OF prem(2)] prem(3) by auto
    then have "env_Signer x = env_Signer y" using addr_index_Some(2) by metis
    then show ?thesis using prem assms by (auto simp: distinct_map inj_on_def)
  qed
  have "distinct (map fst (map ?f ?ok))"
    using assms inj by (auto simp: distinct_map inj_on_def o_def)
  then have "distinct (map fst (valid_votes verify records digest envs))"
    unfolding valid_votes_def by (rule distinct_map_fst_sort_by)
  moreover have "sorted (map fst (valid_votes verify records digest envs))"
    using index_order.sorted_sort_by [of "map ?f ?ok"] by (simp add: valid_votes_def sorted_map not_less)
  ultimately show "sorted_wrt (<) (map fst (valid_votes verify records digest envs))" by (simp add: strict_sorted_iff)
  show "i < length records \<and> verify (vs_SignerPub (records ! i)) digest sig"
    if "(i, sig) \<in> set (valid_votes verify records digest envs)"
  proof -
    note prem = that
    obtain e where "e \<in> set ?ok" "i = the (addr_index records (env_Signer e))" "sig = env_Signature e"
      using prem by (auto simp: valid_votes_def)
    then show ?thesis using idx addr_index_Some(1) by fastforce
  qed
qed

section \<open>The bitmap\<close>

lemma bit_set_bit: "bit (or b (2 ^ idx) :: u64) i \<longleftrightarrow> bit b i \<or> i < 64 \<and> i = idx"
  by (auto simp: bit_or_iff bit_exp_iff possible_bit_def)

lemma bit_votes_bitmap: "bit (votes_bitmap vs) i \<longleftrightarrow> i < 64 \<and> i \<in> fst ` set vs"
proof -
  have "bit (fold (\<lambda>(idx, _) bm. or bm (2 ^ idx)) vs b) i \<longleftrightarrow> bit b i \<or> i < 64 \<and> i \<in> fst ` set vs" for b :: u64
  proof (induction vs arbitrary: b)
    case (Cons v vs)
    show ?case by (cases v) (auto simp: Cons bit_set_bit)
  qed simp
  then show ?thesis by (simp add: votes_bitmap_def)
qed

lemma popcount_votes_bitmap:
  assumes "distinct (map fst vs)" and "\<And>i sig. (i, sig) \<in> set vs \<Longrightarrow> i < 64"
  shows "BitmapPopcount (votes_bitmap vs) = length vs"
proof -
  have "set (bits_of (votes_bitmap vs)) = fst ` set vs" using assms(2) by (force simp: bits_of_def bit_votes_bitmap)
  moreover have "distinct (bits_of (votes_bitmap vs))" by (simp add: bits_of_def)
  ultimately show ?thesis
    using distinct_card [of "bits_of (votes_bitmap vs)"] distinct_card [OF assms(1)] by (simp add: BitmapPopcount_def)
qed

text \<open>The loop over the bits consumes the signatures in the order in which the votes are sorted.\<close>

lemma qc_sig_loop_complete:
  assumes srt: "sorted_wrt (<) (map fst vs)" and "qc_Bitmap qc = votes_bitmap vs" and "qc_Signatures qc = map snd vs"
    and ok: "\<And>i sig. (i, sig) \<in> set vs \<Longrightarrow> i < length S \<and> verify (vs_SignerPub (S ! i)) digest sig"
    and "length S \<le> 64" and "\<And>r. r \<in> set S \<Longrightarrow> vs_SignerType r = ''ed25519''"
    and "k \<le> length vs" and "\<And>j. j < k \<Longrightarrow> fst (vs ! j) < i" and "\<And>j. k \<le> j \<Longrightarrow> j < length vs \<Longrightarrow> i \<le> fst (vs ! j)"
  shows "qc_sig_loop verify S qc digest i k = Inr (length vs)"
  using assms(7-9)
proof (induction "64 - i" arbitrary: i k)
  case 0
  have "k = length vs"
  proof (rule ccontr)
    assume "k \<noteq> length vs"
    then have "k < length vs" using 0(2) by simp
    then have "i \<le> fst (vs ! k)" "fst (vs ! k) < length S" using 0(4) [of k] ok [of "fst (vs ! k)" "snd (vs ! k)"] by auto
    then show False using 0(1) assms(5) by simp
  qed
  then show ?case by (simp add: qc_sig_loop.simps [of _ _ _ _ i] assms(3))
next
  case (Suc x)
  have i: "i < 64" "x = 64 - Suc i" using Suc.hyps(2) by simp_all
  show ?case
  proof (cases "k < length vs")
    case False
    then show ?thesis using Suc.prems(1) by (simp add: qc_sig_loop.simps [of _ _ _ _ i] assms(3))
  next
    case k: True
    have mono: "fst (vs ! a) < fst (vs ! b)" if "a < b" "b < length vs" for a b
      using sorted_wrt_nth_less [OF srt, of a b] that by simp
    show ?thesis
    proof (cases "fst (vs ! k) = i")
      case True
      have bit: "bit (qc_Bitmap qc) i" unfolding assms(2) bit_votes_bitmap using i(1) k True nth_mem by force
      have s: "i < length S" "verify (vs_SignerPub (S ! i)) digest (snd (vs ! k))"
        using ok [of i "snd (vs ! k)"] k True nth_mem [OF k] by auto
      have "qc_sig_loop verify S qc digest (Suc i) (Suc k) = Inr (length vs)"
      proof (rule Suc.hyps(1) [OF i(2)])
        show "Suc k \<le> length vs" using k by simp
        show "\<And>j. j < Suc k \<Longrightarrow> fst (vs ! j) < Suc i" using Suc.prems(2) True by (auto simp: less_Suc_eq)
        show "Suc i \<le> fst (vs ! j)" if "Suc k \<le> j" "j < length vs" for j using mono [of k j] that True by simp
      qed
      then show ?thesis
        using bit s i(1) k assms(6) [of "S ! i"] by (simp add: qc_sig_loop.simps [of _ _ _ _ i] assms(3) Let_def)
    next
      case False
      have "i \<notin> fst ` set vs"
      proof
        assume "i \<in> fst ` set vs"
        then obtain j where "j < length vs" "fst (vs ! j) = i" by (force simp: in_set_conv_nth)
        then show False using Suc.prems(2) [of j] Suc.prems(3) [of k] k False mono [of k j] by (cases "j < k"; cases "j = k") auto
      qed
      then have bit: "\<not> bit (qc_Bitmap qc) i" unfolding assms(2) bit_votes_bitmap by simp
      have "qc_sig_loop verify S qc digest (Suc i) k = Inr (length vs)"
      proof (rule Suc.hyps(1) [OF i(2)])
        show "k \<le> length vs" using k by simp
        show "\<And>j. j < k \<Longrightarrow> fst (vs ! j) < Suc i" using Suc.prems(2) by fastforce
        show "Suc i \<le> fst (vs ! j)" if "k \<le> j" "j < length vs" for j
          using Suc.prems(3) [of k] k False mono [of k j] that by (cases "j = k") auto
      qed
      then show ?thesis using bit i(1) k by (simp add: qc_sig_loop.simps [of _ _ _ _ i] assms(3))
    qed
  qed
qed


section \<open>Assembling\<close>

lemma pool_reach_AddVote: "pool_reach (pool d) \<Longrightarrow> pool_reach (pool (add_vote src env d))"
  using pool_reach.add [of "pool d" env]
  by (auto simp: add_vote_def emitVoteMonitorEvent_def set_pool_def pool_def Let_def split: prod.split option.split)

lemma pool_reach_fold:
  assumes "\<And>x e. pool_reach (pool e) \<Longrightarrow> pool_reach (pool (f x e))"
  shows "pool_reach (pool e) \<Longrightarrow> pool_reach (pool (fold f xs e))"
  by (induction xs arbitrary: e) (simp_all add: assms)

lemma pool_reach_promote:
  assumes "pool_reach (pool d)"
  shows "pool_reach (pool (promote_pending verify records vsHash digest candidate d))"
proof -
  have "pool_reach (pool (set_pool p d))" if "DrainPending (pool d) candidate = (p, x)" for p x
    using pool_reach.drain [OF assms, of candidate] that by (simp add: set_pool_def pool_def)
  then show ?thesis
    unfolding promote_pending_def by (auto split: prod.split intro!: pool_reach_fold pool_reach_AddVote)
qed

lemma snapshot_pool: "snapshot kh verify d chain n h ps = (d', r) \<Longrightarrow> pool d' = pool d"
  using keeps_fields(3) [OF snapshot_keeps(1)] by (simp add: pool_def)

lemma assembleCheckpointQC_Some:
  assumes "assembleCheckpointQC kh verify curves d chain header snap = (d', Some qc)" and "pool_reach (pool d)"
  obtains cp d1 preSnap records vs where
    "d_votePool d \<noteq> None" "CheckpointInterval (d_config d) \<noteq> 0" "CheckpointFinalityBlock (d_config d) \<noteq> None"
    "first_eligible (d_config d) < header_number header"
    "vote_Number (qc_Vote qc) = (header_number header - 1) div CheckpointInterval (d_config d) * CheckpointInterval (d_config d)"
    "first_eligible (d_config d) \<le> vote_Number (qc_Vote qc)" "FinalizedNumber snap < vote_Number (qc_Vote qc)"
    "ancestor_at chain (vote_Number (qc_Vote qc)) (Some header) = Some cp" "header_number cp = vote_Number (qc_Vote qc)"
    "header_Hash kh cp = vote_Hash (qc_Vote qc)"
    "snapshot kh verify d chain (vote_Number (qc_Vote qc) - 1) (ParentHash cp) [] = (d1, Inr preSnap)"
    "buildSignerSet kh curves d1 preSnap = Inr records" "computeValidatorSetHash kh records = vote_ValidatorSetHash (qc_Vote qc)"
    "vote_ChainID (qc_Vote qc) = ch_ChainID chain"
    "qc_Bitmap qc = votes_bitmap vs" "qc_Signatures qc = map snd vs" "(2 * length records + 2) div 3 \<le> length vs"
    "sorted_wrt (<) (map fst vs)"
    "\<And>i sig. (i, sig) \<in> set vs \<Longrightarrow> i < length records \<and>
       verify (vs_SignerPub (records ! i)) (hash_bytes (SigningHash kh (qc_Vote qc))) sig"
proof -
  let ?k = "CheckpointInterval (d_config d)" and ?n = "header_number header"
  let ?c = "(?n - 1) div ?k * ?k"
  note r = assms(1) [unfolded assembleCheckpointQC_def Let_def]
  from r have g: "d_votePool d \<noteq> None" "?k \<noteq> 0" "CheckpointFinalityBlock (d_config d) \<noteq> None" "first_eligible (d_config d) < ?n"
    "first_eligible (d_config d) \<le> ?c" "FinalizedNumber snap < ?c"
    by (auto simp: not_le not_less split: if_splits)
  from r obtain cp where cp: "ancestor_at chain ?c (Some header) = Some cp" "header_number cp = ?c"
    by (auto split: if_splits option.splits)
  note r1 = r [unfolded cp(1) option.case]
  obtain d1 x where s: "snapshot kh verify d chain (?c - 1) (ParentHash cp) [] = (d1, x)"
    by (cases "snapshot kh verify d chain (?c - 1) (ParentHash cp) []")
  from r1 obtain preSnap where x: "x = Inr preSnap" by (cases x) (auto simp: s split: if_splits)
  note r2 = r1 [unfolded s x prod.case sum.case]
  from r2 obtain records where R: "buildSignerSet kh curves d1 preSnap = Inr records"
    by (cases "buildSignerSet kh curves d1 preSnap") (auto split: if_splits)
  let ?vote = "checkpoint_vote (ch_ChainID chain) ?c (header_Hash kh cp) (computeValidatorSetHash kh records)"
  let ?digest = "hash_bytes (SigningHash kh ?vote)"
  let ?d2 = "promote_pending verify records (computeValidatorSetHash kh records) ?digest ?c d1"
  let ?vs = "valid_votes verify records ?digest (GetVotes (pool ?d2) ?c (header_Hash kh cp))"
  from r2 [unfolded R sum.case] have len: "(2 * length records + 2) div 3 \<le> length ?vs"
    and qc: "qc = \<lparr>qc_Vote = ?vote, qc_Bitmap = votes_bitmap ?vs, qc_Signatures = map snd ?vs\<rparr>"
    by (auto simp: not_less split: if_splits)
  have "pool_reach (pool ?d2)" using pool_reach_promote assms(2) snapshot_pool [OF s] by simp
  then have dist: "distinct (map env_Signer (GetVotes (pool ?d2) ?c (header_Hash kh cp)))"
    by (intro GetVotes_distinct pool_reach_ok)
  have v: "qc_Vote qc = ?vote" "vote_Number ?vote = ?c" "vote_Hash ?vote = header_Hash kh cp" "vote_ChainID ?vote = ch_ChainID chain"
    "vote_ValidatorSetHash ?vote = computeValidatorSetHash kh records"
    by (simp_all add: qc checkpoint_vote_def)
  show thesis
  proof (rule that [of cp d1 preSnap records ?vs])
    show "sorted_wrt (<) (map fst ?vs)" by (rule valid_votes_sound(1) [OF dist])
    show "i < length records \<and> verify (vs_SignerPub (records ! i)) (hash_bytes (SigningHash kh (qc_Vote qc))) sig"
      if "(i, sig) \<in> set ?vs" for i sig
      using valid_votes_sound(2) [OF dist that] by (simp add: v(1))
  qed (use g cp s x R len v in \<open>simp_all add: qc\<close>)
qed


section \<open>The candidate height\<close>

lemma len64: "LENGTH(64) = 64"
  by simp

lemma candidate_height:
  fixes n k :: u64
  assumes "k \<noteq> 0" and "n \<noteq> 0" and "unat k < 2 ^ 63"
  defines "c \<equiv> (n - 1) div k * k"
  shows "c < n" and "c mod k = 0" and "\<not> 2 * k < n - c"
proof -
  have k: "0 < unat k" using assms(1) by (simp add: unat_gt_0)
  have q: "unat ((n - 1) div k) * unat k = (unat n - 1) div unat k * unat k"
    using assms(2) by (simp add: unat_div unat_minus_one)
  have le: "(unat n - 1) div unat k * unat k \<le> unat n - 1" by simp
  have "unat ((n - 1) div k) * unat k < 2 ^ 64"
    unfolding q using le diff_le_self u64_less_2p64 by (meson le_less_trans)
  then have "unat c = unat ((n - 1) div k) * unat k"
    unfolding c_def by (simp only: unat_mult_lem [THEN iffD1] len64)
  then have c: "unat c = (unat n - 1) div unat k * unat k" using q by simp
  have n: "0 < unat n" using assms(2) by (simp add: unat_gt_0)
  have "unat c < unat n" unfolding c using le n by (intro le_less_trans [OF le]) simp
  then show "c < n" by (simp add: word_less_nat_alt)
  then have d: "unat (n - c) = unat n - unat c" by (simp add: u64_sub_nowrap)
  show "c mod k = 0" using c by (simp add: word_unat_eq_iff unat_mod)
  have "unat n - 1 < unat c + unat k" using c k by (metis add.commute div_mult_mod_eq mod_less_divisor nat_add_left_cancel_less)
  then have "unat (n - c) \<le> unat k" using d by simp
  moreover have "unat (2 * k) = 2 * unat k" using assms(3) by (simp add: unat_word_ariths)
  ultimately show "\<not> 2 * k < n - c" by (simp add: word_less_nat_alt)
qed


section \<open>Assembled certificates verify\<close>

lemma buildSignerSet_length:
  assumes "buildSignerSet kh curves d s = Inr S"
  shows "length S = length (Validators s)"
proof -
  obtain st ss where ss: "load_signers kh curves st (Validators s) = Inr ss" and S: "S = sort_by signer_before ss"
    using assms by (auto simp: buildSignerSet_def loadSignerSet_def split: option.splits sum.splits if_splits)
  have "length ss = length (Validators s)" using load_signers_sound [OF ss] by (metis length_map)
  then show ?thesis by (simp add: S)
qed

lemma votes_quorum:
  assumes "sorted_wrt (<) (map fst vs)" and "\<And>i sig. (i, sig) \<in> set vs \<Longrightarrow> i < length records"
    and "length records \<le> 64" and "records \<noteq> []" and "(2 * length records + 2) div 3 \<le> length vs"
  shows "BitmapPopcount (votes_bitmap vs) = length vs" and "0 < length vs" and "length vs \<le> length records"
proof -
  have d: "distinct (map fst vs)" using assms(1) by (simp add: strict_sorted_iff)
  show "BitmapPopcount (votes_bitmap vs) = length vs" using popcount_votes_bitmap [OF d] assms(2,3) by fastforce
  show "0 < length vs" using assms(4,5) by (cases records) auto
  have "card (set (map fst vs)) \<le> card {..<length records}" using assms(2) by (intro card_mono) auto
  then show "length vs \<le> length records" using distinct_card [OF d] by simp
qed

text \<open>
  C7. The certificates an engine assembles verify. When the engine assembles a certificate for a header, the header
  that carries it passes both checks: the structural check of its height, its age, its chain and its bitmap, and the
  full check of the ancestor, the signer set, each signature and the quorum, which stages the finality of the block voted for.
  The validator sets are within the configured limit, which is at most 64.
\<close>

theorem assembled_certificate_verifies:
  assumes "assembleCheckpointQC kh verify curves d chain header snap = (d', Some qc)" and "pool_reach (pool d)"
    and "well_numbered chain" and "ch_ChainID chain \<noteq> None" and "unat (CheckpointInterval (d_config d)) < 2 ^ 63"
    and "unat (MaxValidators (d_config d)) \<le> 64"
    and fits: "\<And>cp d1 s. ancestor_at chain (vote_Number (qc_Vote qc)) (Some header) = Some cp \<Longrightarrow>
      snapshot kh verify d chain (vote_Number (qc_Vote qc) - 1) (ParentHash cp) [] = (d1, Inr s) \<Longrightarrow>
      length (Validators s) \<le> unat (MaxValidators (d_config d))"
    and carrier: "header_number carrier = header_number header" "ParentHash carrier = ParentHash header" "qc_of d carrier = Some qc"
  shows "verifyCheckpointQCStructure d chain carrier = None \<and>
    (\<exists>d1. verifyCheckpointQCFull kh verify curves d chain carrier snap =
      (stageFinalityResult d1 (header_Hash kh carrier) (vote_Number (qc_Vote qc)) (vote_Hash (qc_Vote qc))
        (vote_ValidatorSetHash (qc_Vote qc)), None))"
  using assms(1,2)
proof (rule assembleCheckpointQC_Some)
  let ?n = "header_number header" and ?k = "CheckpointInterval (d_config d)" and ?c = "vote_Number (qc_Vote qc)"
  let ?digest = "hash_bytes (SigningHash kh (qc_Vote qc))"
  fix cp d1 preSnap records vs
  assume k: "?k \<noteq> 0" and el: "first_eligible (d_config d) < ?n" "first_eligible (d_config d) \<le> ?c"
    and c: "?c = (?n - 1) div ?k * ?k" and fin: "FinalizedNumber snap < ?c"
    and cp: "ancestor_at chain ?c (Some header) = Some cp" "header_number cp = ?c" "header_Hash kh cp = vote_Hash (qc_Vote qc)"
    and s: "snapshot kh verify d chain (?c - 1) (ParentHash cp) [] = (d1, Inr preSnap)"
    and S: "buildSignerSet kh curves d1 preSnap = Inr records" "computeValidatorSetHash kh records = vote_ValidatorSetHash (qc_Vote qc)"
    and id: "vote_ChainID (qc_Vote qc) = ch_ChainID chain"
    and q: "qc_Bitmap qc = votes_bitmap vs" "qc_Signatures qc = map snd vs" "(2 * length records + 2) div 3 \<le> length vs"
    and vs: "sorted_wrt (<) (map fst vs)" "\<And>i sig. (i, sig) \<in> set vs \<Longrightarrow> i < length records \<and> verify (vs_SignerPub (records ! i)) ?digest sig"
  have n: "?n \<noteq> 0" using el(1) by auto
  note h = candidate_height [OF k n assms(5), folded c]
  have len: "length records \<le> unat (MaxValidators (d_config d))" "length records \<le> 64"
    using fits [OF cp(1) s] buildSignerSet_length [OF S(1)] assms(6) by simp_all
  have ne: "records \<noteq> []" and ed: "\<And>r. r \<in> set records \<Longrightarrow> vs_SignerType r = ''ed25519''"
    using buildSignerSet_signers [OF S(1)] by auto
  note pop = votes_quorum [OF vs(1) _ len(2) ne q(3)]
  have loop: "qc_sig_loop verify records qc ?digest 0 0 = Inr (length vs)"
    by (rule qc_sig_loop_complete [OF vs(1) q(1,2)]) (use vs(2) len(2) ed in simp_all)
  have act: "IsCheckpointFinality (Some (d_config d)) (Number carrier)"
    "parseCheckpointQCFromExtra (Extra carrier) (?n mod Epoch (d_config d) = 0) True = Inr (Some qc)"
    using carrier by (auto simp: qc_of_def split: if_splits sum.splits option.splits)
  have max: "\<not> MaxValidators (d_config d) < word_of_nat (BitmapPopcount (qc_Bitmap qc))"
    using pop vs(2) len(1,2) by (simp add: q(1) word_less_nat_alt unat_of_nat)
  have "verifyCheckpointQCStructure d chain carrier = qc_structure_error (d_config d) (ch_ChainID chain) ?n qc"
    using act carrier by (simp add: verifyCheckpointQCStructure_def Let_def)
  also have "\<dots> = None"
    using el(2) h id assms(4) max pop vs(2) q(2) by (simp add: qc_structure_error_def Let_def q(1) not_le not_less)
  finally have struct: "verifyCheckpointQCStructure d chain carrier = None" .
  have up: "ancestor_at chain ?c (ch_GetHeader chain (ParentHash header) (?n - 1)) = Some cp"
    using cp(1) h(1) unfolding ancestor_at_unfold [OF assms(3)] by simp
  then obtain cur where cur: "ch_GetHeader chain (ParentHash header) (?n - 1) = Some cur" "ancestor_at chain ?c (Some cur) = Some cp"
    by (cases "ch_GetHeader chain (ParentHash header) (?n - 1)") (auto simp: ancestor_at_def)
  have f: "?c \<noteq> 0" "\<not> ?c < FinalizedNumber snap" "FinalizedNumber snap \<noteq> ?c" using fin by auto
  have "verifyCheckpointQCFull kh verify curves d chain carrier snap =
      (stageFinalityResult d1 (header_Hash kh carrier) ?c (vote_Hash (qc_Vote qc)) (vote_ValidatorSetHash (qc_Vote qc)), None)"
    unfolding verifyCheckpointQCFull_def Let_def carrier(1,2) act(2)
    using act(1) f q(3) by (simp add: cur cp s S loop not_less)
  then show ?thesis using struct by blast
qed


text \<open>The validator of the small chain votes for the first block; its vote is a quorum.\<close>

definition sc_vote :: CheckpointVoteEnvelope where
  "sc_vote = \<lparr>env_Vote = qc_Vote (sc_qc 0), env_Signer = sc_validator, env_Signature = replicate 64 3\<rparr>"

definition sc_pool :: checkpointVotePool where
  "sc_pool = newCheckpointVotePool\<lparr>votes := [(\<lparr>ck_Number = 1, ck_Hash = sc_h1 0\<rparr>, [(sc_validator, sc_vote)])]\<rparr>"

definition sc_pooled :: DPoS where
  "sc_pooled = (sc_engine 0)\<lparr>d_votePool := Some sc_pool\<rparr>"

lemma sc_pool_reach: "pool_reach sc_pool"
proof -
  have "fst (AddVote newCheckpointVotePool sc_vote) = sc_pool"
    by (simp add: AddVote_def newCheckpointVotePool_def sc_vote_def sc_pool_def)
  then show ?thesis using pool_reach.add [OF pool_reach.new, of sc_vote] by simp
qed

lemma sc_pooled_ready: "sc_ready 0 sc_pooled" "d_config sc_pooled = sc_config"
  using sc_engine_ready(1) [of 0] by (simp_all add: sc_ready_def sc_pooled_def)

lemma sc_votes:
  "valid_votes sc_verify sc_signers digest
     (GetVotes (pool (promote_pending sc_verify sc_signers vsHash digest 1 (sc_found sc_pooled s))) 1 (sc_h1 0)) = [(0, replicate 64 3)]"
proof -
  have "pool (sc_found sc_pooled s) = sc_pool" by (simp add: pool_def sc_found_def store_snap_def sc_pooled_def split: option.split)
  then have "GetVotes (pool (promote_pending sc_verify sc_signers vsHash digest 1 (sc_found sc_pooled s))) 1 (sc_h1 0) = [sc_vote]"
    by (simp add: promote_pending_def DrainPending_def sc_pool_def newCheckpointVotePool_def)
      (simp add: set_pool_def pool_def GetVotes_def)
  then show ?thesis
    by (simp add: valid_votes_def vote_sig_ok_def addr_index_def sc_signers_def sc_vote_def sc_verify_def sort_by_single)
qed

lemma sc_ancestor: "ancestor_at (sc_chain 0) 1 (Some (sc_block2 0)) = Some (sc_block1 0)"
  by (simp add: ancestor_at_unfold [OF sc_well_numbered])

lemma sc_assembles:
  "\<exists>d'. assembleCheckpointQC sum_hash sc_verify sc_curves sc_pooled (sc_chain 0) (sc_block2 0) sc_snapshot0 = (d', Some (sc_qc 0))"
proof -
  note snap = sc_snapshot_at_genesis [OF sc_pooled_ready(1) sc_engine_ready(2)] and build = sc_build [OF sc_pooled_ready(1), of sc_snapshot0]
  have el: "first_eligible sc_config = 1" by (simp add: first_eligible_def firstCheckpointAtOrAfter_def big_Uint64_def)
  have le: "\<not> (2 :: u64) \<le> 1" by (simp add: word_le_nat_alt)
  have some: "d_votePool sc_pooled \<noteq> None" by (simp add: sc_pooled_def)
  have len: "length sc_signers = 1" by (simp add: sc_signers_def)
  show ?thesis
    unfolding assembleCheckpointQC_def Let_def sc_pooled_ready(2)
    using some by (simp add: el le sc_ancestor snap build sc_votes len) (simp add: sc_qc_def votes_bitmap_def)
qed

theorem assembled_certificate_verifies_witness:
  "verifyCheckpointQCStructure sc_pooled (sc_chain 0) (sc_block2 0) = None \<and>
    (\<exists>d1. verifyCheckpointQCFull sum_hash sc_verify sc_curves sc_pooled (sc_chain 0) (sc_block2 0) sc_snapshot0 =
      (stageFinalityResult d1 (header_Hash sum_hash (sc_block2 0)) 1 (sc_h1 0) sc_vsHash, None))"
proof -
  obtain d' where a: "assembleCheckpointQC sum_hash sc_verify sc_curves sc_pooled (sc_chain 0) (sc_block2 0) sc_snapshot0 = (d', Some (sc_qc 0))"
    using sc_assembles by blast
  have fits: "length (Validators s) \<le> unat (MaxValidators (d_config sc_pooled))"
    if "ancestor_at (sc_chain 0) (vote_Number (qc_Vote (sc_qc 0))) (Some (sc_block2 0)) = Some cp"
      "snapshot sum_hash sc_verify sc_pooled (sc_chain 0) (vote_Number (qc_Vote (sc_qc 0)) - 1) (ParentHash cp) [] = (d1, Inr s)" for cp d1 s
    using that sc_ancestor sc_snapshot_at_genesis [OF sc_pooled_ready(1) sc_engine_ready(2)]
    by (auto simp: sc_pooled_ready sc_snapshot0_def)
  have pool: "pool_reach (pool sc_pooled)" using sc_pool_reach by (simp add: pool_def sc_pooled_def)
  have qc: "qc_of sc_pooled (sc_block2 0) = Some (sc_qc 0)"
    by (simp add: qc_of_def sc_pooled_ready) (simp add: IsCheckpointFinality_def)
  show ?thesis
    using assembled_certificate_verifies [OF a pool sc_well_numbered _ _ _ fits refl refl qc] by (simp add: sc_pooled_ready)
qed

end
