(* ===== verification/Journal.thy ===== *)
theory Journal
  imports Params StateDB "HOL-Library.AList"
begin

text \<open>
  The journaled state database of core/state: access_list.go, journal.go, state_object.go and the operations of
  statedb.go that a transaction uses. Account and storage tries, the flat snapshot of them and the code store are
  lookup functions (\<open>database\<close>, \<open>snapshot_layer\<close>); writing them back (IntermediateRoot, Commit) is not part of the model.

  A state object is a value in the map \<open>stateObjects\<close>; a method of an object changes the value stored under its address.
  Reads load objects and storage entries into the caches as the code does, so they return the new state too.
  A nil dereference or a panic is \<^const>\<open>None\<close>.
\<close>

section \<open>Access lists\<close>

record accessList =
  al_addresses :: "address \<Rightarrow> int option"
  al_slots :: "hash set list"

definition newAccessList :: accessList where
  "newAccessList = \<lparr>al_addresses = Map.empty, al_slots = []\<rparr>"

definition ContainsAddress :: "accessList \<Rightarrow> address \<Rightarrow> bool" where
  "ContainsAddress al address = (al_addresses al address \<noteq> None)"

definition Contains :: "accessList \<Rightarrow> address \<Rightarrow> hash \<Rightarrow> bool \<times> bool" where
  "Contains al address slot =
     (case al_addresses al address of
        None \<Rightarrow> (False, False)
      | Some idx \<Rightarrow> if idx = -1 then (True, False) else (True, slot \<in> al_slots al ! nat idx))"

definition AddAddress :: "accessList \<Rightarrow> address \<Rightarrow> accessList \<times> bool" where
  "AddAddress al address =
     (if al_addresses al address \<noteq> None then (al, False)
      else (al\<lparr>al_addresses := (al_addresses al)(address \<mapsto> -1)\<rparr>, True))"

definition AddSlot :: "accessList \<Rightarrow> address \<Rightarrow> hash \<Rightarrow> accessList \<times> bool \<times> bool" where
  "AddSlot al address slot =
     (case al_addresses al address of
        None \<Rightarrow> (\<lparr>al_addresses = (al_addresses al)(address \<mapsto> int (length (al_slots al))), al_slots = al_slots al @ [{slot}]\<rparr>, True, True)
      | Some idx \<Rightarrow>
          if idx = -1
          then (\<lparr>al_addresses = (al_addresses al)(address \<mapsto> int (length (al_slots al))), al_slots = al_slots al @ [{slot}]\<rparr>, False, True)
          else
            let slotmap = al_slots al ! nat idx in
            if slot \<notin> slotmap then (al\<lparr>al_slots := (al_slots al)[nat idx := insert slot slotmap]\<rparr>, False, True)
            else (al, False, False))"

definition DeleteSlot :: "accessList \<Rightarrow> address \<Rightarrow> hash \<Rightarrow> accessList option" where
  "DeleteSlot al address slot =
     (case al_addresses al address of
        None \<Rightarrow> None
      | Some idx \<Rightarrow>
          if idx < 0 \<or> int (length (al_slots al)) \<le> idx then None
          else
            let slotmap = al_slots al ! nat idx - {slot}; al = al\<lparr>al_slots := (al_slots al)[nat idx := slotmap]\<rparr> in
            Some (if slotmap = {}
                  then \<lparr>al_addresses = (al_addresses al)(address \<mapsto> -1), al_slots = take (nat idx) (al_slots al)\<rparr>
                  else al))"

definition DeleteAddress :: "accessList \<Rightarrow> address \<Rightarrow> accessList" where
  "DeleteAddress al address = al\<lparr>al_addresses := (al_addresses al)(address := None)\<rparr>"

section \<open>State objects\<close>

record StateAccount =
  acc_Nonce :: u64
  acc_Balance :: "int option"
  acc_Root :: hash
  acc_CodeHash :: "hash option"

definition emptyRoot :: hash where
  "emptyRoot = 0x56e81f171bcc55a6ff8345e692c0f86e5b48e01b996cadc001622fb5e363b421"

definition emptyCodeHash :: "keccak \<Rightarrow> hash" where
  "emptyCodeHash kh = kh []"

type_synonym Storage = "hash \<Rightarrow> hash option"

record stateObject =
  so_address :: address
  so_Nonce :: u64
  so_Balance :: int
  so_Root :: hash
  so_CodeHash :: hash
  so_code :: "bytes option"
  originStorage :: Storage
  pendingStorage :: Storage
  dirtyStorage :: Storage
  fakeStorage :: "Storage option"
  dirtyCode :: bool
  suicided :: bool
  so_deleted :: bool

definition obj_empty :: "keccak \<Rightarrow> stateObject \<Rightarrow> bool" where
  "obj_empty kh so = (so_Nonce so = 0 \<and> so_Balance so = 0 \<and> so_CodeHash so = emptyCodeHash kh)"

definition newObject :: "keccak \<Rightarrow> address \<Rightarrow> StateAccount \<Rightarrow> stateObject" where
  "newObject kh address data =
     \<lparr>so_address = address, so_Nonce = acc_Nonce data,
      so_Balance = (case acc_Balance data of None \<Rightarrow> 0 | Some b \<Rightarrow> b),
      so_Root = (if acc_Root data = 0 then emptyRoot else acc_Root data),
      so_CodeHash = (case acc_CodeHash data of None \<Rightarrow> emptyCodeHash kh | Some h \<Rightarrow> h),
      so_code = None, originStorage = Map.empty, pendingStorage = Map.empty, dirtyStorage = Map.empty,
      fakeStorage = None, dirtyCode = False, suicided = False, so_deleted = False\<rparr>"

definition emptyAccount :: StateAccount where
  "emptyAccount = \<lparr>acc_Nonce = 0, acc_Balance = None, acc_Root = 0, acc_CodeHash = None\<rparr>"

definition addrHash :: "keccak \<Rightarrow> stateObject \<Rightarrow> hash" where
  "addrHash kh so = kh (addr_bytes (so_address so))"

section \<open>The journal and the state\<close>

datatype journalEntry =
    createObjectChange address
  | resetObjectChange stateObject bool
  | suicideChange address bool int
  | balanceChange address int
  | nonceChange address u64
  | storageChange address hash hash
  | codeChange address bytes hash
  | refundChange u64
  | addLogChange hash
  | addPreimageChange hash
  | touchChange address
  | accessListAddAccountChange address
  | accessListAddSlotChange address hash

fun dirtied :: "journalEntry \<Rightarrow> address option" where
  "dirtied (createObjectChange a) = Some a"
| "dirtied (resetObjectChange prev prevdestruct) = None"
| "dirtied (suicideChange a prev prevbalance) = Some a"
| "dirtied (balanceChange a prev) = Some a"
| "dirtied (nonceChange a prev) = Some a"
| "dirtied (storageChange a key prevalue) = Some a"
| "dirtied (codeChange a prevcode prevhash) = Some a"
| "dirtied (refundChange prev) = None"
| "dirtied (addLogChange txhash) = None"
| "dirtied (addPreimageChange h) = None"
| "dirtied (touchChange a) = Some a"
| "dirtied (accessListAddAccountChange a) = None"
| "dirtied (accessListAddSlotChange a slot) = None"

record journal =
  entries :: "journalEntry list"
  dirties :: "(address \<times> int) list"

definition newJournal :: journal where
  "newJournal = \<lparr>entries = [], dirties = []\<rparr>"

definition dirty_count :: "(address \<times> int) list \<Rightarrow> address \<Rightarrow> int" where
  "dirty_count d a = (case map_of d a of None \<Rightarrow> 0 | Some n \<Rightarrow> n)"

definition mark_dirty :: "address \<Rightarrow> (address \<times> int) list \<Rightarrow> (address \<times> int) list" where
  "mark_dirty a d = AList.update a (dirty_count d a + 1) d"

definition unmark_dirty :: "address \<Rightarrow> (address \<times> int) list \<Rightarrow> (address \<times> int) list" where
  "unmark_dirty a d =
     (let n = dirty_count d a - 1 in if n = 0 then AList.delete a d else AList.update a n d)"

record revision =
  rev_id :: nat
  rev_journalIndex :: nat

record database =
  db_Account :: "address \<Rightarrow> StateAccount option"
  db_Storage :: "address \<Rightarrow> hash \<Rightarrow> hash \<Rightarrow> hash"
  db_Code :: "hash \<Rightarrow> bytes"

record snapshot_layer =
  sn_Account :: "hash \<Rightarrow> StateAccount option option"
  sn_Storage :: "hash \<Rightarrow> hash \<Rightarrow> hash option"

record Log = log_entry +
  log_TxHash :: hash
  log_TxIndex :: nat
  log_Index :: u64

record StateDB =
  s_db :: database
  s_snap :: "snapshot_layer option"
  snapDestructs :: "hash set"
  stateObjects :: "address \<Rightarrow> stateObject option"
  stateObjectsPending :: "address set"
  stateObjectsDirty :: "address set"
  s_refund :: u64
  s_thash :: hash
  s_txIndex :: nat
  s_logs :: "hash \<Rightarrow> Log list"
  logSize :: u64
  s_preimages :: "hash \<Rightarrow> bytes option"
  s_accessList :: accessList
  s_journal :: journal
  validRevisions :: "revision list"
  nextRevisionId :: nat

definition NewStateDB :: "database \<Rightarrow> snapshot_layer option \<Rightarrow> StateDB" where
  "NewStateDB db snap =
     \<lparr>s_db = db, s_snap = snap, snapDestructs = {}, stateObjects = Map.empty, stateObjectsPending = {},
      stateObjectsDirty = {}, s_refund = 0, s_thash = 0, s_txIndex = 0, s_logs = (\<lambda>_. []), logSize = 0,
      s_preimages = Map.empty, s_accessList = newAccessList, s_journal = newJournal, validRevisions = [],
      nextRevisionId = 0\<rparr>"

definition journal_append :: "journalEntry \<Rightarrow> StateDB \<Rightarrow> StateDB" where
  "journal_append entry s =
     s\<lparr>s_journal := \<lparr>entries = entries (s_journal s) @ [entry],
        dirties = (case dirtied entry of None \<Rightarrow> dirties (s_journal s) | Some a \<Rightarrow> mark_dirty a (dirties (s_journal s)))\<rparr>\<rparr>"

definition journal_dirty :: "address \<Rightarrow> StateDB \<Rightarrow> StateDB" where
  "journal_dirty a s = s\<lparr>s_journal := (s_journal s)\<lparr>dirties := mark_dirty a (dirties (s_journal s))\<rparr>\<rparr>"

section \<open>Loading objects\<close>

definition setStateObject :: "stateObject \<Rightarrow> StateDB \<Rightarrow> StateDB" where
  "setStateObject so s = s\<lparr>stateObjects := (stateObjects s)(so_address so \<mapsto> so)\<rparr>"

definition loadAccount :: "keccak \<Rightarrow> StateDB \<Rightarrow> address \<Rightarrow> StateAccount option" where
  "loadAccount kh s a =
     (case s_snap s of
        None \<Rightarrow> db_Account (s_db s) a
      | Some snap \<Rightarrow>
          (case sn_Account snap (kh (addr_bytes a)) of
             None \<Rightarrow> db_Account (s_db s) a
           | Some acc \<Rightarrow> acc))"

definition getDeletedStateObject :: "keccak \<Rightarrow> StateDB \<Rightarrow> address \<Rightarrow> StateDB \<times> stateObject option" where
  "getDeletedStateObject kh s a =
     (case stateObjects s a of
        Some so \<Rightarrow> (s, Some so)
      | None \<Rightarrow>
          (case loadAccount kh s a of
             None \<Rightarrow> (s, None)
           | Some data \<Rightarrow> let so = newObject kh a data in (setStateObject so s, Some so)))"

definition getStateObject :: "keccak \<Rightarrow> StateDB \<Rightarrow> address \<Rightarrow> StateDB \<times> stateObject option" where
  "getStateObject kh s a =
     (case getDeletedStateObject kh s a of
        (s, Some so) \<Rightarrow> (s, if so_deleted so then None else Some so)
      | (s, None) \<Rightarrow> (s, None))"

definition createObject :: "keccak \<Rightarrow> StateDB \<Rightarrow> address \<Rightarrow> StateDB \<times> stateObject option" where
  "createObject kh s a =
     (let (s, prev) = getDeletedStateObject kh s a;
          prevdestruct = (case prev of None \<Rightarrow> False | Some p \<Rightarrow> s_snap s \<noteq> None \<and> addrHash kh p \<in> snapDestructs s);
          s = (case prev of None \<Rightarrow> s
               | Some p \<Rightarrow> if s_snap s = None then s else s\<lparr>snapDestructs := insert (addrHash kh p) (snapDestructs s)\<rparr>);
          s = journal_append (case prev of None \<Rightarrow> createObjectChange a | Some p \<Rightarrow> resetObjectChange p prevdestruct) s;
          s = setStateObject (newObject kh a emptyAccount) s
      in (s, case prev of None \<Rightarrow> None | Some p \<Rightarrow> if so_deleted p then None else Some p))"

definition GetOrNewStateObject :: "keccak \<Rightarrow> StateDB \<Rightarrow> address \<Rightarrow> StateDB" where
  "GetOrNewStateObject kh s a =
     (case getStateObject kh s a of
        (s, Some _) \<Rightarrow> s
      | (s, None) \<Rightarrow> fst (createObject kh s a))"

definition upd_object :: "address \<Rightarrow> (stateObject \<Rightarrow> stateObject) \<Rightarrow> StateDB \<Rightarrow> StateDB" where
  "upd_object a f s = s\<lparr>stateObjects := (stateObjects s)(a := map_option f (stateObjects s a))\<rparr>"

section \<open>Methods of a state object\<close>

definition obj_Code :: "keccak \<Rightarrow> StateDB \<Rightarrow> stateObject \<Rightarrow> stateObject \<times> bytes" where
  "obj_Code kh s so =
     (case so_code so of
        Some code \<Rightarrow> (so, code)
      | None \<Rightarrow>
          if so_CodeHash so = emptyCodeHash kh then (so, [])
          else let code = db_Code (s_db s) (so_CodeHash so) in (so\<lparr>so_code := Some code\<rparr>, code))"

definition readStorage :: "keccak \<Rightarrow> StateDB \<Rightarrow> stateObject \<Rightarrow> hash \<Rightarrow> hash" where
  "readStorage kh s so key =
     (let trie = db_Storage (s_db s) (so_address so) (so_Root so) key in
      case s_snap s of
        None \<Rightarrow> trie
      | Some snap \<Rightarrow> (case sn_Storage snap (addrHash kh so) (kh (hash_bytes key)) of None \<Rightarrow> trie | Some v \<Rightarrow> v))"

definition obj_GetCommittedState :: "keccak \<Rightarrow> StateDB \<Rightarrow> stateObject \<Rightarrow> hash \<Rightarrow> stateObject \<times> hash" where
  "obj_GetCommittedState kh s so key =
     (case fakeStorage so of
        Some fake \<Rightarrow> (so, case fake key of None \<Rightarrow> 0 | Some v \<Rightarrow> v)
      | None \<Rightarrow>
     (case pendingStorage so key of
        Some v \<Rightarrow> (so, v)
      | None \<Rightarrow>
     (case originStorage so key of
        Some v \<Rightarrow> (so, v)
      | None \<Rightarrow>
          if s_snap s \<noteq> None \<and> addrHash kh so \<in> snapDestructs s then (so, 0)
          else let v = readStorage kh s so key in (so\<lparr>originStorage := (originStorage so)(key \<mapsto> v)\<rparr>, v))))"

definition obj_GetState :: "keccak \<Rightarrow> StateDB \<Rightarrow> stateObject \<Rightarrow> hash \<Rightarrow> stateObject \<times> hash" where
  "obj_GetState kh s so key =
     (case fakeStorage so of
        Some fake \<Rightarrow> (so, case fake key of None \<Rightarrow> 0 | Some v \<Rightarrow> v)
      | None \<Rightarrow>
     (case dirtyStorage so key of
        Some v \<Rightarrow> (so, v)
      | None \<Rightarrow> obj_GetCommittedState kh s so key))"

definition ripemd :: address where
  "ripemd = 3"

definition obj_touch :: "address \<Rightarrow> StateDB \<Rightarrow> StateDB" where
  "obj_touch a s = (let s = journal_append (touchChange a) s in if a = ripemd then journal_dirty a s else s)"

definition obj_SetBalance :: "address \<Rightarrow> int \<Rightarrow> StateDB \<Rightarrow> StateDB" where
  "obj_SetBalance a amount s =
     (case stateObjects s a of None \<Rightarrow> s
      | Some so \<Rightarrow> upd_object a (so_Balance_update (\<lambda>_. amount)) (journal_append (balanceChange a (so_Balance so)) s))"

definition obj_AddBalance :: "keccak \<Rightarrow> address \<Rightarrow> int \<Rightarrow> StateDB \<Rightarrow> StateDB" where
  "obj_AddBalance kh a amount s =
     (case stateObjects s a of None \<Rightarrow> s
      | Some so \<Rightarrow>
          if amount = 0 then (if obj_empty kh so then obj_touch a s else s)
          else obj_SetBalance a (so_Balance so + amount) s)"

definition obj_SubBalance :: "address \<Rightarrow> int \<Rightarrow> StateDB \<Rightarrow> StateDB" where
  "obj_SubBalance a amount s =
     (case stateObjects s a of None \<Rightarrow> s
      | Some so \<Rightarrow> if amount = 0 then s else obj_SetBalance a (so_Balance so - amount) s)"

definition obj_SetNonce :: "address \<Rightarrow> u64 \<Rightarrow> StateDB \<Rightarrow> StateDB" where
  "obj_SetNonce a nonce s =
     (case stateObjects s a of None \<Rightarrow> s
      | Some so \<Rightarrow> upd_object a (so_Nonce_update (\<lambda>_. nonce)) (journal_append (nonceChange a (so_Nonce so)) s))"

definition obj_setCode :: "hash \<Rightarrow> bytes \<Rightarrow> stateObject \<Rightarrow> stateObject" where
  "obj_setCode codeHash code so = so\<lparr>so_code := Some code, so_CodeHash := codeHash, dirtyCode := True\<rparr>"

definition obj_SetCode :: "keccak \<Rightarrow> address \<Rightarrow> hash \<Rightarrow> bytes \<Rightarrow> StateDB \<Rightarrow> StateDB" where
  "obj_SetCode kh a codeHash code s =
     (case stateObjects s a of None \<Rightarrow> s
      | Some so \<Rightarrow>
          let (so', prevcode) = obj_Code kh s so
          in upd_object a (obj_setCode codeHash code)
               (journal_append (codeChange a prevcode (so_CodeHash so')) (upd_object a (\<lambda>_. so') s)))"

definition obj_setState :: "hash \<Rightarrow> hash \<Rightarrow> stateObject \<Rightarrow> stateObject" where
  "obj_setState key value so = so\<lparr>dirtyStorage := (dirtyStorage so)(key \<mapsto> value)\<rparr>"

definition obj_SetState :: "keccak \<Rightarrow> address \<Rightarrow> hash \<Rightarrow> hash \<Rightarrow> StateDB \<Rightarrow> StateDB" where
  "obj_SetState kh a key value s =
     (case stateObjects s a of None \<Rightarrow> s
      | Some so \<Rightarrow>
     (case fakeStorage so of
        Some fake \<Rightarrow> upd_object a (fakeStorage_update (\<lambda>_. Some (fake(key \<mapsto> value)))) s
      | None \<Rightarrow>
          let (so', prev) = obj_GetState kh s so key; s = upd_object a (\<lambda>_. so') s in
          if prev = value then s
          else upd_object a (obj_setState key value) (journal_append (storageChange a key prev) s)))"

definition obj_finalise :: "stateObject \<Rightarrow> stateObject" where
  "obj_finalise so = so\<lparr>pendingStorage := pendingStorage so ++ dirtyStorage so, dirtyStorage := Map.empty\<rparr>"

definition deepCopy :: "stateObject \<Rightarrow> stateObject" where
  "deepCopy so = so\<lparr>fakeStorage := None\<rparr>"

section \<open>Reading\<close>

definition sdb_Exist :: "keccak \<Rightarrow> StateDB \<Rightarrow> address \<Rightarrow> StateDB \<times> bool" where
  "sdb_Exist kh s a = (let (s, so) = getStateObject kh s a in (s, so \<noteq> None))"

definition sdb_Empty :: "keccak \<Rightarrow> StateDB \<Rightarrow> address \<Rightarrow> StateDB \<times> bool" where
  "sdb_Empty kh s a =
     (let (s, so) = getStateObject kh s a in (s, case so of None \<Rightarrow> True | Some so \<Rightarrow> obj_empty kh so))"

definition sdb_GetBalance :: "keccak \<Rightarrow> StateDB \<Rightarrow> address \<Rightarrow> StateDB \<times> int" where
  "sdb_GetBalance kh s a =
     (let (s, so) = getStateObject kh s a in (s, case so of None \<Rightarrow> 0 | Some so \<Rightarrow> so_Balance so))"

definition sdb_GetNonce :: "keccak \<Rightarrow> StateDB \<Rightarrow> address \<Rightarrow> StateDB \<times> u64" where
  "sdb_GetNonce kh s a =
     (let (s, so) = getStateObject kh s a in (s, case so of None \<Rightarrow> 0 | Some so \<Rightarrow> so_Nonce so))"

definition sdb_GetCode :: "keccak \<Rightarrow> StateDB \<Rightarrow> address \<Rightarrow> StateDB \<times> bytes" where
  "sdb_GetCode kh s a =
     (case getStateObject kh s a of
        (s, None) \<Rightarrow> (s, [])
      | (s, Some so) \<Rightarrow> let (so', code) = obj_Code kh s so in (upd_object a (\<lambda>_. so') s, code))"

definition sdb_GetCodeHash :: "keccak \<Rightarrow> StateDB \<Rightarrow> address \<Rightarrow> StateDB \<times> hash" where
  "sdb_GetCodeHash kh s a =
     (let (s, so) = getStateObject kh s a in (s, case so of None \<Rightarrow> 0 | Some so \<Rightarrow> so_CodeHash so))"

definition sdb_GetState :: "keccak \<Rightarrow> StateDB \<Rightarrow> address \<Rightarrow> hash \<Rightarrow> StateDB \<times> hash" where
  "sdb_GetState kh s a key =
     (case getStateObject kh s a of
        (s, None) \<Rightarrow> (s, 0)
      | (s, Some so) \<Rightarrow> let (so', v) = obj_GetState kh s so key in (upd_object a (\<lambda>_. so') s, v))"

definition sdb_GetCommittedState :: "keccak \<Rightarrow> StateDB \<Rightarrow> address \<Rightarrow> hash \<Rightarrow> StateDB \<times> hash" where
  "sdb_GetCommittedState kh s a key =
     (case getStateObject kh s a of
        (s, None) \<Rightarrow> (s, 0)
      | (s, Some so) \<Rightarrow> let (so', v) = obj_GetCommittedState kh s so key in (upd_object a (\<lambda>_. so') s, v))"

definition sdb_HasSuicided :: "keccak \<Rightarrow> StateDB \<Rightarrow> address \<Rightarrow> StateDB \<times> bool" where
  "sdb_HasSuicided kh s a =
     (let (s, so) = getStateObject kh s a in (s, case so of None \<Rightarrow> False | Some so \<Rightarrow> suicided so))"

section \<open>Writing\<close>

definition sdb_AddBalance :: "keccak \<Rightarrow> StateDB \<Rightarrow> address \<Rightarrow> int \<Rightarrow> StateDB" where
  "sdb_AddBalance kh s a amount = obj_AddBalance kh a amount (GetOrNewStateObject kh s a)"

definition sdb_SubBalance :: "keccak \<Rightarrow> StateDB \<Rightarrow> address \<Rightarrow> int \<Rightarrow> StateDB" where
  "sdb_SubBalance kh s a amount = obj_SubBalance a amount (GetOrNewStateObject kh s a)"

definition sdb_SetBalance :: "keccak \<Rightarrow> StateDB \<Rightarrow> address \<Rightarrow> int \<Rightarrow> StateDB" where
  "sdb_SetBalance kh s a amount = obj_SetBalance a amount (GetOrNewStateObject kh s a)"

definition sdb_SetNonce :: "keccak \<Rightarrow> StateDB \<Rightarrow> address \<Rightarrow> u64 \<Rightarrow> StateDB" where
  "sdb_SetNonce kh s a nonce = obj_SetNonce a nonce (GetOrNewStateObject kh s a)"

definition sdb_SetCode :: "keccak \<Rightarrow> StateDB \<Rightarrow> address \<Rightarrow> bytes \<Rightarrow> StateDB" where
  "sdb_SetCode kh s a code = obj_SetCode kh a (kh code) code (GetOrNewStateObject kh s a)"

definition sdb_SetState :: "keccak \<Rightarrow> StateDB \<Rightarrow> address \<Rightarrow> hash \<Rightarrow> hash \<Rightarrow> StateDB" where
  "sdb_SetState kh s a key value = obj_SetState kh a key value (GetOrNewStateObject kh s a)"

definition sdb_CreateAccount :: "keccak \<Rightarrow> StateDB \<Rightarrow> address \<Rightarrow> StateDB" where
  "sdb_CreateAccount kh s a =
     (case createObject kh s a of
        (s, None) \<Rightarrow> s
      | (s, Some prev) \<Rightarrow> upd_object a (so_Balance_update (\<lambda>_. so_Balance prev)) s)"

definition sdb_Suicide :: "keccak \<Rightarrow> StateDB \<Rightarrow> address \<Rightarrow> StateDB \<times> bool" where
  "sdb_Suicide kh s a =
     (case getStateObject kh s a of
        (s, None) \<Rightarrow> (s, False)
      | (s, Some so) \<Rightarrow>
          (upd_object a (\<lambda>so. so\<lparr>suicided := True, so_Balance := 0\<rparr>)
             (journal_append (suicideChange a (suicided so) (so_Balance so)) s), True))"

definition sdb_AddRefund :: "StateDB \<Rightarrow> u64 \<Rightarrow> StateDB" where
  "sdb_AddRefund s gas = (journal_append (refundChange (s_refund s)) s)\<lparr>s_refund := s_refund s + gas\<rparr>"

definition sdb_SubRefund :: "StateDB \<Rightarrow> u64 \<Rightarrow> StateDB option" where
  "sdb_SubRefund s gas =
     (if gas > s_refund s then None
      else Some ((journal_append (refundChange (s_refund s)) s)\<lparr>s_refund := s_refund s - gas\<rparr>))"

definition sdb_AddLog :: "StateDB \<Rightarrow> log_entry \<Rightarrow> StateDB" where
  "sdb_AddLog s log =
     (let s' = journal_append (addLogChange (s_thash s)) s;
          entry = log_entry.extend log \<lparr>log_TxHash = s_thash s, log_TxIndex = s_txIndex s, log_Index = logSize s\<rparr>
      in s'\<lparr>s_logs := (s_logs s)(s_thash s := s_logs s (s_thash s) @ [entry]), logSize := logSize s + 1\<rparr>)"

definition sdb_AddPreimage :: "StateDB \<Rightarrow> hash \<Rightarrow> bytes \<Rightarrow> StateDB" where
  "sdb_AddPreimage s h preimage =
     (if s_preimages s h \<noteq> None then s
      else (journal_append (addPreimageChange h) s)\<lparr>s_preimages := (s_preimages s)(h \<mapsto> preimage)\<rparr>)"

definition sdb_AddAddressToAccessList :: "StateDB \<Rightarrow> address \<Rightarrow> StateDB" where
  "sdb_AddAddressToAccessList s a =
     (let (al, added) = AddAddress (s_accessList s) a; s = s\<lparr>s_accessList := al\<rparr>
      in if added then journal_append (accessListAddAccountChange a) s else s)"

definition sdb_AddSlotToAccessList :: "StateDB \<Rightarrow> address \<Rightarrow> hash \<Rightarrow> StateDB" where
  "sdb_AddSlotToAccessList s a slot =
     (let (al, addrMod, slotMod) = AddSlot (s_accessList s) a slot;
          s = s\<lparr>s_accessList := al\<rparr>;
          s = (if addrMod then journal_append (accessListAddAccountChange a) s else s)
      in if slotMod then journal_append (accessListAddSlotChange a slot) s else s)"

definition sdb_AddressInAccessList :: "StateDB \<Rightarrow> address \<Rightarrow> bool" where
  "sdb_AddressInAccessList s a = ContainsAddress (s_accessList s) a"

definition sdb_SlotInAccessList :: "StateDB \<Rightarrow> address \<Rightarrow> hash \<Rightarrow> bool \<times> bool" where
  "sdb_SlotInAccessList s a slot = Contains (s_accessList s) a slot"

definition sdb_PrepareAccessList ::
  "StateDB \<Rightarrow> address \<Rightarrow> address option \<Rightarrow> address list \<Rightarrow> (address \<times> hash list) list \<Rightarrow> StateDB" where
  "sdb_PrepareAccessList s sender dst precompiles txAccesses =
     (let s = s\<lparr>s_accessList := newAccessList\<rparr>;
          s = sdb_AddAddressToAccessList s sender;
          s = (case dst of None \<Rightarrow> s | Some d \<Rightarrow> sdb_AddAddressToAccessList s d);
          s = fold (\<lambda>a s. sdb_AddAddressToAccessList s a) precompiles s
      in fold (\<lambda>(a, keys) s. fold (\<lambda>key s. sdb_AddSlotToAccessList s a key) keys (sdb_AddAddressToAccessList s a)) txAccesses s)"

definition sdb_Prepare :: "StateDB \<Rightarrow> hash \<Rightarrow> nat \<Rightarrow> StateDB" where
  "sdb_Prepare s thash ti = s\<lparr>s_thash := thash, s_txIndex := ti\<rparr>"

section \<open>Undoing\<close>

definition with_object :: "keccak \<Rightarrow> StateDB \<Rightarrow> address \<Rightarrow> (stateObject \<Rightarrow> stateObject) \<Rightarrow> StateDB option" where
  "with_object kh s a f =
     (case getStateObject kh s a of (s, None) \<Rightarrow> None | (s, Some _) \<Rightarrow> Some (upd_object a f s))"

fun entry_revert :: "keccak \<Rightarrow> journalEntry \<Rightarrow> StateDB \<Rightarrow> StateDB option" where
  "entry_revert kh (createObjectChange a) s =
     Some (s\<lparr>stateObjects := (stateObjects s)(a := None), stateObjectsDirty := stateObjectsDirty s - {a}\<rparr>)"
| "entry_revert kh (resetObjectChange prev prevdestruct) s =
     (let s = setStateObject prev s
      in Some (if \<not> prevdestruct \<and> s_snap s \<noteq> None then s\<lparr>snapDestructs := snapDestructs s - {addrHash kh prev}\<rparr> else s))"
| "entry_revert kh (suicideChange a prev prevbalance) s =
     (case getStateObject kh s a of
        (s, None) \<Rightarrow> Some s
      | (s, Some _) \<Rightarrow> Some (upd_object a (\<lambda>so. so\<lparr>suicided := prev, so_Balance := prevbalance\<rparr>) s))"
| "entry_revert kh (balanceChange a prev) s = with_object kh s a (so_Balance_update (\<lambda>_. prev))"
| "entry_revert kh (nonceChange a prev) s = with_object kh s a (so_Nonce_update (\<lambda>_. prev))"
| "entry_revert kh (storageChange a key prevalue) s = with_object kh s a (obj_setState key prevalue)"
| "entry_revert kh (codeChange a prevcode prevhash) s = with_object kh s a (obj_setCode prevhash prevcode)"
| "entry_revert kh (refundChange prev) s = Some (s\<lparr>s_refund := prev\<rparr>)"
| "entry_revert kh (addLogChange txhash) s =
     (let logs = s_logs s txhash
      in if logs = [] then None
         else Some (s\<lparr>s_logs := (s_logs s)(txhash := butlast logs), logSize := logSize s - 1\<rparr>))"
| "entry_revert kh (addPreimageChange h) s = Some (s\<lparr>s_preimages := (s_preimages s)(h := None)\<rparr>)"
| "entry_revert kh (touchChange a) s = Some s"
| "entry_revert kh (accessListAddAccountChange a) s = Some (s\<lparr>s_accessList := DeleteAddress (s_accessList s) a\<rparr>)"
| "entry_revert kh (accessListAddSlotChange a slot) s =
     (case DeleteSlot (s_accessList s) a slot of None \<Rightarrow> None | Some al \<Rightarrow> Some (s\<lparr>s_accessList := al\<rparr>))"

definition undirty :: "journalEntry \<Rightarrow> StateDB \<Rightarrow> StateDB" where
  "undirty entry s =
     (case dirtied entry of None \<Rightarrow> s
      | Some a \<Rightarrow> s\<lparr>s_journal := (s_journal s)\<lparr>dirties := unmark_dirty a (dirties (s_journal s))\<rparr>\<rparr>)"

text \<open>The entries to undo, the last one first.\<close>

fun undo_entries :: "keccak \<Rightarrow> journalEntry list \<Rightarrow> StateDB \<Rightarrow> StateDB option" where
  "undo_entries kh [] s = Some s"
| "undo_entries kh (e # es) s =
     (case entry_revert kh e s of None \<Rightarrow> None | Some s \<Rightarrow> undo_entries kh es (undirty e s))"

definition journal_revert :: "keccak \<Rightarrow> StateDB \<Rightarrow> nat \<Rightarrow> StateDB option" where
  "journal_revert kh s snapshot =
     (case undo_entries kh (rev (drop snapshot (entries (s_journal s)))) s of
        None \<Rightarrow> None
      | Some t \<Rightarrow> Some (t\<lparr>s_journal := (s_journal t)\<lparr>entries := take snapshot (entries (s_journal t))\<rparr>\<rparr>))"

definition sdb_Snapshot :: "StateDB \<Rightarrow> StateDB \<times> nat" where
  "sdb_Snapshot s =
     (let id = nextRevisionId s
      in (s\<lparr>nextRevisionId := id + 1,
            validRevisions := validRevisions s @ [\<lparr>rev_id = id, rev_journalIndex = length (entries (s_journal s))\<rparr>]\<rparr>, id))"

text \<open>\<open>sort.Search\<close>: binary search for the least index at which a monotone predicate holds.\<close>

function search_loop :: "(nat \<Rightarrow> bool) \<Rightarrow> nat \<Rightarrow> nat \<Rightarrow> nat" where
  "search_loop f i j =
     (if i < j then let h = (i + j) div 2 in if \<not> f h then search_loop f (h + 1) j else search_loop f i h else i)"
  by pat_completeness auto
termination
  by (relation "measure (\<lambda>(f, i, j). j - i)") auto

declare search_loop.simps [simp del]

definition sort_Search :: "nat \<Rightarrow> (nat \<Rightarrow> bool) \<Rightarrow> nat" where
  "sort_Search n f = search_loop f 0 n"

definition sdb_RevertToSnapshot :: "keccak \<Rightarrow> StateDB \<Rightarrow> nat \<Rightarrow> StateDB option" where
  "sdb_RevertToSnapshot kh s revid =
     (let idx = sort_Search (length (validRevisions s)) (\<lambda>i. rev_id (validRevisions s ! i) \<ge> revid) in
      if idx = length (validRevisions s) \<or> rev_id (validRevisions s ! idx) \<noteq> revid then None
      else
        (case journal_revert kh s (rev_journalIndex (validRevisions s ! idx)) of
           None \<Rightarrow> None
         | Some s \<Rightarrow> Some (s\<lparr>validRevisions := take idx (validRevisions s)\<rparr>)))"

section \<open>The end of a transaction\<close>

definition finalise_object :: "keccak \<Rightarrow> bool \<Rightarrow> address \<Rightarrow> StateDB \<Rightarrow> StateDB" where
  "finalise_object kh deleteEmptyObjects a s =
     (case stateObjects s a of
        None \<Rightarrow> s
      | Some so \<Rightarrow>
          let s = (if suicided so \<or> deleteEmptyObjects \<and> obj_empty kh so
                   then let s = upd_object a (so_deleted_update (\<lambda>_. True)) s
                        in if s_snap s = None then s else s\<lparr>snapDestructs := insert (addrHash kh so) (snapDestructs s)\<rparr>
                   else upd_object a obj_finalise s)
          in s\<lparr>stateObjectsPending := insert a (stateObjectsPending s), stateObjectsDirty := insert a (stateObjectsDirty s)\<rparr>)"

definition clearJournalAndRefund :: "StateDB \<Rightarrow> StateDB" where
  "clearJournalAndRefund s =
     (let s = (if entries (s_journal s) \<noteq> [] then s\<lparr>s_journal := newJournal, s_refund := 0\<rparr> else s)
      in s\<lparr>validRevisions := []\<rparr>)"

definition sdb_Finalise :: "keccak \<Rightarrow> StateDB \<Rightarrow> bool \<Rightarrow> StateDB" where
  "sdb_Finalise kh s deleteEmptyObjects =
     clearJournalAndRefund (fold (\<lambda>(a, _) s. finalise_object kh deleteEmptyObjects a s) (dirties (s_journal s)) s)"

definition sdb_Copy :: "StateDB \<Rightarrow> StateDB" where
  "sdb_Copy s =
     (let dirty = {a \<in> fst ` set (dirties (s_journal s)). stateObjects s a \<noteq> None};
          copied = dirty \<union> stateObjectsPending s \<union> stateObjectsDirty s
      in s\<lparr>stateObjects := (\<lambda>a. if a \<in> copied then map_option deepCopy (stateObjects s a) else None),
           stateObjectsPending := dirty \<union> stateObjectsPending s, stateObjectsDirty := dirty \<union> stateObjectsDirty s,
           s_thash := 0, s_txIndex := 0, s_journal := newJournal, validRevisions := [], nextRevisionId := 0\<rparr>)"

end
