(* ===== verification/Revert.thy ===== *)
theory Revert
  imports Journal
begin

text \<open>
  What a caller sees of the journaled state, and that reverting to a snapshot restores it: the caches that
  reads fill, the dirty marks on reverted entries and the journal itself are not visible.
\<close>

section \<open>What is visible\<close>

record account =
  ac_Nonce :: u64
  ac_Balance :: int
  ac_Root :: hash
  ac_CodeHash :: hash
  ac_Code :: bytes
  ac_State :: "hash \<Rightarrow> hash"
  ac_Committed :: "hash \<Rightarrow> hash"
  ac_fake :: bool
  ac_suicided :: bool
  ac_deleted :: bool

definition account :: "keccak \<Rightarrow> StateDB \<Rightarrow> stateObject \<Rightarrow> account" where
  "account kh s so = \<lparr>ac_Nonce = so_Nonce so, ac_Balance = so_Balance so, ac_Root = so_Root so, ac_CodeHash = so_CodeHash so,
     ac_Code = snd (obj_Code kh s so), ac_State = (\<lambda>k. snd (obj_GetState kh s so k)),
     ac_Committed = (\<lambda>k. snd (obj_GetCommittedState kh s so k)), ac_fake = (fakeStorage so \<noteq> None),
     ac_suicided = suicided so, ac_deleted = so_deleted so\<rparr>"

definition look :: "keccak \<Rightarrow> StateDB \<Rightarrow> address \<Rightarrow> stateObject option" where
  "look kh s a = (case stateObjects s a of Some so \<Rightarrow> Some so | None \<Rightarrow> map_option (newObject kh a) (loadAccount kh s a))"

definition accounts :: "keccak \<Rightarrow> StateDB \<Rightarrow> address \<Rightarrow> account option" where
  "accounts kh s a = map_option (account kh s) (look kh s a)"

definition rest :: "StateDB \<Rightarrow> StateDB" where
  "rest s = s\<lparr>stateObjects := Map.empty, s_journal := newJournal, validRevisions := [], nextRevisionId := 0\<rparr>"

definition same :: "keccak \<Rightarrow> StateDB \<Rightarrow> StateDB \<Rightarrow> bool" where
  "same kh s t \<longleftrightarrow> rest s = rest t \<and> accounts kh s = accounts kh t"

lemma same_refl [simp]: "same kh s s"
  by (simp add: same_def)

lemma same_sym: "same kh s t \<Longrightarrow> same kh t s"
  by (simp add: same_def)

lemma same_trans [trans]: "same kh s t \<Longrightarrow> same kh t u \<Longrightarrow> same kh s u"
  by (simp add: same_def)

lemma rest_eq:
  "rest s = rest t \<longleftrightarrow> s_db s = s_db t \<and> s_snap s = s_snap t \<and> snapDestructs s = snapDestructs t \<and>
     stateObjectsPending s = stateObjectsPending t \<and> stateObjectsDirty s = stateObjectsDirty t \<and> s_refund s = s_refund t \<and>
     s_thash s = s_thash t \<and> s_txIndex s = s_txIndex t \<and> s_logs s = s_logs t \<and> logSize s = logSize t \<and>
     s_preimages s = s_preimages t \<and> s_accessList s = s_accessList t"
  by (cases s, cases t) (auto simp: rest_def)

text \<open>The backend of a state: what its objects are read from.\<close>

definition backend :: "StateDB \<Rightarrow> database \<times> snapshot_layer option \<times> hash set" where
  "backend s = (s_db s, s_snap s, snapDestructs s)"

lemma account_backend:
  assumes "backend s = backend t"
  shows "account kh s = account kh t"
proof -
  have b: "s_db s = s_db t" "s_snap s = s_snap t" "snapDestructs s = snapDestructs t" using assms by (simp_all add: backend_def)
  have "obj_GetCommittedState kh s so k = obj_GetCommittedState kh t so k" for so k
    by (auto simp: obj_GetCommittedState_def readStorage_def b Let_def split: option.split)
  then have "obj_GetState kh s so k = obj_GetState kh t so k" "obj_GetCommittedState kh s so k = obj_GetCommittedState kh t so k" for so k
    by (auto simp: obj_GetState_def split: option.split)
  then show ?thesis by (intro ext) (simp add: account_def obj_Code_def b split: option.split)
qed

lemma loadAccount_backend: "s_db s = s_db t \<Longrightarrow> s_snap s = s_snap t \<Longrightarrow> loadAccount kh s = loadAccount kh t"
  by (rule ext) (simp add: loadAccount_def split: option.split)

lemma same_backend: "rest s = rest t \<Longrightarrow> backend s = backend t"
  by (simp add: rest_eq backend_def)

text \<open>Marks of destruction of one account do not change what is read of another.\<close>

lemma account_env:
  assumes "s_db t = s_db s" "s_snap t = s_snap s" "s_snap s = None \<or> (addrHash kh so \<in> snapDestructs t \<longleftrightarrow> addrHash kh so \<in> snapDestructs s)"
  shows "account kh t so = account kh s so"
proof -
  have "obj_GetCommittedState kh t so k = obj_GetCommittedState kh s so k" for k
    using assms(3) by (auto simp: obj_GetCommittedState_def readStorage_def assms(1,2) Let_def split: option.split)
  then have "obj_GetState kh t so k = obj_GetState kh s so k" "obj_GetCommittedState kh t so k = obj_GetCommittedState kh s so k" for k
    by (auto simp: obj_GetState_def split: option.split)
  then show ?thesis by (simp add: account_def obj_Code_def assms split: option.split)
qed

lemma account_destructs:
  assumes "s_snap s = None \<or> addrHash kh so \<noteq> h"
  shows "account kh (s\<lparr>snapDestructs := insert h (snapDestructs s)\<rparr>) so = account kh s so"
    and "account kh (s\<lparr>snapDestructs := snapDestructs s - {h}\<rparr>) so = account kh s so"
  by (rule account_env, use assms in auto)+

section \<open>Well-formed states\<close>

definition al_ok :: "accessList \<Rightarrow> bool" where
  "al_ok al \<longleftrightarrow> (\<forall>a idx. al_addresses al a = Some idx \<longrightarrow>
     idx = -1 \<or> 0 \<le> idx \<and> idx < int (length (al_slots al)) \<and> al_slots al ! nat idx \<noteq> {})"

definition count_dirty :: "journalEntry list \<Rightarrow> address \<Rightarrow> nat" where
  "count_dirty es a = length (filter (\<lambda>e. dirtied e = Some a) es)"

definition dirties_ok :: "journalEntry list \<Rightarrow> (address \<times> int) list \<Rightarrow> bool" where
  "dirties_ok es d \<longleftrightarrow> (\<forall>a. a \<noteq> ripemd \<longrightarrow>
     map_of d a = (if count_dirty es a = 0 then None else Some (int (count_dirty es a))))"

definition objects_ok :: "keccak \<Rightarrow> StateDB \<Rightarrow> bool" where
  "objects_ok kh s \<longleftrightarrow> (\<forall>a so. stateObjects s a = Some so \<longrightarrow> so_address so = a) \<and> stateObjectsDirty s \<subseteq> dom (stateObjects s) \<and>
     (s_snap s = None \<or> inj (\<lambda>a. kh (addr_bytes a)))"

definition revisions_ok :: "StateDB \<Rightarrow> bool" where
  "revisions_ok s \<longleftrightarrow> sorted_wrt (\<lambda>r q. rev_id r < rev_id q \<and> rev_journalIndex r \<le> rev_journalIndex q) (validRevisions s) \<and>
     (\<forall>r \<in> set (validRevisions s). rev_id r < nextRevisionId s \<and> rev_journalIndex r \<le> length (entries (s_journal s)))"

lemma look_address: "objects_ok kh s \<Longrightarrow> look kh s a = Some so \<Longrightarrow> so_address so = a"
  by (auto simp: look_def objects_ok_def newObject_def split: option.splits)

section \<open>Loading is not visible\<close>

lemma accounts_load:
  assumes "getDeletedStateObject kh s a = (s', r)"
  shows "r = look kh s a" "accounts kh s' = accounts kh s" "rest s' = rest s" "s_journal s' = s_journal s"
    "validRevisions s' = validRevisions s" "nextRevisionId s' = nextRevisionId s" "stateObjects s' a = r"
    "objects_ok kh s \<Longrightarrow> objects_ok kh s'"
proof -
  have c: "s' = s \<and> r = stateObjects s a \<and> r = look kh s a \<or>
      stateObjects s a = None \<and> (\<exists>data. loadAccount kh s a = Some data \<and> r = Some (newObject kh a data) \<and> s' = setStateObject (newObject kh a data) s)"
    using assms by (auto simp: getDeletedStateObject_def look_def Let_def split: option.splits)
  have addr: "so_address (newObject kh a data) = a" for data by (simp add: newObject_def)
  have look: "look kh (setStateObject (newObject kh a data) s) = look kh s" if "stateObjects s a = None" "loadAccount kh s a = Some data" for data
    using that loadAccount_backend [of "setStateObject (newObject kh a data) s" s kh]
    by (auto simp: look_def setStateObject_def addr intro!: ext split: option.split)
  have acc: "account kh (setStateObject so s) = account kh s" for so
    by (rule account_backend) (simp add: backend_def setStateObject_def)
  show "r = look kh s a" using c by (auto simp: look_def)
  show "accounts kh s' = accounts kh s" using c look acc by (auto simp: accounts_def)
  show "rest s' = rest s" "s_journal s' = s_journal s" "validRevisions s' = validRevisions s" "nextRevisionId s' = nextRevisionId s"
    using c by (auto simp: setStateObject_def rest_def)
  show "stateObjects s' a = r" using c by (auto simp: setStateObject_def addr)
  show "objects_ok kh s \<Longrightarrow> objects_ok kh s'" using c by (auto simp: objects_ok_def setStateObject_def addr split: if_splits)
qed

lemma getStateObject_eq:
  "getStateObject kh s a = (case getDeletedStateObject kh s a of (s', r) \<Rightarrow>
     (s', case r of None \<Rightarrow> None | Some so \<Rightarrow> if so_deleted so then None else Some so))"
  by (auto simp: getStateObject_def split: prod.split option.split)

lemma accounts_get:
  assumes "getStateObject kh s a = (s', r)"
  shows "r = (case look kh s a of None \<Rightarrow> None | Some so \<Rightarrow> if so_deleted so then None else Some so)"
    "accounts kh s' = accounts kh s" "rest s' = rest s" "s_journal s' = s_journal s"
    "validRevisions s' = validRevisions s" "nextRevisionId s' = nextRevisionId s"
    "stateObjects s' a = look kh s a" "objects_ok kh s \<Longrightarrow> objects_ok kh s'"
proof -
  obtain q where q: "getDeletedStateObject kh s a = (s', q)" "r = (case q of None \<Rightarrow> None | Some so \<Rightarrow> if so_deleted so then None else Some so)"
    using assms by (auto simp: getStateObject_eq split: prod.splits)
  note l = accounts_load [OF q(1)]
  show "r = (case look kh s a of None \<Rightarrow> None | Some so \<Rightarrow> if so_deleted so then None else Some so)"
    "accounts kh s' = accounts kh s" "rest s' = rest s" "s_journal s' = s_journal s"
    "validRevisions s' = validRevisions s" "nextRevisionId s' = nextRevisionId s"
    "stateObjects s' a = look kh s a" "objects_ok kh s \<Longrightarrow> objects_ok kh s'"
    using l q(2) by simp_all
qed

section \<open>Changing an object\<close>

lemma account_fields:
  "account kh s (so_Balance_update (\<lambda>_. x) so) = (account kh s so)\<lparr>ac_Balance := x\<rparr>"
  "account kh s (so_Nonce_update (\<lambda>_. n) so) = (account kh s so)\<lparr>ac_Nonce := n\<rparr>"
  "account kh s (suicided_update (\<lambda>_. b) so) = (account kh s so)\<lparr>ac_suicided := b\<rparr>"
  "account kh s (so_deleted_update (\<lambda>_. b) so) = (account kh s so)\<lparr>ac_deleted := b\<rparr>"
  "account kh s (obj_setCode h c so) = (account kh s so)\<lparr>ac_CodeHash := h, ac_Code := c\<rparr>"
  by (auto simp: account_def obj_setCode_def obj_Code_def obj_GetState_def obj_GetCommittedState_def readStorage_def addrHash_def Let_def
      split: option.split intro!: ext)

lemma account_setState:
  "fakeStorage so = None \<Longrightarrow> account kh s (obj_setState k v so) = (account kh s so)\<lparr>ac_State := (ac_State (account kh s so))(k := v)\<rparr>"
  by (auto simp: account_def obj_setState_def obj_Code_def obj_GetState_def obj_GetCommittedState_def readStorage_def addrHash_def Let_def
      split: option.split intro!: ext)

lemma readStorage_cong: "so_address so = so_address so' \<Longrightarrow> so_Root so = so_Root so' \<Longrightarrow> readStorage kh s so k = readStorage kh s so' k"
  by (auto simp: readStorage_def addrHash_def Let_def split: option.split)

lemma account_origin:
  assumes "pendingStorage so k = None" "originStorage so k = None" "\<not> (s_snap s \<noteq> None \<and> addrHash kh so \<in> snapDestructs s)"
  shows "account kh s (so\<lparr>originStorage := (originStorage so)(k \<mapsto> readStorage kh s so k)\<rparr>) = account kh s so"
proof -
  let ?so = "so\<lparr>originStorage := (originStorage so)(k \<mapsto> readStorage kh s so k)\<rparr>"
  have h: "addrHash kh ?so = addrHash kh so" "readStorage kh s ?so j = readStorage kh s so j" for j
    by (simp_all add: addrHash_def readStorage_cong [of ?so so])
  have c: "snd (obj_GetCommittedState kh s ?so j) = snd (obj_GetCommittedState kh s so j)" for j
    using assms by (cases "j = k"; cases "fakeStorage so"; cases "pendingStorage so j")
      (auto simp: obj_GetCommittedState_def h Let_def split: option.split)
  then have "snd (obj_GetState kh s ?so j) = snd (obj_GetState kh s so j)" for j
    by (cases "fakeStorage so"; cases "dirtyStorage so j") (simp_all add: obj_GetState_def)
  moreover have "snd (obj_Code kh s ?so) = snd (obj_Code kh s so)" by (cases "so_code so") (simp_all add: obj_Code_def Let_def)
  ultimately show ?thesis using c by (simp add: account_def)
qed

lemma account_code:
  "account kh s (fst (obj_Code kh s so)) = account kh s so"
proof (cases "so_code so = None \<and> so_CodeHash so \<noteq> emptyCodeHash kh")
  case True
  let ?so = "so\<lparr>so_code := Some (db_Code (s_db s) (so_CodeHash so))\<rparr>"
  have h: "addrHash kh ?so = addrHash kh so" "readStorage kh s ?so j = readStorage kh s so j" for j
    by (simp_all add: addrHash_def readStorage_cong [of ?so so])
  have c: "snd (obj_GetCommittedState kh s ?so j) = snd (obj_GetCommittedState kh s so j)" for j
    by (cases "fakeStorage so"; cases "pendingStorage so j"; cases "originStorage so j") (simp_all add: obj_GetCommittedState_def h Let_def)
  then have "snd (obj_GetState kh s ?so j) = snd (obj_GetState kh s so j)" for j
    by (cases "fakeStorage so"; cases "dirtyStorage so j") (simp_all add: obj_GetState_def)
  then show ?thesis using True c by (simp add: account_def obj_Code_def Let_def)
qed (auto simp: obj_Code_def split: option.split)

lemma account_cached:
  "account kh s (fst (obj_GetCommittedState kh s so k)) = account kh s so"
  "account kh s (fst (obj_GetState kh s so k)) = account kh s so"
proof -
  show c: "account kh s (fst (obj_GetCommittedState kh s so k)) = account kh s so"
    using account_origin [of so k s kh]
    by (cases "fakeStorage so"; cases "pendingStorage so k"; cases "originStorage so k") (simp_all add: obj_GetCommittedState_def Let_def)
  then show "account kh s (fst (obj_GetState kh s so k)) = account kh s so"
    by (cases "fakeStorage so"; cases "dirtyStorage so k") (simp_all add: obj_GetState_def)
qed

lemma address_methods [simp]:
  "so_address (obj_setCode h c so) = so_address so" "so_address (obj_setState k v so) = so_address so"
  "so_address (fst (obj_GetState kh s so k)) = so_address so" "so_address (fst (obj_GetCommittedState kh s so k)) = so_address so"
  "so_address (fst (obj_Code kh s so)) = so_address so" "so_address (newObject kh a data) = a" "so_address (obj_finalise so) = so_address so"
  "so_address (deepCopy so) = so_address so"
  by (auto simp: obj_setCode_def obj_setState_def obj_GetState_def obj_GetCommittedState_def obj_Code_def newObject_def obj_finalise_def
      deepCopy_def Let_def split: option.split)

lemma rest_upd [simp]:
  "rest (upd_object a f s) = rest s" "rest (journal_append e s) = rest s" "rest (journal_dirty a s) = rest s"
  "rest (setStateObject so s) = rest s" "rest (undirty e s) = rest s"
  by (simp_all add: upd_object_def rest_def journal_append_def journal_dirty_def setStateObject_def undirty_def split: option.split)

lemma account_upd [simp]:
  "account kh (upd_object a f s) = account kh s" "account kh (journal_append e s) = account kh s" "account kh (journal_dirty a s) = account kh s"
  "account kh (setStateObject so s) = account kh s" "account kh (undirty e s) = account kh s"
  by (rule account_backend, rule same_backend, simp)+

lemma look_upd [simp]:
  "look kh (journal_append e s) = look kh s" "look kh (journal_dirty a s) = look kh s" "look kh (undirty e s) = look kh s"
  by (auto simp: look_def journal_append_def journal_dirty_def undirty_def loadAccount_def intro!: ext split: option.split)

lemma accounts_append [simp]:
  "accounts kh (journal_append e s) = accounts kh s" "accounts kh (journal_dirty a s) = accounts kh s" "accounts kh (undirty e s) = accounts kh s"
  by (rule ext, simp add: accounts_def)+

lemma accounts_upd_object:
  assumes "stateObjects s a = Some so"
  shows "accounts kh (upd_object a f s) = (accounts kh s)(a \<mapsto> account kh s (f so))"
proof -
  have "look kh (upd_object a f s) b = (if b = a then Some (f so) else look kh s b)" for b
    using assms by (auto simp: look_def upd_object_def loadAccount_def split: option.split)
  then show ?thesis by (auto simp: accounts_def)
qed

lemma accounts_same_object:
  assumes "stateObjects s a = Some so" and "account kh s (f so) = account kh s so"
  shows "accounts kh (upd_object a f s) = accounts kh s"
proof -
  have "accounts kh s a = Some (account kh s so)" using assms(1) by (simp add: accounts_def look_def)
  then show ?thesis using assms by (auto simp: accounts_upd_object)
qed

lemma accounts_setStateObject:
  "accounts kh (setStateObject so s) = (accounts kh s)(so_address so \<mapsto> account kh s so)"
proof -
  have "look kh (setStateObject so s) b = (if b = so_address so then Some so else look kh s b)" for b
    by (auto simp: look_def setStateObject_def loadAccount_def split: option.split)
  then show ?thesis by (auto simp: accounts_def)
qed

lemma objects_upd:
  "objects_ok kh s \<Longrightarrow> (\<And>so. so_address (f so) = so_address so) \<Longrightarrow> objects_ok kh (upd_object a f s)"
  "objects_ok kh s \<Longrightarrow> objects_ok kh (journal_append e s)" "objects_ok kh s \<Longrightarrow> objects_ok kh (journal_dirty a s)"
  "objects_ok kh s \<Longrightarrow> objects_ok kh (undirty e s)" "objects_ok kh s \<Longrightarrow> objects_ok kh (setStateObject so s)"
  by (auto simp: objects_ok_def upd_object_def journal_append_def journal_dirty_def undirty_def setStateObject_def
      split: if_splits option.splits)

section \<open>Undoing respects what is visible\<close>

lemma with_object_cases:
  obtains (none) "with_object kh s a f = None" "case accounts kh s a of None \<Rightarrow> True | Some ac \<Rightarrow> ac_deleted ac"
  | (some) so s' where "with_object kh s a f = Some s'" "look kh s a = Some so" "\<not> so_deleted so"
      "accounts kh s' = (accounts kh s)(a \<mapsto> account kh s (f so))" "rest s' = rest s" "s_journal s' = s_journal s"
      "validRevisions s' = validRevisions s" "nextRevisionId s' = nextRevisionId s"
      "objects_ok kh s \<Longrightarrow> (\<And>so. so_address (f so) = so_address so) \<Longrightarrow> objects_ok kh s'"
proof -
  obtain s1 r where g: "getStateObject kh s a = (s1, r)" by (cases "getStateObject kh s a")
  note l = accounts_get [OF g]
  show thesis
  proof (cases r)
    case None
    then have "with_object kh s a f = None" by (simp add: with_object_def g)
    moreover have "case accounts kh s a of None \<Rightarrow> True | Some ac \<Rightarrow> ac_deleted ac"
      using None l(1) by (auto simp: accounts_def account_def split: option.splits if_splits)
    ultimately show thesis by (rule none)
  next
    case (Some so)
    have lk: "look kh s a = Some so" "\<not> so_deleted so" using Some l(1) by (auto split: option.splits if_splits)
    have so: "stateObjects s1 a = Some so" using l(7) lk(1) by simp
    have b: "account kh s1 = account kh s" by (rule account_backend [OF same_backend [OF l(3)]])
    show thesis
    proof (rule some [of "upd_object a f s1" so])
      show "with_object kh s a f = Some (upd_object a f s1)" by (simp add: with_object_def g Some)
      show "accounts kh (upd_object a f s1) = (accounts kh s)(a \<mapsto> account kh s (f so))"
        using accounts_upd_object [OF so, of kh f] l(2) b by simp
      show "objects_ok kh (upd_object a f s1)" if "objects_ok kh s" "\<And>so. so_address (f so) = so_address so"
        using objects_upd(1) [OF l(8) that(2)] that(1) by blast
    qed (use lk l in \<open>simp_all add: upd_object_def rest_def\<close>)
  qed
qed

lemma with_object_same:
  assumes st: "same kh s t" and g: "\<And>s so. account kh s (f so) = g (account kh s so)"
  shows "rel_option (same kh) (with_object kh s a f) (with_object kh t a f)"
proof -
  have acc: "accounts kh s = accounts kh t" and r: "rest s = rest t" using st by (simp_all add: same_def)
  show ?thesis
  proof (cases rule: with_object_cases [of kh s a f])
    case none
    then show ?thesis
    proof (cases rule: with_object_cases [of kh t a f])
      case (some so s')
      then show ?thesis using none(2) acc by (simp add: accounts_def account_def)
    qed simp
  next
    case (some so s')
    note s = this
    then have a: "accounts kh s a = Some (account kh s so)" "\<not> ac_deleted (account kh s so)" by (simp_all add: accounts_def account_def)
    then show ?thesis
    proof (cases rule: with_object_cases [of kh t a f])
      case none
      then show ?thesis using a acc by simp
    next
      case (some so2 t')
      have "account kh s so = account kh t so2" using a(1) acc some(2) by (simp add: accounts_def)
      then show ?thesis using s some acc r by (simp add: same_def g)
    qed
  qed
qed

lemma account_setState_fun:
  "account kh s (obj_setState k v so) =
    (let ac = account kh s so in if ac_fake ac then ac else ac\<lparr>ac_State := (ac_State ac)(k := v)\<rparr>)"
proof (cases "fakeStorage so")
  case None
  then show ?thesis using account_setState [OF None, of kh s k v] by (simp add: Let_def account_def)
next
  case (Some f)
  then show ?thesis
    by (simp add: account_def obj_setState_def obj_GetState_def obj_GetCommittedState_def obj_Code_def Let_def split: option.split)
qed

lemma addrHash_distinct:
  assumes "objects_ok kh s" and "look kh s b = Some so" and "b \<noteq> so_address p"
  shows "s_snap s = None \<or> addrHash kh so \<noteq> addrHash kh p"
  using assms look_address [OF assms(1,2)] by (auto simp: addrHash_def objects_ok_def inj_def)

lemma accounts_destructs:
  assumes "objects_ok kh s" and "s' = s\<lparr>snapDestructs := insert (addrHash kh p) (snapDestructs s)\<rparr> \<or> s' = s\<lparr>snapDestructs := snapDestructs s - {addrHash kh p}\<rparr>"
  shows "accounts kh s' = (accounts kh s)(so_address p := map_option (account kh s') (look kh s (so_address p)))"
proof (rule ext)
  fix b
  have look: "look kh s' = look kh s" using assms(2) by (auto simp: look_def loadAccount_def intro!: ext split: option.split)
  show "accounts kh s' b = ((accounts kh s)(so_address p := map_option (account kh s') (look kh s (so_address p)))) b"
  proof (cases "b = so_address p \<or> look kh s b = None")
    case False
    then obtain so where so: "look kh s b = Some so" "b \<noteq> so_address p" by auto
    have "account kh s' so = account kh s so"
      using assms(2) account_destructs [OF addrHash_distinct [OF assms(1) so]] by auto
    then show ?thesis using so look by (simp add: accounts_def)
  qed (auto simp: accounts_def look)
qed

lemma objects_destructs: "objects_ok kh s \<Longrightarrow> objects_ok kh (s\<lparr>snapDestructs := D\<rparr>)"
  by (simp add: objects_ok_def)


lemma same_update:
  assumes "same kh s t" and "rest (f s) = rest (f t)" and "accounts kh (f s) = accounts kh s" and "accounts kh (f t) = accounts kh t"
  shows "same kh (f s) (f t)"
  using assms by (simp add: same_def)

lemma accounts_other_fields [simp]:
  "accounts kh (s\<lparr>s_refund := x\<rparr>) = accounts kh s" "accounts kh (s\<lparr>s_logs := y, logSize := n\<rparr>) = accounts kh s"
  "accounts kh (s\<lparr>s_preimages := z\<rparr>) = accounts kh s" "accounts kh (s\<lparr>s_accessList := al\<rparr>) = accounts kh s"
  "accounts kh (s\<lparr>s_journal := j\<rparr>) = accounts kh s" "accounts kh (s\<lparr>validRevisions := v\<rparr>) = accounts kh s"
  "accounts kh (s\<lparr>nextRevisionId := m\<rparr>) = accounts kh s" "accounts kh (s\<lparr>stateObjectsDirty := A\<rparr>) = accounts kh s"
  "accounts kh (s\<lparr>stateObjectsPending := A\<rparr>) = accounts kh s" "accounts kh (s\<lparr>s_refund := x, s_journal := j\<rparr>) = accounts kh s"
  by (rule ext, simp add: accounts_def look_def loadAccount_def account_backend [of "s\<lparr>s_refund := x\<rparr>" s] account_backend [of "s\<lparr>s_logs := y, logSize := n\<rparr>" s]
      account_backend [of "s\<lparr>s_preimages := z\<rparr>" s] account_backend [of "s\<lparr>s_accessList := al\<rparr>" s]
      account_backend [of "s\<lparr>s_journal := j\<rparr>" s] account_backend [of "s\<lparr>validRevisions := v\<rparr>" s]
      account_backend [of "s\<lparr>nextRevisionId := m\<rparr>" s] account_backend [of "s\<lparr>stateObjectsDirty := A\<rparr>" s]
      account_backend [of "s\<lparr>stateObjectsPending := A\<rparr>" s] account_backend [of "s\<lparr>s_refund := x, s_journal := j\<rparr>" s]
      backend_def split: option.split)+

lemma accounts_forget:
  "accounts kh (s\<lparr>stateObjects := (stateObjects s)(a := None), stateObjectsDirty := B\<rparr>) =
    (accounts kh s)(a := map_option (\<lambda>d. account kh s (newObject kh a d)) (loadAccount kh s a))"
proof -
  let ?s = "s\<lparr>stateObjects := (stateObjects s)(a := None), stateObjectsDirty := B\<rparr>"
  have "account kh ?s = account kh s" by (rule account_backend) (simp add: backend_def)
  moreover have "look kh ?s b = (if b = a then map_option (newObject kh a) (loadAccount kh s a) else look kh s b)" for b
    by (auto simp: look_def loadAccount_def split: option.split)
  ultimately show ?thesis by (intro ext) (simp add: accounts_def option.map_comp o_def del: accounts_other_fields)
qed

lemma reset_same:
  assumes "same kh s t" and "objects_ok kh s" and "objects_ok kh t"
  shows "rel_option (same kh) (entry_revert kh (resetObjectChange p b) s) (entry_revert kh (resetObjectChange p b) t)"
proof -
  let ?s = "setStateObject p s" and ?t = "setStateObject p t"
  have r: "rest s = rest t" and acc: "accounts kh s = accounts kh t" using assms(1) by (simp_all add: same_def)
  have b: "account kh s = account kh t" by (rule account_backend [OF same_backend [OF r]])
  have st: "same kh ?s ?t" using b r acc by (simp add: same_def accounts_setStateObject)
  have snap: "s_snap ?s = s_snap ?t" using r by (simp add: rest_eq setStateObject_def)
  show ?thesis
  proof (cases "\<not> b \<and> s_snap ?s \<noteq> None")
    case True
    let ?d = "\<lambda>s. s\<lparr>snapDestructs := snapDestructs s - {addrHash kh p}\<rparr>"
    have o: "objects_ok kh ?s" "objects_ok kh ?t" using assms(2,3) by (simp_all add: objects_upd)
    have r': "rest (?d ?s) = rest (?d ?t)" using r by (simp add: rest_eq setStateObject_def)
    have "look kh ?s (so_address p) = look kh ?t (so_address p)" by (simp add: look_def setStateObject_def)
    moreover have "account kh (?d ?s) = account kh (?d ?t)" by (rule account_backend [OF same_backend [OF r']])
    ultimately have "accounts kh (?d ?s) = accounts kh (?d ?t)"
      using accounts_destructs [OF o(1), of "?d ?s" p] accounts_destructs [OF o(2), of "?d ?t" p] st by (simp add: same_def)
    then have "same kh (?d ?s) (?d ?t)" using r' by (simp add: same_def)
    then show ?thesis using True snap by (simp add: Let_def)
  next
    case False
    then show ?thesis using st snap by (auto simp: Let_def)
  qed
qed

lemma suicide_revert_eq:
  "entry_revert kh (suicideChange a p x) s =
    (case with_object kh s a (\<lambda>so. so\<lparr>suicided := p, so_Balance := x\<rparr>) of None \<Rightarrow> Some (fst (getStateObject kh s a)) | Some s' \<Rightarrow> Some s')"
  by (auto simp: with_object_def split: prod.split option.split)

lemma suicide_same:
  assumes "same kh s t"
  shows "rel_option (same kh) (entry_revert kh (suicideChange a p x) s) (entry_revert kh (suicideChange a p x) t)"
proof -
  let ?f = "\<lambda>so. so\<lparr>suicided := p, so_Balance := x\<rparr>"
  have f: "account kh s (?f so) = (account kh s so)\<lparr>ac_suicided := p, ac_Balance := x\<rparr>" for s so
    using account_fields(1) [of kh s x "so\<lparr>suicided := p\<rparr>"] account_fields(3) [of kh s p so] by simp
  have "same kh (fst (getStateObject kh s a)) (fst (getStateObject kh t a))"
    using assms accounts_get [of kh s a] accounts_get [of kh t a] by (auto simp: same_def fst_def split: prod.split)
  then show ?thesis
    using with_object_same [OF assms, of ?f "\<lambda>ac. ac\<lparr>ac_suicided := p, ac_Balance := x\<rparr>" a, OF f]
    by (auto simp: suicide_revert_eq simp del: entry_revert.simps split: option.splits)
qed

lemma entry_revert_same:
  assumes "same kh s t" and "objects_ok kh s" and "objects_ok kh t"
  shows "rel_option (same kh) (entry_revert kh e s) (entry_revert kh e t)"
proof (cases e)
  case (createObjectChange a)
  have r: "rest s = rest t" and acc: "accounts kh s = accounts kh t" using assms(1) by (simp_all add: same_def)
  have "loadAccount kh s = loadAccount kh t" using r by (intro loadAccount_backend) (simp_all add: rest_eq)
  moreover have "account kh s = account kh t" by (rule account_backend [OF same_backend [OF r]])
  ultimately show ?thesis
    using r acc by (simp add: createObjectChange same_def accounts_forget del: accounts_other_fields) (simp add: rest_eq)
next
  case (resetObjectChange p b)
  then show ?thesis using reset_same [OF assms] by simp
next
  case (suicideChange a p x)
  then show ?thesis using suicide_same [OF assms(1)] by simp
next
  case (balanceChange a x)
  then show ?thesis using with_object_same [OF assms(1), of "so_Balance_update (\<lambda>_. x)" "ac_Balance_update (\<lambda>_. x)"] by (simp add: account_fields)
next
  case (nonceChange a n)
  then show ?thesis using with_object_same [OF assms(1), of "so_Nonce_update (\<lambda>_. n)" "ac_Nonce_update (\<lambda>_. n)"] by (simp add: account_fields)
next
  case (storageChange a k v)
  then show ?thesis
    using with_object_same [OF assms(1), of "obj_setState k v" "\<lambda>ac. if ac_fake ac then ac else ac\<lparr>ac_State := (ac_State ac)(k := v)\<rparr>"]
    by (simp add: account_setState_fun Let_def)
next
  case (codeChange a c h)
  then show ?thesis
    using with_object_same [OF assms(1), of "obj_setCode h c" "\<lambda>ac. ac\<lparr>ac_CodeHash := h, ac_Code := c\<rparr>"] by (simp add: account_fields)
qed (use assms(1) in \<open>auto simp: same_def rest_eq Let_def split: option.split\<close>)

lemma entry_revert_ok:
  assumes "entry_revert kh e s = Some t"
  shows "objects_ok kh s \<Longrightarrow> objects_ok kh t" "s_journal t = s_journal s" "validRevisions t = validRevisions s" "nextRevisionId t = nextRevisionId s"
proof -
  have w: "(objects_ok kh s \<longrightarrow> objects_ok kh t) \<and> s_journal t = s_journal s \<and> validRevisions t = validRevisions s \<and> nextRevisionId t = nextRevisionId s"
    if "with_object kh s a f = Some t" "\<And>so. so_address (f so) = so_address so" for a f
    using that by (cases rule: with_object_cases [of kh s a f]) auto
  have "(objects_ok kh s \<longrightarrow> objects_ok kh t) \<and> s_journal t = s_journal s \<and> validRevisions t = validRevisions s \<and> nextRevisionId t = nextRevisionId s"
  proof (cases e)
    case (createObjectChange a)
    then show ?thesis using assms by (auto simp: objects_ok_def split: if_splits)
  next
    case (resetObjectChange p b)
    then show ?thesis
      using assms objects_upd(5) [of kh s p] objects_destructs [of kh "setStateObject p s"]
      by (auto simp: Let_def setStateObject_def split: if_splits)
  next
    case (suicideChange a p x)
    then show ?thesis
      using assms accounts_get [of kh s a] w [of a "\<lambda>so. so\<lparr>suicided := p, so_Balance := x\<rparr>"]
      by (auto simp: suicide_revert_eq fst_def simp del: entry_revert.simps split: option.splits prod.splits)
  next
    case (balanceChange a x)
    then show ?thesis using assms w [of a "so_Balance_update (\<lambda>_. x)"] by simp
  next
    case (nonceChange a n)
    then show ?thesis using assms w [of a "so_Nonce_update (\<lambda>_. n)"] by simp
  next
    case (storageChange a k v)
    then show ?thesis using assms w [of a "obj_setState k v"] by simp
  next
    case (codeChange a c h)
    then show ?thesis using assms w [of a "obj_setCode h c"] by simp
  qed (use assms in \<open>auto simp: Let_def objects_ok_def split: option.splits if_splits\<close>)
  then show "objects_ok kh s \<Longrightarrow> objects_ok kh t" "s_journal t = s_journal s" "validRevisions t = validRevisions s" "nextRevisionId t = nextRevisionId s"
    by simp_all
qed

lemma undo_entries_append:
  "undo_entries kh (es @ fs) s = (case undo_entries kh es s of None \<Rightarrow> None | Some t \<Rightarrow> undo_entries kh fs t)"
  by (induction es arbitrary: s) (simp_all split: option.split)

lemma same_undirty: "same kh s t \<Longrightarrow> same kh (undirty e s) (undirty e t)"
  by (simp add: same_def)

lemma undo_entries_ok:
  "undo_entries kh es s = Some t \<Longrightarrow> objects_ok kh s \<Longrightarrow> objects_ok kh t"
  "undo_entries kh es s = Some t \<Longrightarrow> entries (s_journal t) = entries (s_journal s) \<and> validRevisions t = validRevisions s \<and> nextRevisionId t = nextRevisionId s"
proof (induction es arbitrary: s)
  case (Cons e es)
  {
    case 1
    then obtain s1 where "entry_revert kh e s = Some s1" "undo_entries kh es (undirty e s1) = Some t" by (auto split: option.splits)
    then show ?case using Cons.IH(1) 1(2) entry_revert_ok(1) objects_upd(4) by blast
  next
    case 2
    then obtain s1 where s1: "entry_revert kh e s = Some s1" "undo_entries kh es (undirty e s1) = Some t" by (auto split: option.splits)
    have "entries (s_journal (undirty e s1)) = entries (s_journal s1)" "validRevisions (undirty e s1) = validRevisions s1"
      "nextRevisionId (undirty e s1) = nextRevisionId s1" by (simp_all add: undirty_def split: option.split)
    then show ?case using Cons.IH(2) [OF s1(2)] entry_revert_ok [OF s1(1)] by simp
  }
qed simp_all

lemma undo_entries_same:
  assumes "same kh s t" and "objects_ok kh s" and "objects_ok kh t"
  shows "rel_option (same kh) (undo_entries kh es s) (undo_entries kh es t)"
  using assms
proof (induction es arbitrary: s t)
  case (Cons e es)
  have r: "rel_option (same kh) (entry_revert kh e s) (entry_revert kh e t)" by (rule entry_revert_same [OF Cons.prems])
  show ?case
  proof (cases "entry_revert kh e s")
    case None
    then show ?thesis using r by (cases "entry_revert kh e t") simp_all
  next
    case (Some s1)
    then obtain t1 where t1: "entry_revert kh e t = Some t1" "same kh s1 t1" using r by (cases "entry_revert kh e t") auto
    have "rel_option (same kh) (undo_entries kh es (undirty e s1)) (undo_entries kh es (undirty e t1))"
      using same_undirty [OF t1(2)] entry_revert_ok(1) [OF Some Cons.prems(2)] entry_revert_ok(1) [OF t1(1) Cons.prems(3)]
      by (intro Cons.IH objects_upd(4))
    then show ?thesis by (simp add: Some t1)
  qed
qed simp

section \<open>Operations that can be undone\<close>

definition undoes :: "keccak \<Rightarrow> StateDB \<Rightarrow> StateDB \<Rightarrow> bool" where
  "undoes kh s s' \<longleftrightarrow> (\<exists>es t. entries (s_journal s') = entries (s_journal s) @ es \<and>
     undo_entries kh (rev es) s' = Some t \<and> same kh t s)"

lemma undoes_same: "same kh s' s \<Longrightarrow> entries (s_journal s') = entries (s_journal s) \<Longrightarrow> undoes kh s s'"
  by (auto simp: undoes_def)

lemma undoes_refl: "undoes kh s s"
  by (simp add: undoes_same)

lemma undoes_entry:
  assumes "entries (s_journal s') = entries (s_journal s) @ [e]" and "entry_revert kh e s' = Some t" and "same kh t s"
  shows "undoes kh s s'"
proof -
  have "same kh (undirty e t) s" using assms(3) by (simp add: same_def)
  then show ?thesis using assms by (auto simp: undoes_def)
qed

lemma undoes_trans:
  assumes "undoes kh s s'" and "undoes kh s' s''" and "objects_ok kh s'" and "objects_ok kh s''"
  shows "undoes kh s s''"
proof -
  obtain es t where s: "entries (s_journal s') = entries (s_journal s) @ es" "undo_entries kh (rev es) s' = Some t" "same kh t s"
    using assms(1) by (auto simp: undoes_def)
  obtain fs u where u: "entries (s_journal s'') = entries (s_journal s') @ fs" "undo_entries kh (rev fs) s'' = Some u" "same kh u s'"
    using assms(2) by (auto simp: undoes_def)
  have "rel_option (same kh) (undo_entries kh (rev es) u) (Some t)"
    using undo_entries_same [OF u(3) undo_entries_ok(1) [OF u(2) assms(4)] assms(3), of "rev es"] s(2) by simp
  then obtain v where v: "undo_entries kh (rev es) u = Some v" "same kh v t" by (cases "undo_entries kh (rev es) u") auto
  have "undo_entries kh (rev (es @ fs)) s'' = Some v" using u(2) v(1) by (simp add: undo_entries_append)
  moreover have "same kh v s" using v(2) s(3) by (rule same_trans)
  ultimately show ?thesis using s(1) u(1) by (auto simp: undoes_def)
qed

lemma same_lookI: "rest t = rest s \<Longrightarrow> (\<And>b. look kh t b = look kh s b) \<Longrightarrow> same kh t s"
  using account_backend [OF same_backend, of t s kh] by (auto simp: same_def accounts_def)

lemma undoes_load: "getDeletedStateObject kh s a = (s', r) \<Longrightarrow> undoes kh s s'"
  using accounts_load [of kh s a s' r] by (intro undoes_same) (simp_all add: same_def)

lemma undoes_get: "getStateObject kh s a = (s', r) \<Longrightarrow> undoes kh s s'"
  using accounts_get [of kh s a s' r] by (intro undoes_same) (simp_all add: same_def)

lemma createObject_cases:
  assumes "createObject kh s a = (s', r)"
  obtains (new) s1 where "look kh s a = None" "getDeletedStateObject kh s a = (s1, None)" "r = None"
      "s' = setStateObject (newObject kh a emptyAccount) (journal_append (createObjectChange a) s1)"
  | (reset) s1 p s2 where "look kh s a = Some p" "getDeletedStateObject kh s a = (s1, Some p)" "r = (if so_deleted p then None else Some p)"
      "s2 = (if s_snap s1 = None then s1 else s1\<lparr>snapDestructs := insert (addrHash kh p) (snapDestructs s1)\<rparr>)"
      "s' = setStateObject (newObject kh a emptyAccount)
         (journal_append (resetObjectChange p (s_snap s1 \<noteq> None \<and> addrHash kh p \<in> snapDestructs s1)) s2)"
proof -
  obtain s1 q where g: "getDeletedStateObject kh s a = (s1, q)" by (cases "getDeletedStateObject kh s a")
  note q = accounts_load(1) [OF g]
  show thesis
  proof (cases q)
    case None
    have "look kh s a = None" "getDeletedStateObject kh s a = (s1, None)" using g q None by simp_all
    then show thesis by (rule new) (use assms g None in \<open>simp_all add: createObject_def Let_def\<close>)
  next
    case (Some p)
    have "look kh s a = Some p" "getDeletedStateObject kh s a = (s1, Some p)" using g q Some by simp_all
    then show thesis by (rule reset [OF _ _ _ refl]) (use assms g Some in \<open>auto simp: createObject_def Let_def\<close>)
  qed
qed

lemma entries_simps [simp]:
  "entries (s_journal (journal_append e s)) = entries (s_journal s) @ [e]" "entries (s_journal (setStateObject so s)) = entries (s_journal s)"
  "entries (s_journal (upd_object a f s)) = entries (s_journal s)" "entries (s_journal (journal_dirty a s)) = entries (s_journal s)"
  by (simp_all add: journal_append_def setStateObject_def upd_object_def journal_dirty_def)

lemma stateObjects_append [simp]: "stateObjects (journal_append e s) = stateObjects s"
  by (simp add: journal_append_def)

lemma createObject_ok:
  assumes "createObject kh s a = (s', r)" and "objects_ok kh s"
  shows "objects_ok kh s'" "stateObjects s' a = Some (newObject kh a emptyAccount)"
  using assms
proof (atomize (full), cases rule: createObject_cases)
  case (new s1)
  then show "objects_ok kh s' \<and> stateObjects s' a = Some (newObject kh a emptyAccount)"
    using accounts_load(8) [OF new(2) assms(2)] by (auto intro!: objects_upd) (simp add: setStateObject_def)
next
  case (reset s1 p s2)
  have "objects_ok kh s2" using accounts_load(8) [OF reset(2) assms(2)] objects_destructs by (simp add: reset(4))
  then show "objects_ok kh s' \<and> stateObjects s' a = Some (newObject kh a emptyAccount)"
    unfolding reset(5) by (auto intro!: objects_upd) (simp add: setStateObject_def)
qed

lemma undo_reset:
  assumes "createObject kh s a = (s', r)" and "objects_ok kh s" and "look kh s a = Some p"
  obtains b t where "entries (s_journal s') = entries (s_journal s) @ [resetObjectChange p b]"
    "entry_revert kh (resetObjectChange p b) s' = Some t" "same kh t s" "so_address p = a" "r = (if so_deleted p then None else Some p)"
  using assms(1)
proof (cases rule: createObject_cases)
  case (reset s1 q s2)
  have q: "q = p" using reset(1) assms(3) by simp
  note reset = reset [unfolded q]
  note l = accounts_load [OF reset(2)]
  have p: "so_address p = a" by (rule look_address [OF assms(2) reset(1)])
  let ?b = "s_snap s1 \<noteq> None \<and> addrHash kh p \<in> snapDestructs s1"
  let ?t = "let s = setStateObject p s' in if \<not> ?b \<and> s_snap s \<noteq> None then s\<lparr>snapDestructs := snapDestructs s - {addrHash kh p}\<rparr> else s"
  have "rest ?t = rest s1"
    by (auto simp: reset(4,5) rest_eq setStateObject_def journal_append_def Let_def)
  then have r: "rest ?t = rest s" using l(3) by simp
  have "look kh ?t b = look kh s b" for b
  proof (cases "b = a")
    case True
    then show ?thesis using p reset(1) by (simp add: look_def setStateObject_def Let_def)
  next
    case False
    have "stateObjects ?t b = stateObjects s1 b" using False p by (simp add: reset(4,5) setStateObject_def journal_append_def Let_def)
    moreover have "stateObjects s1 b = stateObjects s b"
      using reset(2) False by (auto simp: getDeletedStateObject_def setStateObject_def Let_def split: option.splits)
    moreover have "loadAccount kh ?t = loadAccount kh s" using r by (intro loadAccount_backend) (simp_all add: rest_eq)
    ultimately show ?thesis unfolding look_def by (simp split: option.split)
  qed
  with r have "same kh ?t s" by (rule same_lookI)
  moreover have "entries (s_journal s2) = entries (s_journal s)" using l(4) by (simp add: reset(4))
  ultimately show thesis by (intro that [of ?b ?t]) (simp_all add: reset(3,5) p Let_def)
qed (use assms(3) in simp)

lemma undoes_create:
  assumes "createObject kh s a = (s', r)" and "objects_ok kh s"
  shows "undoes kh s s'"
  using assms(1)
proof (cases rule: createObject_cases)
  case (new s1)
  have a: "stateObjects s a = None" "loadAccount kh s a = None" using new(1) by (auto simp: look_def split: option.splits)
  have d: "stateObjectsDirty s - {a} = stateObjectsDirty s" using assms(2) a(1) by (auto simp: objects_ok_def)
  have s1: "s1 = s" using new(2) a by (simp add: getDeletedStateObject_def)
  let ?t = "s'\<lparr>stateObjects := (stateObjects s')(a := None), stateObjectsDirty := stateObjectsDirty s' - {a}\<rparr>"
  have "rest ?t = rest s" using d by (simp add: new(4) s1 rest_eq setStateObject_def journal_append_def)
  moreover have "look kh ?t b = look kh s b" for b
    using a by (auto simp: new(4) s1 look_def setStateObject_def journal_append_def loadAccount_def split: option.split)
  ultimately have "same kh ?t s" by (rule same_lookI)
  then show ?thesis by (intro undoes_entry [of _ _ "createObjectChange a"]) (simp_all add: new(4) s1)
next
  case (reset s1 p s2)
  then show ?thesis using undo_reset [OF assms reset(1)] undoes_entry by metis
qed

section \<open>Dirty marks\<close>

lemma map_of_mark: "map_of (mark_dirty a d) b = (if b = a then Some (dirty_count d a + 1) else map_of d b)"
  by (simp add: mark_dirty_def update_conv')

lemma map_of_unmark:
  "map_of (unmark_dirty a d) b = (if b = a then (if dirty_count d a = 1 then None else Some (dirty_count d a - 1)) else map_of d b)"
  by (auto simp: unmark_dirty_def Let_def update_conv' delete_conv')

lemma count_dirty_append: "count_dirty (es @ [e]) a = count_dirty es a + (if dirtied e = Some a then 1 else 0)"
  by (simp add: count_dirty_def)

lemma dirties_ok_append:
  assumes "dirties_ok es d"
  shows "dirties_ok (es @ [e]) (case dirtied e of None \<Rightarrow> d | Some a \<Rightarrow> mark_dirty a d)"
  using assms by (auto simp: dirties_ok_def count_dirty_append map_of_mark dirty_count_def split: option.split)

lemma dirties_ok_undo:
  assumes "dirties_ok (es @ [e]) d"
  shows "dirties_ok es (case dirtied e of None \<Rightarrow> d | Some a \<Rightarrow> unmark_dirty a d)"
proof (cases "dirtied e")
  case None
  then show ?thesis using assms by (simp add: dirties_ok_def count_dirty_append)
next
  case (Some a)
  have "map_of (unmark_dirty a d) b = (if count_dirty es b = 0 then None else Some (int (count_dirty es b)))" if "b \<noteq> ripemd" for b
    using assms that Some by (cases "b = a") (simp_all add: dirties_ok_def count_dirty_append map_of_unmark dirty_count_def)
  then show ?thesis by (simp add: dirties_ok_def Some)
qed

lemma dirties_ok_ripemd: "dirties_ok es d \<Longrightarrow> dirties_ok es (mark_dirty ripemd d)"
  by (simp add: dirties_ok_def map_of_mark)

lemma undo_dirties:
  "undo_entries kh (rev es) s = Some t \<Longrightarrow> dirties_ok (fs @ es) (dirties (s_journal s)) \<Longrightarrow> dirties_ok fs (dirties (s_journal t))"
proof (induction es arbitrary: s rule: rev_induct)
  case (snoc e es)
  then obtain s1 where s1: "entry_revert kh e s = Some s1" "undo_entries kh (rev es) (undirty e s1) = Some t" by (auto split: option.splits)
  have "dirties (s_journal (undirty e s1)) = (case dirtied e of None \<Rightarrow> dirties (s_journal s) | Some a \<Rightarrow> unmark_dirty a (dirties (s_journal s)))"
    using entry_revert_ok(2) [OF s1(1)] by (simp add: undirty_def split: option.split)
  moreover have "dirties_ok (fs @ es) (case dirtied e of None \<Rightarrow> dirties (s_journal s) | Some a \<Rightarrow> unmark_dirty a (dirties (s_journal s)))"
    using snoc.prems(2) by (intro dirties_ok_undo) simp
  ultimately show ?case using snoc.IH [OF s1(2)] by simp
qed simp

section \<open>Live states\<close>

definition live_ok :: "keccak \<Rightarrow> StateDB \<Rightarrow> bool" where
  "live_ok kh s \<longleftrightarrow> objects_ok kh s \<and> (\<forall>a ac. accounts kh s a = Some ac \<longrightarrow> \<not> ac_fake ac) \<and> al_ok (s_accessList s) \<and>
     dirties_ok (entries (s_journal s)) (dirties (s_journal s))"

definition op_ok :: "keccak \<Rightarrow> StateDB \<Rightarrow> StateDB \<Rightarrow> bool" where
  "op_ok kh s s' \<longleftrightarrow> live_ok kh s' \<and> undoes kh s s' \<and> validRevisions s' = validRevisions s \<and> nextRevisionId s' = nextRevisionId s"

lemma op_ok_refl: "live_ok kh s \<Longrightarrow> op_ok kh s s"
  by (simp add: op_ok_def undoes_refl)

lemma op_ok_trans:
  assumes "op_ok kh s s'" and "op_ok kh s' s''"
  shows "op_ok kh s s''"
  using assms undoes_trans [of kh s s' s''] by (auto simp: op_ok_def live_ok_def)

lemma op_ok_live: "op_ok kh s s' \<Longrightarrow> live_ok kh s'"
  by (simp add: op_ok_def)

lemma op_ok_same:
  assumes "live_ok kh s" and "same kh s' s" and "objects_ok kh s'" and "s_journal s' = s_journal s" and "validRevisions s' = validRevisions s"
    and "nextRevisionId s' = nextRevisionId s"
  shows "op_ok kh s s'"
proof -
  have "live_ok kh s'" using assms by (auto simp: live_ok_def same_def rest_eq)
  then show ?thesis using assms by (simp add: op_ok_def undoes_same)
qed

lemma op_ok_get:
  assumes "live_ok kh s" and "getStateObject kh s a = (s', r)"
  shows "op_ok kh s s'"
  using accounts_get [OF assms(2)] assms(1) by (intro op_ok_same) (auto simp: same_def live_ok_def)

lemma op_ok_cached:
  assumes "live_ok kh s" and "stateObjects s a = Some so" and "account kh s so' = account kh s so" and "so_address so' = so_address so"
  shows "op_ok kh s (upd_object a (\<lambda>_. so') s)"
proof (rule op_ok_same [OF assms(1)])
  show "same kh (upd_object a (\<lambda>_. so') s) s"
    using accounts_same_object [OF assms(2), of kh "\<lambda>_. so'"] assms(3) by (simp add: same_def)
  show "objects_ok kh (upd_object a (\<lambda>_. so') s)"
    using assms(1,2,4) by (auto simp: live_ok_def objects_ok_def upd_object_def split: if_splits)
qed (simp_all add: upd_object_def)

lemma op_ok_create:
  assumes "live_ok kh s" and "createObject kh s a = (s', r)"
  shows "op_ok kh s s'"
proof -
  have ok: "objects_ok kh s" using assms(1) by (simp add: live_ok_def)
  have fresh: "\<not> ac_fake (account kh t (newObject kh a d))" for t a d by (simp add: account_def newObject_def)
  have dirt: "dirties (s_journal (setStateObject so (journal_append e t))) =
      (case dirtied e of None \<Rightarrow> dirties (s_journal t) | Some a \<Rightarrow> mark_dirty a (dirties (s_journal t)))" for so e t
    by (simp add: journal_append_def setStateObject_def)
  have fields: "s_accessList (setStateObject so (journal_append e t)) = s_accessList t" "validRevisions (setStateObject so (journal_append e t)) = validRevisions t"
    "nextRevisionId (setStateObject so (journal_append e t)) = nextRevisionId t" for so e t
    by (simp_all add: journal_append_def setStateObject_def)
  have "(\<forall>b ac. accounts kh s' b = Some ac \<longrightarrow> \<not> ac_fake ac) \<and> al_ok (s_accessList s') \<and>
      dirties_ok (entries (s_journal s')) (dirties (s_journal s')) \<and> validRevisions s' = validRevisions s \<and> nextRevisionId s' = nextRevisionId s"
    using assms(2)
  proof (cases rule: createObject_cases)
    case (new s1)
    note l = accounts_load [OF new(2)]
    have "dirties_ok (entries (s_journal s')) (dirties (s_journal s'))"
      unfolding new(4) dirt entries_simps using assms(1) l(4) by (intro dirties_ok_append) (simp add: live_ok_def)
    moreover have "\<forall>b ac. accounts kh s' b = Some ac \<longrightarrow> \<not> ac_fake ac"
      unfolding new(4) accounts_setStateObject using assms(1) l(2) fresh by (auto simp: live_ok_def split: if_splits)
    ultimately show ?thesis using assms(1) l by (simp add: live_ok_def new(4) fields rest_eq)
  next
    case (reset s1 p s2)
    note l = accounts_load [OF reset(2)]
    have s2: "s_journal s2 = s_journal s1" "s_accessList s2 = s_accessList s1" "validRevisions s2 = validRevisions s1" "nextRevisionId s2 = nextRevisionId s1"
      by (simp_all add: reset(4))
    have "dirties_ok (entries (s_journal s')) (dirties (s_journal s'))"
      unfolding reset(5) dirt entries_simps using assms(1) l(4) s2(1) by (intro dirties_ok_append) (simp add: live_ok_def)
    moreover have other: "\<not> ac_fake ac" if "accounts kh s2 b = Some ac" "b \<noteq> a" for b ac
    proof -
      have "accounts kh s2 b = accounts kh s1 b"
        using accounts_destructs [OF accounts_load(8) [OF reset(2) ok], of s2 p] that(2) look_address [OF ok reset(1)] by (auto simp: reset(4))
      then show ?thesis using that(1) assms(1) l(2) by (simp add: live_ok_def)
    qed
    have "\<forall>b ac. accounts kh s' b = Some ac \<longrightarrow> \<not> ac_fake ac"
      unfolding reset(5) accounts_setStateObject using other fresh by (auto split: if_splits)
    ultimately show ?thesis using assms(1) l s2 by (simp add: live_ok_def reset(5) fields rest_eq)
  qed
  then show ?thesis
    using createObject_ok(1) [OF assms(2) ok] undoes_create [OF assms(2) ok] by (simp add: op_ok_def live_ok_def)
qed

lemma live_fake:
  assumes "live_ok kh s" and "look kh s a = Some so"
  shows "fakeStorage so = None"
proof -
  have "\<not> ac_fake (account kh s so)" using assms by (auto simp: live_ok_def accounts_def)
  then show ?thesis by (simp add: account_def)
qed

text \<open>A journaled change of one object, undone by its entry.\<close>

lemma op_ok_change:
  assumes ok: "live_ok kh s" and so: "stateObjects s a = Some so" "\<not> so_deleted so"
    and rev: "\<And>t t'. with_object kh t a g = Some t' \<Longrightarrow> entry_revert kh e t = Some t'" and "account kh s (g (f so)) = account kh s so"
    and f: "\<And>so. so_address (f so) = so_address so" "so_deleted (f so) = so_deleted so" "fakeStorage (f so) = fakeStorage so"
  shows "op_ok kh s (upd_object a f (journal_append e s))" (is "op_ok kh s ?s")
proof -
  have o: "objects_ok kh ?s" using ok by (simp add: live_ok_def objects_upd f)
  have acc: "accounts kh ?s = (accounts kh s)(a \<mapsto> account kh s (f so))"
    using accounts_upd_object [of "journal_append e s" a so kh f] so(1) by simp
  have lk: "look kh ?s a = Some (f so)" "accounts kh s a = Some (account kh s so)"
    using so(1) by (simp_all add: look_def upd_object_def journal_append_def accounts_def)
  have "undoes kh s ?s"
  proof (cases rule: with_object_cases [of kh ?s a g])
    case none
    then show ?thesis using so(2) f(2) by (simp add: acc account_def)
  next
    case (some so2 t)
    have "same kh t s" using some(2,4,5) lk acc assms(5) by (auto simp: same_def)
    then show ?thesis using undoes_entry [of ?s s e kh t] rev some(1) by simp
  qed
  moreover have "\<not> ac_fake (account kh s (f so))" using live_fake [OF ok, of a so] so(1) f(3) by (simp add: account_def look_def)
  moreover have "dirties_ok (entries (s_journal ?s)) (dirties (s_journal ?s))"
    using dirties_ok_append [of "entries (s_journal s)" "dirties (s_journal s)" e] ok
    by (simp add: live_ok_def upd_object_def journal_append_def)
  ultimately show ?thesis
    using ok o by (auto simp: op_ok_def live_ok_def acc) (simp_all add: upd_object_def journal_append_def)
qed

lemma op_ok_SetBalance:
  assumes "live_ok kh s" and "stateObjects s a = Some so" and "\<not> so_deleted so"
  shows "op_ok kh s (obj_SetBalance a x s)"
  using op_ok_change [OF assms, of "so_Balance_update (\<lambda>_. so_Balance so)" "balanceChange a (so_Balance so)" "so_Balance_update (\<lambda>_. x)"] assms(2)
  by (simp add: obj_SetBalance_def account_fields)

lemma op_ok_SetNonce:
  assumes "live_ok kh s" and "stateObjects s a = Some so" and "\<not> so_deleted so"
  shows "op_ok kh s (obj_SetNonce a n s)"
  using op_ok_change [OF assms, of "so_Nonce_update (\<lambda>_. so_Nonce so)" "nonceChange a (so_Nonce so)" "so_Nonce_update (\<lambda>_. n)"] assms(2)
  by (simp add: obj_SetNonce_def account_fields)

lemma op_ok_touch:
  assumes "live_ok kh s"
  shows "op_ok kh s (obj_touch a s)"
proof -
  have j: "dirties (s_journal (journal_append (touchChange a) s)) = mark_dirty a (dirties (s_journal s))"
    "dirties (s_journal (journal_dirty a (journal_append (touchChange a) s))) = mark_dirty a (mark_dirty a (dirties (s_journal s)))"
    by (simp_all add: journal_append_def journal_dirty_def)
  have d: "dirties_ok (entries (s_journal s) @ [touchChange a]) (mark_dirty a (dirties (s_journal s)))"
    using dirties_ok_append [of "entries (s_journal s)" "dirties (s_journal s)" "touchChange a"] assms by (simp add: live_ok_def)
  have "undoes kh s (obj_touch a s)"
    by (rule undoes_entry [of _ _ "touchChange a" _ "obj_touch a s"]) (simp_all add: obj_touch_def Let_def same_def)
  moreover have "live_ok kh (obj_touch a s)"
    using assms d dirties_ok_ripemd [OF d]
    by (auto simp: live_ok_def obj_touch_def Let_def objects_upd j) (simp_all add: journal_append_def journal_dirty_def)
  ultimately show ?thesis by (simp add: op_ok_def obj_touch_def Let_def journal_append_def journal_dirty_def)
qed

lemma op_ok_SetCode:
  assumes "live_ok kh s" and "stateObjects s a = Some so" and "\<not> so_deleted so"
  shows "op_ok kh s (obj_SetCode kh a h c s)"
proof -
  obtain so' code where c: "obj_Code kh s so = (so', code)" by (cases "obj_Code kh s so")
  let ?s = "upd_object a (\<lambda>_. so') s"
  have so': "so' = fst (obj_Code kh s so)" "code = snd (obj_Code kh s so)" using c by simp_all
  have del: "so_deleted so' = so_deleted so" by (simp add: so'(1) obj_Code_def Let_def split: option.split)
  have acc: "account kh s so' = account kh s so" unfolding so' by (rule account_code)
  have 1: "op_ok kh s ?s" by (rule op_ok_cached [OF assms(1,2) acc]) (simp add: so'(1))
  have code: "code = ac_Code (account kh s so')" using acc so'(2) by (simp add: account_def)
  have 2: "op_ok kh ?s (upd_object a (obj_setCode h c) (journal_append (codeChange a code (so_CodeHash so')) ?s))"
  proof (rule op_ok_change [OF op_ok_live [OF 1]])
    show "stateObjects ?s a = Some so'" using assms(2) by (simp add: upd_object_def)
    show "\<And>t t'. with_object kh t a (obj_setCode (so_CodeHash so') code) = Some t' \<Longrightarrow>
      entry_revert kh (codeChange a code (so_CodeHash so')) t = Some t'" by simp
    show "account kh ?s (obj_setCode (so_CodeHash so') code (obj_setCode h c so')) = account kh ?s so'"
      using code by (simp add: account_fields) (simp add: account_def)
  qed (use assms(3) del in \<open>simp_all add: obj_setCode_def\<close>)
  show ?thesis using op_ok_trans [OF 1 2] assms(2) c by (simp add: obj_SetCode_def)
qed

lemma op_ok_SetState:
  assumes "live_ok kh s" and "stateObjects s a = Some so" and "\<not> so_deleted so"
  shows "op_ok kh s (obj_SetState kh a k v s)"
proof -
  obtain so' prev where c: "obj_GetState kh s so k = (so', prev)" by (cases "obj_GetState kh s so k")
  let ?s = "upd_object a (\<lambda>_. so') s"
  have so': "so' = fst (obj_GetState kh s so k)" "prev = snd (obj_GetState kh s so k)" using c by simp_all
  have fake: "fakeStorage so = None" using live_fake [OF assms(1), of a so] assms(2) by (simp add: look_def)
  have del: "so_deleted so' = so_deleted so" "fakeStorage so' = fakeStorage so"
    by (simp_all add: so'(1) obj_GetState_def obj_GetCommittedState_def Let_def split: option.split)
  have acc: "account kh s so' = account kh s so" unfolding so' by (rule account_cached)
  have 1: "op_ok kh s ?s" by (rule op_ok_cached [OF assms(1,2) acc]) (simp add: so'(1))
  have p: "prev = ac_State (account kh s so') k" using acc so'(2) by (simp add: account_def)
  have 2: "op_ok kh ?s (upd_object a (obj_setState k v) (journal_append (storageChange a k prev) ?s))"
  proof (rule op_ok_change [OF op_ok_live [OF 1]])
    show "stateObjects ?s a = Some so'" using assms(2) by (simp add: upd_object_def)
    show "\<And>t t'. with_object kh t a (obj_setState k prev) = Some t' \<Longrightarrow> entry_revert kh (storageChange a k prev) t = Some t'" by simp
    have "fakeStorage so' = None" "fakeStorage (obj_setState k v so') = None" using fake del by (simp_all add: obj_setState_def)
    then show "account kh ?s (obj_setState k prev (obj_setState k v so')) = account kh ?s so'"
      using p by (simp add: account_setState)
  qed (use assms(3) del in \<open>simp_all add: obj_setState_def\<close>)
  show ?thesis using 1 op_ok_trans [OF 1 2] assms(2) c fake by (simp add: obj_SetState_def Let_def)
qed

section \<open>The operations\<close>

lemma op_ok_GetOrNew:
  assumes "live_ok kh s"
  obtains so where "op_ok kh s (GetOrNewStateObject kh s a)" "stateObjects (GetOrNewStateObject kh s a) a = Some so" "\<not> so_deleted so"
proof -
  obtain s1 r where g: "getStateObject kh s a = (s1, r)" by (cases "getStateObject kh s a")
  note l = accounts_get [OF g] and 1 = op_ok_get [OF assms g]
  show thesis
  proof (cases r)
    case (Some so)
    have "stateObjects s1 a = Some so" "\<not> so_deleted so" using l(1,7) Some by (auto split: option.splits if_splits)
    then show thesis using that 1 g Some by (simp add: GetOrNewStateObject_def)
  next
    case None
    obtain s2 q where c: "createObject kh s1 a = (s2, q)" by (cases "createObject kh s1 a")
    have "op_ok kh s s2" by (rule op_ok_trans [OF 1 op_ok_create [OF op_ok_live [OF 1] c]])
    moreover have "stateObjects s2 a = Some (newObject kh a emptyAccount)"
      using createObject_ok(2) [OF c] op_ok_live [OF 1] by (simp add: live_ok_def)
    ultimately show thesis using that [of "newObject kh a emptyAccount"] g None c by (simp add: GetOrNewStateObject_def newObject_def)
  qed
qed

lemma op_ok_balance:
  assumes "live_ok kh s"
  shows "op_ok kh s (sdb_AddBalance kh s a x)" "op_ok kh s (sdb_SubBalance kh s a x)" "op_ok kh s (sdb_SetBalance kh s a x)"
proof -
  obtain so where g: "op_ok kh s (GetOrNewStateObject kh s a)" "stateObjects (GetOrNewStateObject kh s a) a = Some so" "\<not> so_deleted so"
    by (rule op_ok_GetOrNew [OF assms])
  note ok = op_ok_live [OF g(1)]
  note set = op_ok_trans [OF g(1) op_ok_SetBalance [OF ok g(2,3)]] and touch = op_ok_trans [OF g(1) op_ok_touch [OF ok]]
  show "op_ok kh s (sdb_AddBalance kh s a x)" "op_ok kh s (sdb_SubBalance kh s a x)" "op_ok kh s (sdb_SetBalance kh s a x)"
    using set touch g(1,2) by (simp_all add: sdb_AddBalance_def sdb_SubBalance_def sdb_SetBalance_def obj_AddBalance_def obj_SubBalance_def)
qed

lemma op_ok_set:
  assumes "live_ok kh s"
  shows "op_ok kh s (sdb_SetNonce kh s a n)" "op_ok kh s (sdb_SetCode kh s a c)" "op_ok kh s (sdb_SetState kh s a k v)"
proof -
  obtain so where g: "op_ok kh s (GetOrNewStateObject kh s a)" "stateObjects (GetOrNewStateObject kh s a) a = Some so" "\<not> so_deleted so"
    by (rule op_ok_GetOrNew [OF assms])
  note ok = op_ok_live [OF g(1)]
  show "op_ok kh s (sdb_SetNonce kh s a n)" "op_ok kh s (sdb_SetCode kh s a c)" "op_ok kh s (sdb_SetState kh s a k v)"
    using op_ok_trans [OF g(1) op_ok_SetNonce [OF ok g(2,3)]] op_ok_trans [OF g(1) op_ok_SetCode [OF ok g(2,3)]]
      op_ok_trans [OF g(1) op_ok_SetState [OF ok g(2,3)]]
    by (simp_all add: sdb_SetNonce_def sdb_SetCode_def sdb_SetState_def)
qed

lemma op_ok_CreateAccount:
  assumes "live_ok kh s"
  shows "op_ok kh s (sdb_CreateAccount kh s a)"
proof -
  obtain s1 r where c: "createObject kh s a = (s1, r)" by (cases "createObject kh s a")
  have ok: "objects_ok kh s" using assms by (simp add: live_ok_def)
  note 1 = op_ok_create [OF assms c]
  show ?thesis
  proof (cases r)
    case None
    then show ?thesis using 1 c by (simp add: sdb_CreateAccount_def)
  next
    case (Some prev)
    let ?f = "so_Balance_update (\<lambda>_. so_Balance prev)"
    have lk: "look kh s a = Some prev" using c Some by (cases rule: createObject_cases) (auto split: if_splits)
    obtain b t where u: "entries (s_journal s1) = entries (s_journal s) @ [resetObjectChange prev b]"
      "entry_revert kh (resetObjectChange prev b) s1 = Some t" "same kh t s" "so_address prev = a"
      by (rule undo_reset [OF c ok lk])
    have so: "stateObjects s1 a = Some (newObject kh a emptyAccount)" by (rule createObject_ok(2) [OF c ok])
    have "setStateObject prev (upd_object a ?f s1) = setStateObject prev s1" using u(4) by (simp add: setStateObject_def upd_object_def)
    then have "undoes kh s (upd_object a ?f s1)"
      using u by (intro undoes_entry [of _ _ "resetObjectChange prev b" _ t]) simp_all
    moreover have "live_ok kh (upd_object a ?f s1)"
      using op_ok_live [OF 1] accounts_upd_object [OF so, of kh ?f]
      by (auto simp: live_ok_def objects_upd account_fields split: if_splits) (auto simp: account_def newObject_def upd_object_def)
    ultimately have "op_ok kh s (upd_object a ?f s1)" using 1 by (simp add: op_ok_def upd_object_def)
    then show ?thesis using c Some by (simp add: sdb_CreateAccount_def)
  qed
qed

lemma op_ok_Suicide:
  assumes "live_ok kh s"
  shows "op_ok kh s (fst (sdb_Suicide kh s a))"
proof -
  obtain s1 r where g: "getStateObject kh s a = (s1, r)" by (cases "getStateObject kh s a")
  note l = accounts_get [OF g] and 1 = op_ok_get [OF assms g]
  show ?thesis
  proof (cases r)
    case None
    then show ?thesis using 1 g by (simp add: sdb_Suicide_def)
  next
    case (Some so)
    have so: "stateObjects s1 a = Some so" "\<not> so_deleted so" using l(1,7) Some by (auto split: option.splits if_splits)
    let ?f = "\<lambda>so. so\<lparr>suicided := True, so_Balance := 0\<rparr>" and ?g = "\<lambda>so'. so'\<lparr>suicided := suicided so, so_Balance := so_Balance so\<rparr>"
    have eff: "account kh t (so\<lparr>suicided := p, so_Balance := x\<rparr>) = (account kh t so)\<lparr>ac_suicided := p, ac_Balance := x\<rparr>" for t so p x
      using account_fields(1) [of kh t x "so\<lparr>suicided := p\<rparr>"] account_fields(3) [of kh t p so] by simp
    have "op_ok kh s1 (upd_object a ?f (journal_append (suicideChange a (suicided so) (so_Balance so)) s1))"
    proof (rule op_ok_change [OF op_ok_live [OF 1] so, of ?g])
      show "\<And>t t'. with_object kh t a ?g = Some t' \<Longrightarrow> entry_revert kh (suicideChange a (suicided so) (so_Balance so)) t = Some t'"
        by (simp add: suicide_revert_eq del: entry_revert.simps)
      show "account kh s1 (?g (?f so)) = account kh s1 so" by (simp only: eff) (simp add: account_def)
    qed simp_all
    then show ?thesis using op_ok_trans [OF 1] g Some by (simp add: sdb_Suicide_def)
  qed
qed

lemma op_ok_reads:
  assumes "live_ok kh s"
  shows "op_ok kh s (fst (getStateObject kh s a))" "op_ok kh s (fst (sdb_GetState kh s a k))"
    "op_ok kh s (fst (sdb_GetCommittedState kh s a k))" "op_ok kh s (fst (sdb_GetCode kh s a))"
proof -
  obtain s1 r where g: "getStateObject kh s a = (s1, r)" by (cases "getStateObject kh s a")
  note l = accounts_get [OF g] and 1 = op_ok_get [OF assms g]
  show "op_ok kh s (fst (getStateObject kh s a))" using 1 g by simp
  have upd: "op_ok kh s (upd_object a (\<lambda>_. fst q) s1)"
    if "r = Some so" "account kh s1 (fst q) = account kh s1 so" "so_address (fst q) = so_address so" for so and q :: "stateObject \<times> 'x"
  proof -
    have "stateObjects s1 a = Some so" using l(1,7) that(1) by (auto split: option.splits if_splits)
    then show ?thesis using op_ok_trans [OF 1 op_ok_cached [OF op_ok_live [OF 1] _ that(2,3)]] by simp
  qed
  show "op_ok kh s (fst (sdb_GetState kh s a k))" "op_ok kh s (fst (sdb_GetCommittedState kh s a k))" "op_ok kh s (fst (sdb_GetCode kh s a))"
    using 1 upd by (auto simp: sdb_GetState_def sdb_GetCommittedState_def sdb_GetCode_def g account_cached account_code
        split: option.split prod.split) (metis account_cached account_code address_methods fst_conv)+
qed

lemma op_ok_append:
  assumes "live_ok kh s" and "dirtied e = None" and "s' = f (journal_append e s)" and "rest t = rest s" and "accounts kh t = accounts kh s"
    and "accounts kh s' = accounts kh s" and "entry_revert kh e s' = Some t" and "s_journal s' = s_journal (journal_append e s)"
    and "stateObjects s' = stateObjects s" and "s_snap s' = s_snap s" and "stateObjectsDirty s' = stateObjectsDirty s" and "al_ok (s_accessList s')"
    and "validRevisions s' = validRevisions s" and "nextRevisionId s' = nextRevisionId s"
  shows "op_ok kh s s'"
proof -
  have "undoes kh s s'" using assms(4,5,7,8) by (intro undoes_entry [of _ _ e _ t]) (simp_all add: same_def)
  moreover have "dirties_ok (entries (s_journal s')) (dirties (s_journal s'))"
    using dirties_ok_append [of "entries (s_journal s)" "dirties (s_journal s)" e] assms(1,2,8) by (simp add: live_ok_def journal_append_def)
  ultimately show ?thesis using assms by (simp add: op_ok_def live_ok_def objects_ok_def)
qed

lemma op_ok_refund:
  assumes "live_ok kh s"
  shows "op_ok kh s (sdb_AddRefund s g)" "sdb_SubRefund s g = Some s' \<Longrightarrow> op_ok kh s s'"
proof -
  have "op_ok kh s ((journal_append (refundChange (s_refund s)) s)\<lparr>s_refund := x\<rparr>)" for x
  proof (rule op_ok_append [OF assms _ refl, of _ _ "s_refund_update (\<lambda>_. x)", where t = "(journal_append (refundChange (s_refund s)) s)\<lparr>s_refund := s_refund s\<rparr>"])
    show "rest ((journal_append (refundChange (s_refund s)) s)\<lparr>s_refund := s_refund s\<rparr>) = rest s"
      by (simp add: rest_eq journal_append_def)
  qed (use assms in \<open>simp_all add: live_ok_def journal_append_def\<close>)
  then show "op_ok kh s (sdb_AddRefund s g)" "sdb_SubRefund s g = Some s' \<Longrightarrow> op_ok kh s s'"
    by (auto simp: sdb_AddRefund_def sdb_SubRefund_def split: if_splits)
qed

end
