(* ===== verification/Revisions.thy ===== *)
theory Revisions
  imports Revert
begin

text \<open>
  Sequences of operations on the journaled state, with nested snapshots and reverts, and what reverting to a snapshot restores.
\<close>

section \<open>Logs, preimages and the access list\<close>

lemma op_ok_AddLog:
  assumes "live_ok kh s"
  shows "op_ok kh s (sdb_AddLog s log)"
proof -
  let ?e = "addLogChange (s_thash s)"
  define l where "l = log_entry.extend log \<lparr>log_TxHash = s_thash s, log_TxIndex = s_txIndex s, log_Index = logSize s\<rparr>"
  let ?f = "\<lambda>t. t\<lparr>s_logs := (s_logs s)(s_thash s := s_logs s (s_thash s) @ [l]), logSize := logSize s + 1\<rparr>"
  have "op_ok kh s (?f (journal_append ?e s))"
  proof (rule op_ok_append [OF assms _ refl, of ?e _ ?f, where t = "(?f (journal_append ?e s))\<lparr>s_logs := s_logs s, logSize := logSize s\<rparr>"])
    show "rest ((?f (journal_append ?e s))\<lparr>s_logs := s_logs s, logSize := logSize s\<rparr>) = rest s" by (simp add: rest_eq journal_append_def)
    have "(s_logs s)(s_thash s := s_logs s (s_thash s)) = s_logs s" by simp
    then show "entry_revert kh ?e (?f (journal_append ?e s)) = Some ((?f (journal_append ?e s))\<lparr>s_logs := s_logs s, logSize := logSize s\<rparr>)"
      by (simp add: Let_def)
  qed (use assms in \<open>simp_all add: live_ok_def journal_append_def\<close>)
  then show ?thesis by (simp add: sdb_AddLog_def Let_def l_def)
qed

lemma op_ok_AddPreimage:
  assumes "live_ok kh s"
  shows "op_ok kh s (sdb_AddPreimage s h preimage)"
proof (cases "s_preimages s h")
  case None
  let ?e = "addPreimageChange h" and ?f = "\<lambda>t. t\<lparr>s_preimages := (s_preimages s)(h \<mapsto> preimage)\<rparr>"
  have "op_ok kh s (?f (journal_append ?e s))"
  proof (rule op_ok_append [OF assms _ refl, of ?e _ ?f, where t = "(?f (journal_append ?e s))\<lparr>s_preimages := s_preimages s\<rparr>"])
    show "rest ((?f (journal_append ?e s))\<lparr>s_preimages := s_preimages s\<rparr>) = rest s" by (simp add: rest_eq journal_append_def)
    have "(s_preimages s)(h := None) = s_preimages s" using None by auto
    then show "entry_revert kh ?e (?f (journal_append ?e s)) = Some ((?f (journal_append ?e s))\<lparr>s_preimages := s_preimages s\<rparr>)" by simp
  qed (use assms in \<open>simp_all add: live_ok_def journal_append_def\<close>)
  then show ?thesis using None by (simp add: sdb_AddPreimage_def)
qed (use assms in \<open>simp add: sdb_AddPreimage_def op_ok_refl\<close>)

lemma AddAddress_undo:
  assumes "AddAddress al a = (al', True)" and "al_ok al"
  shows "DeleteAddress al' a = al" "al_ok al'"
proof -
  have a: "al_addresses al a = None" "al' = al\<lparr>al_addresses := (al_addresses al)(a \<mapsto> -1)\<rparr>"
    using assms(1) by (auto simp: AddAddress_def split: if_splits)
  have "(al_addresses al)(a := None) = al_addresses al" using a(1) by auto
  then show "DeleteAddress al' a = al" by (simp add: DeleteAddress_def a(2))
  show "al_ok al'" using assms(2) by (auto simp: al_ok_def a(2))
qed

lemma AddSlot_cases:
  obtains (fresh) "al_addresses al a = None \<or> al_addresses al a = Some (-1)"
    "AddSlot al a slot = (\<lparr>al_addresses = (al_addresses al)(a \<mapsto> int (length (al_slots al))), al_slots = al_slots al @ [{slot}]\<rparr>, al_addresses al a = None, True)"
  | (more) idx where "al_addresses al a = Some idx" "idx \<noteq> -1" "slot \<notin> al_slots al ! nat idx"
    "AddSlot al a slot = (al\<lparr>al_slots := (al_slots al)[nat idx := insert slot (al_slots al ! nat idx)]\<rparr>, False, True)"
  | (there) "AddSlot al a slot = (al, False, False)"
proof (cases "al_addresses al a")
  case None
  then show thesis using fresh by (simp add: AddSlot_def)
next
  case (Some idx)
  then show thesis
    using fresh more [OF Some] there by (cases "idx = -1"; cases "slot \<in> al_slots al ! nat idx") (simp_all add: AddSlot_def Let_def)
qed

lemma AddSlot_undo:
  assumes "al_ok al" and "AddSlot al a slot = (al', addrMod, True)"
  shows "al_ok al'" "DeleteSlot al' a slot = Some (if addrMod then fst (AddAddress al a) else al)"
  using assms(2)
proof (atomize (full), cases rule: AddSlot_cases [of al a slot])
  case fresh
  have "al_ok al'" using assms fresh by (auto simp: al_ok_def nth_append split: if_splits) force+
  moreover have "al' = \<lparr>al_addresses = (al_addresses al)(a \<mapsto> int (length (al_slots al))), al_slots = al_slots al @ [{slot}]\<rparr>" "addrMod = (al_addresses al a = None)"
    using assms(2) fresh(2) by simp_all
  moreover have "(al_addresses al)(a \<mapsto> -1) = al_addresses al" if "al_addresses al a = Some (-1)" using that by auto
  ultimately show "al_ok al' \<and> DeleteSlot al' a slot = Some (if addrMod then fst (AddAddress al a) else al)"
    using fresh(1) by (auto simp: DeleteSlot_def AddAddress_def Let_def)
next
  case (more idx)
  have i: "0 \<le> idx" "idx < int (length (al_slots al))" "al_slots al ! nat idx \<noteq> {}" using assms(1) more(1,2) by (auto simp: al_ok_def)
  have al': "al' = al\<lparr>al_slots := (al_slots al)[nat idx := insert slot (al_slots al ! nat idx)]\<rparr>" "\<not> addrMod" using assms(2) more(4) by simp_all
  have "nat idx < length (al_slots al)" using i by simp
  then have "al_ok al'" using assms(1) by (auto simp: al_ok_def al'(1) nth_list_update split: if_splits)
  moreover have "insert slot (al_slots al ! nat idx) - {slot} = al_slots al ! nat idx" using more(3) by auto
  ultimately show "al_ok al' \<and> DeleteSlot al' a slot = Some (if addrMod then fst (AddAddress al a) else al)"
    using i more(1) al'(2) by (simp add: DeleteSlot_def al'(1) Let_def)
qed (use assms(2) in simp)

lemma append_accessList: "journal_append e (s\<lparr>s_accessList := al\<rparr>) = (journal_append e s)\<lparr>s_accessList := al\<rparr>"
  by (cases s; cases "dirtied e") (simp_all add: journal_append_def)

lemma op_ok_AddAddress:
  assumes "live_ok kh s"
  shows "op_ok kh s (sdb_AddAddressToAccessList s a)"
proof -
  obtain al b where al: "AddAddress (s_accessList s) a = (al, b)" by (cases "AddAddress (s_accessList s) a")
  show ?thesis
  proof (cases b)
    case True
    note u = AddAddress_undo [of "s_accessList s" a al]
    let ?e = "accessListAddAccountChange a" and ?f = "\<lambda>t. t\<lparr>s_accessList := al\<rparr>"
    have "op_ok kh s (?f (journal_append ?e s))"
      by (rule op_ok_append [OF assms _ refl, of ?e _ ?f, where t = "(?f (journal_append ?e s))\<lparr>s_accessList := s_accessList s\<rparr>"])
        (use assms u al True in \<open>simp_all add: live_ok_def\<close>, simp_all add: rest_eq journal_append_def)
    then show ?thesis using al True by (simp add: sdb_AddAddressToAccessList_def append_accessList)
  next
    case False
    then have "al = s_accessList s" using al by (auto simp: AddAddress_def split: if_splits)
    then show ?thesis using al False assms by (simp add: sdb_AddAddressToAccessList_def op_ok_refl)
  qed
qed

lemma op_ok_AddSlot:
  assumes "live_ok kh s"
  shows "op_ok kh s (sdb_AddSlotToAccessList s a slot)"
proof -
  obtain al addrMod slotMod where al: "AddSlot (s_accessList s) a slot = (al, addrMod, slotMod)" by (cases "AddSlot (s_accessList s) a slot")
  have aok: "al_ok (s_accessList s)" using assms by (simp add: live_ok_def)
  have add: "sdb_AddAddressToAccessList s a = (journal_append (accessListAddAccountChange a) s)\<lparr>s_accessList := fst (AddAddress (s_accessList s) a)\<rparr>" if addrMod
    using al that by (cases rule: AddSlot_cases [of "s_accessList s" a slot])
      (auto simp: sdb_AddAddressToAccessList_def AddAddress_def append_accessList)
  let ?t = "if addrMod then sdb_AddAddressToAccessList s a else s"
  have t: "op_ok kh s ?t" using op_ok_AddAddress [OF assms] op_ok_refl [OF assms] by simp
  show ?thesis
  proof (cases slotMod)
    case True
    have "AddSlot (s_accessList s) a slot = (al, addrMod, True)" using al True by simp
    note u = AddSlot_undo [OF aok this]
    let ?e = "accessListAddSlotChange a slot" and ?f = "\<lambda>t. t\<lparr>s_accessList := al\<rparr>"
    have acl: "s_accessList ?t = (if addrMod then fst (AddAddress (s_accessList s) a) else s_accessList s)" using add by simp
    have "op_ok kh ?t (?f (journal_append ?e ?t))"
    proof (rule op_ok_append [OF op_ok_live [OF t] _ refl, of ?e _ ?f, where t = "(?f (journal_append ?e ?t))\<lparr>s_accessList := s_accessList ?t\<rparr>"])
      show "entry_revert kh ?e (?f (journal_append ?e ?t)) = Some ((?f (journal_append ?e ?t))\<lparr>s_accessList := s_accessList ?t\<rparr>)"
        using u(2) acl by simp
      show "al_ok (s_accessList (?f (journal_append ?e ?t)))" using u(1) by simp
    qed (simp_all, simp_all add: rest_eq journal_append_def)
    moreover have "?f (journal_append ?e ?t) = sdb_AddSlotToAccessList s a slot"
      using al True add by (simp add: sdb_AddSlotToAccessList_def append_accessList)
    ultimately show ?thesis using op_ok_trans [OF t] by simp
  next
    case False
    then have "al = s_accessList s" "\<not> addrMod" using al by (cases rule: AddSlot_cases [of "s_accessList s" a slot]; simp)+
    then show ?thesis using al False assms by (simp add: sdb_AddSlotToAccessList_def op_ok_refl)
  qed
qed

section \<open>Sequences of operations\<close>

datatype op =
    OpCreateAccount address | OpAddBalance address int | OpSubBalance address int | OpSetBalance address int
  | OpSetNonce address u64 | OpSetCode address bytes | OpSetState address hash hash | OpSuicide address
  | OpAddRefund u64 | OpSubRefund u64 | OpAddLog log_entry | OpAddPreimage hash bytes
  | OpAddAddress address | OpAddSlot address hash
  | OpRead address | OpGetState address hash | OpGetCommittedState address hash | OpGetCode address
  | OpSnapshot | OpRevert nat

fun exec :: "keccak \<Rightarrow> op \<Rightarrow> StateDB \<Rightarrow> StateDB option" where
  "exec kh (OpCreateAccount a) s = Some (sdb_CreateAccount kh s a)"
| "exec kh (OpAddBalance a x) s = Some (sdb_AddBalance kh s a x)"
| "exec kh (OpSubBalance a x) s = Some (sdb_SubBalance kh s a x)"
| "exec kh (OpSetBalance a x) s = Some (sdb_SetBalance kh s a x)"
| "exec kh (OpSetNonce a n) s = Some (sdb_SetNonce kh s a n)"
| "exec kh (OpSetCode a c) s = Some (sdb_SetCode kh s a c)"
| "exec kh (OpSetState a k v) s = Some (sdb_SetState kh s a k v)"
| "exec kh (OpSuicide a) s = Some (fst (sdb_Suicide kh s a))"
| "exec kh (OpAddRefund g) s = Some (sdb_AddRefund s g)"
| "exec kh (OpSubRefund g) s = sdb_SubRefund s g"
| "exec kh (OpAddLog l) s = Some (sdb_AddLog s l)"
| "exec kh (OpAddPreimage h p) s = Some (sdb_AddPreimage s h p)"
| "exec kh (OpAddAddress a) s = Some (sdb_AddAddressToAccessList s a)"
| "exec kh (OpAddSlot a k) s = Some (sdb_AddSlotToAccessList s a k)"
| "exec kh (OpRead a) s = Some (fst (getStateObject kh s a))"
| "exec kh (OpGetState a k) s = Some (fst (sdb_GetState kh s a k))"
| "exec kh (OpGetCommittedState a k) s = Some (fst (sdb_GetCommittedState kh s a k))"
| "exec kh (OpGetCode a) s = Some (fst (sdb_GetCode kh s a))"
| "exec kh OpSnapshot s = Some (fst (sdb_Snapshot s))"
| "exec kh (OpRevert revid) s = sdb_RevertToSnapshot kh s revid"

fun exec_all :: "keccak \<Rightarrow> op list \<Rightarrow> StateDB \<Rightarrow> StateDB option" where
  "exec_all kh [] s = Some s"
| "exec_all kh (p # ps) s = (case exec kh p s of None \<Rightarrow> None | Some t \<Rightarrow> exec_all kh ps t)"

lemma exec_op_ok:
  assumes "exec kh p s = Some s'" and "live_ok kh s" and "p \<noteq> OpSnapshot" and "\<And>id. p \<noteq> OpRevert id"
  shows "op_ok kh s s'"
  using assms op_ok_balance [OF assms(2)] op_ok_set [OF assms(2)] op_ok_CreateAccount [OF assms(2)] op_ok_Suicide [OF assms(2)]
    op_ok_refund [OF assms(2)] op_ok_AddLog [OF assms(2)] op_ok_AddPreimage [OF assms(2)] op_ok_AddAddress [OF assms(2)]
    op_ok_AddSlot [OF assms(2)] op_ok_reads [OF assms(2)]
  by (cases p) auto

section \<open>Searching the revisions\<close>

lemma search_loop_least:
  assumes "i \<le> j" and "\<And>k. k < i \<Longrightarrow> \<not> f k" and "\<And>k. j \<le> k \<Longrightarrow> k < n \<Longrightarrow> f k" and "j \<le> n"
    and mono: "\<And>k l. k \<le> l \<Longrightarrow> l < n \<Longrightarrow> f k \<Longrightarrow> f l"
  shows "search_loop f i j \<le> j \<and> (\<forall>k < search_loop f i j. \<not> f k) \<and> (\<forall>k. search_loop f i j \<le> k \<longrightarrow> k < n \<longrightarrow> f k)"
  using assms(1-4)
proof (induction "j - i" arbitrary: i j rule: less_induct)
  case less
  show ?case
  proof (cases "i < j")
    case True
    let ?h = "(i + j) div 2"
    have h: "i \<le> ?h" "?h < j" "?h < n" using True less.prems(4) by auto
    show ?thesis
    proof (cases "f ?h")
      case f: True
      have "search_loop f i ?h \<le> ?h \<and> (\<forall>k < search_loop f i ?h. \<not> f k) \<and> (\<forall>k. search_loop f i ?h \<le> k \<longrightarrow> k < n \<longrightarrow> f k)"
      proof (rule less.hyps)
        show "f k" if "?h \<le> k" "k < n" for k using mono that f by blast
      qed (use h less.prems in auto)
      then show ?thesis using f True h by (auto simp: search_loop.simps [of f i j] Let_def)
    next
      case f: False
      have "search_loop f (?h + 1) j \<le> j \<and> (\<forall>k < search_loop f (?h + 1) j. \<not> f k) \<and> (\<forall>k. search_loop f (?h + 1) j \<le> k \<longrightarrow> k < n \<longrightarrow> f k)"
      proof (rule less.hyps)
        show "\<not> f k" if "k < ?h + 1" for k using mono [of k ?h] that f h(3) by auto
      qed (use h less.prems in auto)
      then show ?thesis using f True by (auto simp: search_loop.simps [of f i j] Let_def)
    qed
  next
    case False
    then have "search_loop f i j = i" by (simp add: search_loop.simps [of f i j])
    moreover have "i = j" using False less.prems(1) by simp
    ultimately show ?thesis using less.prems by auto
  qed
qed

lemma search_loop_le: "i \<le> j \<Longrightarrow> search_loop f i j \<le> j"
proof (induction f i j rule: search_loop.induct)
  case (1 f i j)
  show ?case
  proof (cases "i < j")
    case True
    then have h: "i \<le> (i + j) div 2" "(i + j) div 2 < j" by auto
    show ?thesis
    proof (cases "f ((i + j) div 2)")
      case f: True
      have "search_loop f i ((i + j) div 2) \<le> (i + j) div 2" using 1(2) [OF True refl] f h by simp
      then show ?thesis using True f h by (simp add: search_loop.simps [of f i j] Let_def)
    next
      case f: False
      have "search_loop f ((i + j) div 2 + 1) j \<le> j" using 1(1) [OF True refl f] h by simp
      then show ?thesis using True f by (simp add: search_loop.simps [of f i j] Let_def)
    qed
  next
    case False
    then have "search_loop f i j = i" by (simp add: search_loop.simps [of f i j])
    then show ?thesis using 1(3) by simp
  qed
qed

lemma search_revision:
  assumes "sorted_wrt (\<lambda>r q. rev_id r < rev_id q) rs" and "i < length rs"
  shows "sort_Search (length rs) (\<lambda>j. rev_id (rs ! i) \<le> rev_id (rs ! j)) = i"
proof -
  let ?f = "\<lambda>j. rev_id (rs ! i) \<le> rev_id (rs ! j)" and ?n = "length rs"
  have lt: "rev_id (rs ! k) < rev_id (rs ! l)" if "k < l" "l < ?n" for k l using sorted_wrt_nth_less [OF assms(1)] that by blast
  have r: "search_loop ?f 0 ?n \<le> ?n \<and> (\<forall>k < search_loop ?f 0 ?n. \<not> ?f k) \<and> (\<forall>k. search_loop ?f 0 ?n \<le> k \<longrightarrow> k < ?n \<longrightarrow> ?f k)"
  proof (rule search_loop_least)
    show "?f l" if "k \<le> l" "l < ?n" "?f k" for k l using lt [of k l] that by (cases "k = l") auto
  qed auto
  have below: "\<not> ?f j" if "j < i" for j using lt [of j i] that assms(2) by auto
  have "\<not> search_loop ?f 0 ?n < i"
  proof
    assume "search_loop ?f 0 ?n < i"
    then show False using r below assms(2) by (meson less_trans order_refl)
  qed
  moreover have "\<not> i < search_loop ?f 0 ?n" using r by blast
  ultimately show ?thesis by (simp add: sort_Search_def)
qed

lemma RevertToSnapshot_iff:
  assumes "sorted_wrt (\<lambda>r q. rev_id r < rev_id q) (validRevisions s)"
  shows "sdb_RevertToSnapshot kh s revid = Some t \<longleftrightarrow>
    (\<exists>i t'. i < length (validRevisions s) \<and> rev_id (validRevisions s ! i) = revid \<and>
      journal_revert kh s (rev_journalIndex (validRevisions s ! i)) = Some t' \<and> t = t'\<lparr>validRevisions := take i (validRevisions t')\<rparr>)"
proof -
  let ?rs = "validRevisions s" and ?f = "\<lambda>j. revid \<le> rev_id (validRevisions s ! j)"
  let ?i = "sort_Search (length ?rs) ?f"
  have le: "?i \<le> length ?rs" unfolding sort_Search_def by (rule search_loop_le) simp
  have i: "?i = i" if "i < length ?rs" "rev_id (?rs ! i) = revid" for i
    using search_revision [OF assms that(1)] that(2) by simp
  show ?thesis
  proof (cases "?i < length ?rs \<and> rev_id (?rs ! ?i) = revid")
    case True
    then show ?thesis using i by (auto simp: sdb_RevertToSnapshot_def Let_def split: option.splits)
  next
    case False
    then have "sdb_RevertToSnapshot kh s revid = None" using le by (auto simp: sdb_RevertToSnapshot_def Let_def)
    moreover have "\<not> (j < length ?rs \<and> rev_id (?rs ! j) = revid)" for j using False i [of j] by auto
    ultimately show ?thesis by (metis option.distinct(1))
  qed
qed

section \<open>Cutting the journal\<close>

definition cut :: "nat \<Rightarrow> StateDB \<Rightarrow> StateDB" where
  "cut k s = s\<lparr>s_journal := (s_journal s)\<lparr>entries := take k (entries (s_journal s))\<rparr>\<rparr>"

lemma with_object_cut: "with_object kh (cut k s) a f = map_option (cut k) (with_object kh s a f)"
  by (auto simp: with_object_def getStateObject_def getDeletedStateObject_def loadAccount_def cut_def setStateObject_def upd_object_def Let_def
      split: option.splits prod.splits)

lemma entry_revert_cut: "entry_revert kh e (cut k s) = map_option (cut k) (entry_revert kh e s)"
proof (cases e)
  case (suicideChange a p x)
  then show ?thesis
    by (auto simp: getStateObject_def getDeletedStateObject_def loadAccount_def cut_def setStateObject_def upd_object_def Let_def
        split: option.splits prod.splits)
next
  case (balanceChange a x)
  then show ?thesis by (simp add: with_object_cut)
next
  case (nonceChange a n)
  then show ?thesis by (simp add: with_object_cut)
next
  case (storageChange a k v)
  then show ?thesis by (simp add: with_object_cut)
next
  case (codeChange a c h)
  then show ?thesis by (simp add: with_object_cut)
qed (auto simp: cut_def setStateObject_def Let_def split: option.split)

lemma undirty_cut: "undirty e (cut k s) = cut k (undirty e s)"
  by (auto simp: undirty_def cut_def split: option.split)

lemma undo_entries_cut: "undo_entries kh es (cut k s) = map_option (cut k) (undo_entries kh es s)"
proof (induction es arbitrary: s)
  case (Cons e es)
  show ?case by (cases "entry_revert kh e s") (simp_all add: entry_revert_cut undirty_cut Cons)
qed simp

end
