(* ===== verification/Rollback.thy ===== *)
theory Rollback
  imports Revisions
begin

text \<open>
  Reverting to a snapshot restores what is visible, whatever was done since, nested snapshots and reverts included;
  and what survives the end of a transaction.
\<close>

section \<open>Reverting to a recorded state\<close>

lemma cut_simps [simp]:
  "rest (cut k s) = rest s" "accounts kh (cut k s) = accounts kh s" "validRevisions (cut k s) = validRevisions s"
  "nextRevisionId (cut k s) = nextRevisionId s" "entries (s_journal (cut k s)) = take k (entries (s_journal s))"
  "dirties (s_journal (cut k s)) = dirties (s_journal s)" "objects_ok kh (cut k s) = objects_ok kh s"
  by (simp_all add: cut_def rest_def objects_ok_def)

lemma journal_revert_eq: "journal_revert kh s k = map_option (cut k) (undo_entries kh (rev (drop k (entries (s_journal s)))) s)"
  by (simp add: journal_revert_def cut_def split: option.split)

lemma journal_revert_to:
  assumes "undoes kh g s" and "live_ok kh s" and "live_ok kh g"
  obtains t where "journal_revert kh s (length (entries (s_journal g))) = Some t" "same kh t g" "live_ok kh t"
    "entries (s_journal t) = entries (s_journal g)" "validRevisions t = validRevisions s" "nextRevisionId t = nextRevisionId s"
proof -
  let ?k = "length (entries (s_journal g))"
  obtain es t where e: "entries (s_journal s) = entries (s_journal g) @ es" "undo_entries kh (rev es) s = Some t" "same kh t g"
    using assms(1) by (auto simp: undoes_def)
  have ok: "objects_ok kh t" "dirties_ok (entries (s_journal g)) (dirties (s_journal t))"
    using undo_entries_ok(1) [OF e(2)] undo_dirties [OF e(2)] e(1) assms(2) by (simp_all add: live_ok_def)
  note u = undo_entries_ok(2) [OF e(2)]
  show thesis
  proof (rule that [of "cut ?k t"])
    show "live_ok kh (cut ?k t)"
      using ok e assms(3) u by (auto simp: live_ok_def same_def rest_eq) (simp add: cut_def)
  qed (use e u in \<open>simp_all add: journal_revert_eq same_def\<close>)
qed

lemma undoes_cut:
  assumes "undoes kh g s" and "length (entries (s_journal g)) \<le> k" and "k \<le> length (entries (s_journal s))"
    and "journal_revert kh s k = Some t"
  shows "undoes kh g t"
proof -
  obtain es u where e: "entries (s_journal s) = entries (s_journal g) @ es" "undo_entries kh (rev es) s = Some u" "same kh u g"
    using assms(1) by (auto simp: undoes_def)
  let ?j = "k - length (entries (s_journal g))"
  have d: "drop k (entries (s_journal s)) = drop ?j es" "take k (entries (s_journal s)) = entries (s_journal g) @ take ?j es"
    using assms(2) by (simp_all add: e(1))
  obtain t0 where t0: "undo_entries kh (rev (drop ?j es)) s = Some t0" "t = cut k t0"
    using assms(4) d(1) by (auto simp: journal_revert_eq)
  have "rev es = rev (drop ?j es) @ rev (take ?j es)" by (metis append_take_drop_id rev_append)
  then have "undo_entries kh (rev (take ?j es)) t0 = Some u" using e(2) t0(1) by (simp add: undo_entries_append)
  then have "undo_entries kh (rev (take ?j es)) t = Some (cut k u)" by (simp add: t0(2) undo_entries_cut)
  moreover have "entries (s_journal t) = entries (s_journal g) @ take ?j es"
    using undo_entries_ok(2) [OF t0(1)] d(2) by (simp add: t0(2))
  ultimately show ?thesis using e(3) by (auto simp: undoes_def same_def)
qed

section \<open>States with their history\<close>

text \<open>Each valid revision belongs to the state it was taken in, which undoing the journal brings back.\<close>

definition tracked :: "keccak \<Rightarrow> StateDB list \<Rightarrow> StateDB \<Rightarrow> bool" where
  "tracked kh gs s \<longleftrightarrow> live_ok kh s \<and> revisions_ok s \<and> length gs = length (validRevisions s) \<and>
     (\<forall>i < length gs. rev_journalIndex (validRevisions s ! i) = length (entries (s_journal (gs ! i))) \<and>
        undoes kh (gs ! i) s \<and> live_ok kh (gs ! i))"

lemma tracked_ids: "tracked kh gs s \<Longrightarrow> sorted_wrt (\<lambda>r q. rev_id r < rev_id q) (validRevisions s)"
  by (auto simp: tracked_def revisions_ok_def elim: sorted_wrt_mono_rel [rotated])

lemma tracked_op:
  assumes "tracked kh gs s" and "op_ok kh s s'"
  shows "tracked kh gs s'"
proof -
  have "length (entries (s_journal s)) \<le> length (entries (s_journal s'))" using assms(2) by (auto simp: op_ok_def undoes_def)
  moreover have "undoes kh g s'" if "undoes kh g s" for g
    using undoes_trans [OF that, of s'] assms by (simp add: op_ok_def live_ok_def tracked_def)
  ultimately show ?thesis using assms by (fastforce simp: tracked_def op_ok_def revisions_ok_def)
qed

lemma tracked_snapshot:
  assumes "tracked kh gs s"
  shows "tracked kh (gs @ [s]) (fst (sdb_Snapshot s))"
proof -
  let ?s = "fst (sdb_Snapshot s)"
  have f: "rest ?s = rest s" "s_journal ?s = s_journal s" "accounts kh ?s = accounts kh s" "objects_ok kh ?s = objects_ok kh s"
    by (simp_all add: sdb_Snapshot_def Let_def rest_def objects_ok_def)
  have live: "live_ok kh ?s" using assms f by (simp add: tracked_def live_ok_def rest_eq)
  have self: "undoes kh s ?s" by (rule undoes_same) (simp_all add: same_def f)
  have "undoes kh g ?s" if "undoes kh g s" for g
    using undoes_trans [OF that self] assms live by (simp add: tracked_def live_ok_def)
  moreover have "revisions_ok ?s"
    using assms by (auto simp: tracked_def revisions_ok_def sdb_Snapshot_def Let_def sorted_wrt_append)
  ultimately show ?thesis
    using assms live self by (auto simp: tracked_def nth_append less_Suc_eq f) (auto simp: sdb_Snapshot_def Let_def nth_append)
qed

lemma tracked_revert:
  assumes "tracked kh gs s" and "i < length gs"
  obtains t where "sdb_RevertToSnapshot kh s (rev_id (validRevisions s ! i)) = Some t" "same kh t (gs ! i)"
    "entries (s_journal t) = entries (s_journal (gs ! i))" "validRevisions t = take i (validRevisions s)"
    "nextRevisionId t = nextRevisionId s" "tracked kh (take i gs) t"
proof -
  let ?vs = "validRevisions s" and ?g = "gs ! i"
  note tr = assms(1) [unfolded tracked_def]
  have i: "i < length ?vs" "rev_journalIndex (?vs ! i) = length (entries (s_journal ?g))" "undoes kh ?g s" "live_ok kh ?g"
    using tr assms(2) by auto
  obtain t where t: "journal_revert kh s (length (entries (s_journal ?g))) = Some t" "same kh t ?g" "live_ok kh t"
    "entries (s_journal t) = entries (s_journal ?g)" "validRevisions t = ?vs" "nextRevisionId t = nextRevisionId s"
    using journal_revert_to [OF i(3) _ i(4)] tr by blast
  let ?t = "t\<lparr>validRevisions := take i ?vs\<rparr>"
  have rev: "sdb_RevertToSnapshot kh s (rev_id (?vs ! i)) = Some ?t"
    using RevertToSnapshot_iff [OF tracked_ids [OF assms(1)], of kh "rev_id (?vs ! i)" ?t] i t(1,5) by auto
  have f: "rest ?t = rest t" "accounts kh ?t = accounts kh t" "s_journal ?t = s_journal t" by (simp_all add: rest_def)
  have live: "live_ok kh ?t" using t(3) f by (simp add: live_ok_def objects_ok_def)
  have srt: "sorted_wrt (\<lambda>r q. rev_id r < rev_id q \<and> rev_journalIndex r \<le> rev_journalIndex q) ?vs" using tr by (simp add: revisions_ok_def)
  have idx: "rev_journalIndex (?vs ! j) \<le> rev_journalIndex (?vs ! i)" if "j < i" for j using sorted_wrt_nth_less [OF srt that i(1)] by simp
  have und: "undoes kh (gs ! j) ?t" if "j < i" for j
  proof -
    have j: "undoes kh (gs ! j) s" "length (entries (s_journal (gs ! j))) \<le> length (entries (s_journal ?g))"
      using tr that assms(2) idx [OF that] i(2) by auto
    have "length (entries (s_journal ?g)) \<le> length (entries (s_journal s))" using i(3) by (auto simp: undoes_def)
    note u = undoes_cut [OF j this t(1)]
    have "undoes kh t ?t" using f by (intro undoes_same) (simp_all add: same_def)
    then show ?thesis using undoes_trans [OF u] t(3) live by (simp add: live_ok_def)
  qed
  have "rev_id r < nextRevisionId s \<and> rev_journalIndex r \<le> length (entries (s_journal t))" if "r \<in> set (take i ?vs)" for r
  proof -
    obtain j where "j < i" "r = ?vs ! j" using \<open>r \<in> set (take i ?vs)\<close> by (auto simp: in_set_conv_nth)
    then show ?thesis using idx [of j] i t(4) tr nth_mem [of j ?vs] by (simp add: revisions_ok_def)
  qed
  then have "revisions_ok ?t" using srt t(6) by (simp add: revisions_ok_def sorted_wrt_take)
  then have "tracked kh (take i gs) ?t" using live und tr assms(2) by (auto simp: tracked_def)
  then show thesis using that [OF rev] t(2,4,6) f by (simp add: same_def)
qed

section \<open>Runs\<close>

definition extends_history :: "StateDB list \<Rightarrow> StateDB \<Rightarrow> StateDB list \<Rightarrow> StateDB \<Rightarrow> bool" where
  "extends_history gs s gs' s' \<longleftrightarrow> nextRevisionId s \<le> nextRevisionId s' \<and>
     (\<forall>i < length gs'. i < length gs \<and> gs' ! i = gs ! i \<and> rev_id (validRevisions s' ! i) = rev_id (validRevisions s ! i) \<or>
        nextRevisionId s \<le> rev_id (validRevisions s' ! i))"

lemma tracked_exec:
  assumes "tracked kh gs s" and "exec kh p s = Some s'"
  obtains gs' where "tracked kh gs' s'" "extends_history gs s gs' s'"
proof -
  consider "p = OpSnapshot" | id where "p = OpRevert id" | "p \<noteq> OpSnapshot" "\<And>id. p \<noteq> OpRevert id" by (cases p) auto
  then show thesis
  proof cases
    case 1
    have "s' = fst (sdb_Snapshot s)" using assms(2) 1 by simp
    moreover have "extends_history gs s (gs @ [s]) (fst (sdb_Snapshot s))"
      using assms(1) by (auto simp: extends_history_def tracked_def sdb_Snapshot_def Let_def nth_append less_Suc_eq)
    ultimately show thesis using that tracked_snapshot [OF assms(1)] by simp
  next
    case (2 revid)
    then have r: "sdb_RevertToSnapshot kh s revid = Some s'" using assms(2) by simp
    then obtain i where i: "i < length (validRevisions s)" "rev_id (validRevisions s ! i) = revid"
      using RevertToSnapshot_iff [OF tracked_ids [OF assms(1)]] by blast
    have l: "i < length gs" "length gs = length (validRevisions s)" using assms(1) i(1) by (simp_all add: tracked_def)
    obtain t where "sdb_RevertToSnapshot kh s (rev_id (validRevisions s ! i)) = Some t" "validRevisions t = take i (validRevisions s)"
      "nextRevisionId t = nextRevisionId s" "tracked kh (take i gs) t"
      by (rule tracked_revert [OF assms(1) l(1)])
    then show thesis using that [of "take i gs"] r i l by (simp add: extends_history_def)
  next
    case 3
    have "op_ok kh s s'" by (rule exec_op_ok [OF assms(2) _ 3]) (use assms(1) in \<open>simp add: tracked_def\<close>)
    then show thesis using that [OF tracked_op [OF assms(1)]] by (simp add: extends_history_def op_ok_def)
  qed
qed

lemma tracked_exec_all:
  assumes "exec_all kh ps s = Some s'" and "tracked kh gs s"
  obtains gs' where "tracked kh gs' s'" "extends_history gs s gs' s'"
  using assms
proof (induction ps arbitrary: s gs thesis)
  case Nil
  then show ?case by (simp add: extends_history_def)
next
  case (Cons p ps)
  obtain t where t: "exec kh p s = Some t" "exec_all kh ps t = Some s'" using Cons.prems(2) by (auto split: option.splits)
  obtain hs where hs: "tracked kh hs t" "extends_history gs s hs t" by (rule tracked_exec [OF Cons.prems(3) t(1)])
  obtain gs' where gs': "tracked kh gs' s'" "extends_history hs t gs' s'" by (rule Cons.IH [OF _ t(2) hs(1)])
  have "extends_history gs s gs' s'"
    unfolding extends_history_def
  proof (intro conjI allI impI)
    fix i assume "i < length gs'"
    then show "i < length gs \<and> gs' ! i = gs ! i \<and> rev_id (validRevisions s' ! i) = rev_id (validRevisions s ! i) \<or>
        nextRevisionId s \<le> rev_id (validRevisions s' ! i)"
      using hs(2) gs'(2) unfolding extends_history_def by (metis le_trans)
  qed (use hs(2) gs'(2) in \<open>simp add: extends_history_def\<close>)
  then show ?case by (rule Cons.prems(1) [OF gs'(1)])
qed

section \<open>The end of a transaction\<close>

lemma no_fake: "(\<forall>a ac. accounts kh s a = Some ac \<longrightarrow> \<not> ac_fake ac) \<longleftrightarrow> (\<forall>a so. stateObjects s a = Some so \<longrightarrow> fakeStorage so = None)"
proof -
  have f: "ac_fake (account kh s so) \<longleftrightarrow> fakeStorage so \<noteq> None" for so by (simp add: account_def)
  have n: "fakeStorage (newObject kh a d) = None" for a d by (simp add: newObject_def)
  show ?thesis
  proof
    assume A: "\<forall>a ac. accounts kh s a = Some ac \<longrightarrow> \<not> ac_fake ac"
    have "fakeStorage so = None" if "stateObjects s a = Some so" for a so
      using A [THEN spec [of _ a], THEN spec [of _ "account kh s so"]] that f [of so] by (simp add: accounts_def look_def)
    then show "\<forall>a so. stateObjects s a = Some so \<longrightarrow> fakeStorage so = None" by blast
  next
    assume "\<forall>a so. stateObjects s a = Some so \<longrightarrow> fakeStorage so = None"
    then have "fakeStorage so = None" if "look kh s a = Some so" for a so using that n by (auto simp: look_def split: option.splits)
    then show "\<forall>a ac. accounts kh s a = Some ac \<longrightarrow> \<not> ac_fake ac" using f by (auto simp: accounts_def)
  qed
qed

definition plain_ok :: "keccak \<Rightarrow> StateDB \<Rightarrow> bool" where
  "plain_ok kh s \<longleftrightarrow> objects_ok kh s \<and> (\<forall>a so. stateObjects s a = Some so \<longrightarrow> fakeStorage so = None) \<and> al_ok (s_accessList s)"

lemma finalise_object_ok:
  "plain_ok kh s \<Longrightarrow> plain_ok kh (finalise_object kh b a s)" "s_journal (finalise_object kh b a s) = s_journal s"
  "nextRevisionId (finalise_object kh b a s) = nextRevisionId s"
  by (auto simp: plain_ok_def objects_ok_def finalise_object_def upd_object_def obj_finalise_def Let_def split: option.split if_splits)

lemma tracked_Finalise:
  assumes "tracked kh gs s"
  shows "tracked kh [] (sdb_Finalise kh s b)"
proof -
  let ?f = "\<lambda>(a, n :: int) s. finalise_object kh b a s"
  have fold: "plain_ok kh (fold ?f ds t) \<and> s_journal (fold ?f ds t) = s_journal t" if "plain_ok kh t" for ds t
    using that by (induction ds arbitrary: t) (auto simp: finalise_object_ok split: prod.split)
  have "plain_ok kh s" using assms by (simp add: tracked_def live_ok_def plain_ok_def no_fake)
  note u = fold [OF this, of "dirties (s_journal s)"]
  let ?t = "fold ?f (dirties (s_journal s)) s"
  have "live_ok kh (clearJournalAndRefund ?t)"
    using u assms unfolding live_ok_def no_fake
    by (auto simp: clearJournalAndRefund_def Let_def plain_ok_def objects_ok_def newJournal_def dirties_ok_def count_dirty_def tracked_def live_ok_def)
  moreover have "revisions_ok (clearJournalAndRefund ?t)" "validRevisions (clearJournalAndRefund ?t) = []"
    by (simp_all add: revisions_ok_def clearJournalAndRefund_def Let_def)
  ultimately show ?thesis by (simp add: tracked_def sdb_Finalise_def)
qed

lemma tracked_live: "live_ok kh s \<Longrightarrow> validRevisions s = [] \<Longrightarrow> tracked kh [] s"
  by (simp add: tracked_def revisions_ok_def)

lemma live_new: "snap = None \<or> inj (\<lambda>a. kh (addr_bytes a)) \<Longrightarrow> tracked kh [] (NewStateDB db snap)"
  unfolding tracked_def live_ok_def no_fake
  by (simp add: NewStateDB_def objects_ok_def al_ok_def newAccessList_def newJournal_def dirties_ok_def count_dirty_def revisions_ok_def)

lemma live_copy:
  assumes "live_ok kh s"
  shows "tracked kh [] (sdb_Copy s)"
proof -
  define K where "K = fst ` set (dirties (s_journal s))"
  have c: "sdb_Copy s = s\<lparr>stateObjects := (\<lambda>a. if a \<in> K \<and> stateObjects s a \<noteq> None \<or> a \<in> stateObjectsPending s \<or> a \<in> stateObjectsDirty s
        then map_option deepCopy (stateObjects s a) else None),
      stateObjectsPending := {a \<in> K. stateObjects s a \<noteq> None} \<union> stateObjectsPending s,
      stateObjectsDirty := {a \<in> K. stateObjects s a \<noteq> None} \<union> stateObjectsDirty s,
      s_thash := 0, s_txIndex := 0, s_journal := newJournal, validRevisions := [], nextRevisionId := 0\<rparr>"
    by (auto simp: sdb_Copy_def Let_def K_def intro!: ext)
  show ?thesis
    using assms unfolding tracked_def live_ok_def no_fake c
    by (auto simp: objects_ok_def newJournal_def dirties_ok_def count_dirty_def revisions_ok_def deepCopy_def split: if_splits)
qed

lemma live_PrepareAccessList:
  assumes "live_ok kh s"
  shows "live_ok kh (sdb_PrepareAccessList s sender dst precompiles list)" "validRevisions (sdb_PrepareAccessList s sender dst precompiles list) = validRevisions s"
proof -
  let ?P = "\<lambda>t. live_ok kh t \<and> validRevisions t = validRevisions s"
  have add: "?P (sdb_AddAddressToAccessList t a)" if "?P t" for t a using op_ok_AddAddress [of kh t a] that by (simp add: op_ok_def)
  have slot: "?P (sdb_AddSlotToAccessList t a k)" if "?P t" for t a k using op_ok_AddSlot [of kh t a k] that by (simp add: op_ok_def)
  have addrs: "?P (fold (\<lambda>a s. sdb_AddAddressToAccessList s a) as t)" if "?P t" for as t
    using that by (induction as arbitrary: t) (auto simp: add)
  have slots: "?P (fold (\<lambda>k s. sdb_AddSlotToAccessList s a k) ks t)" if "?P t" for ks t a
    using that by (induction ks arbitrary: t) (auto simp: slot)
  have acc: "?P (fold (\<lambda>(a, keys) s. fold (\<lambda>key s. sdb_AddSlotToAccessList s a key) keys (sdb_AddAddressToAccessList s a)) xs t)" if "?P t" for xs t
    using that by (induction xs arbitrary: t) (auto simp: slots add split: prod.split)
  have "?P (s\<lparr>s_accessList := newAccessList\<rparr>)"
    using assms unfolding live_ok_def no_fake by (simp add: objects_ok_def al_ok_def newAccessList_def)
  then have "?P (sdb_PrepareAccessList s sender dst precompiles list)"
    unfolding sdb_PrepareAccessList_def Let_def by (intro acc addrs) (simp add: add split: option.split)
  then show "live_ok kh (sdb_PrepareAccessList s sender dst precompiles list)" "validRevisions (sdb_PrepareAccessList s sender dst precompiles list) = validRevisions s"
    by simp_all
qed

text \<open>The states a database reaches: operations, the end of transactions, copies, and the start of transactions.\<close>

inductive sdb_reach :: "keccak \<Rightarrow> StateDB \<Rightarrow> bool" for kh where
  new: "snap = None \<or> inj (\<lambda>a. kh (addr_bytes a)) \<Longrightarrow> sdb_reach kh (NewStateDB db snap)"
| step: "sdb_reach kh s \<Longrightarrow> exec kh p s = Some t \<Longrightarrow> sdb_reach kh t"
| finalise: "sdb_reach kh s \<Longrightarrow> sdb_reach kh (sdb_Finalise kh s b)"
| copy: "sdb_reach kh s \<Longrightarrow> sdb_reach kh (sdb_Copy s)"
| prepare: "sdb_reach kh s \<Longrightarrow> validRevisions s = [] \<Longrightarrow> sdb_reach kh (sdb_Prepare s thash ti)"
| access: "sdb_reach kh s \<Longrightarrow> validRevisions s = [] \<Longrightarrow> sdb_reach kh (sdb_PrepareAccessList s sender dst precompiles list)"

lemma reach_tracked: "sdb_reach kh s \<Longrightarrow> \<exists>gs. tracked kh gs s"
proof (induction rule: sdb_reach.induct)
  case (new snap db)
  then show ?case using live_new by blast
next
  case (step s p t)
  then show ?case using tracked_exec by metis
next
  case (finalise s b)
  then show ?case using tracked_Finalise by blast
next
  case (copy s)
  then show ?case using live_copy by (auto simp: tracked_def)
next
  case (prepare s thash ti)
  then have "live_ok kh (sdb_Prepare s thash ti)"
    unfolding tracked_def live_ok_def no_fake by (auto simp: sdb_Prepare_def objects_ok_def)
  then show ?case using tracked_live prepare(2) by (fastforce simp: sdb_Prepare_def)
next
  case (access s sender dst precompiles list)
  then have "live_ok kh s" by (auto simp: tracked_def)
  then show ?case using tracked_live live_PrepareAccessList access(2) by metis
qed

lemma reach_live: "sdb_reach kh s \<Longrightarrow> live_ok kh s"
  using reach_tracked by (auto simp: tracked_def)

text \<open>
  C5. Reverting to a snapshot restores the state. Whatever a caller does after taking a snapshot, nested snapshots and
  reverts included, as long as the snapshot is still valid, reverting to it succeeds without a panic
  and restores all that is visible: every account with its balance, nonce, code and storage, the refund counter,
  the logs, the preimages and the access list; the journal, the snapshots before it and the dirty marks
  (but for the one address that the code keeps dirty on purpose) are those of the moment of the snapshot.
\<close>

theorem revert_restores:
  assumes "sdb_reach kh s" and "sdb_Snapshot s = (s1, revid)" and "exec_all kh ops s1 = Some s2"
    and "revid \<in> rev_id ` set (validRevisions s2)"
  shows "\<exists>s3. sdb_RevertToSnapshot kh s2 revid = Some s3 \<and> same kh s3 s \<and> entries (s_journal s3) = entries (s_journal s) \<and>
    validRevisions s3 = validRevisions s \<and>
    (\<forall>a. a \<noteq> ripemd \<longrightarrow> map_of (dirties (s_journal s3)) a = map_of (dirties (s_journal s)) a)"
proof -
  obtain gs where gs: "tracked kh gs s" using reach_tracked [OF assms(1)] by blast
  have s1: "s1 = fst (sdb_Snapshot s)" "revid = nextRevisionId s" using assms(2) by (auto simp: sdb_Snapshot_def Let_def)
  have t1: "tracked kh (gs @ [s]) s1" using tracked_snapshot [OF gs] s1(1) by simp
  obtain gs' where g': "tracked kh gs' s2" "extends_history (gs @ [s]) s1 gs' s2" by (rule tracked_exec_all [OF assms(3) t1])
  have next1: "nextRevisionId s1 = Suc revid" "validRevisions s1 = validRevisions s @ [\<lparr>rev_id = revid, rev_journalIndex = length (entries (s_journal s))\<rparr>]"
    by (simp_all add: s1 sdb_Snapshot_def Let_def)
  have len: "length gs = length (validRevisions s)" and old: "\<And>r. r \<in> set (validRevisions s) \<Longrightarrow> rev_id r < revid"
    using gs s1(2) by (auto simp: tracked_def revisions_ok_def)
  obtain i where i: "i < length (validRevisions s2)" "rev_id (validRevisions s2 ! i) = revid" using assms(4) by (auto simp: in_set_conv_nth)
  have li: "i < length gs'" using g'(1) i(1) by (simp add: tracked_def)
  have keep: "j < length (gs @ [s]) \<and> gs' ! j = (gs @ [s]) ! j \<and> rev_id (validRevisions s2 ! j) = rev_id (validRevisions s1 ! j)" if "j \<le> i" for j
  proof -
    have "rev_id (validRevisions s2 ! j) \<le> revid"
      using sorted_wrt_nth_less [OF tracked_ids [OF g'(1)], of j i] that i by (cases "j = i") auto
    then have "\<not> nextRevisionId s1 \<le> rev_id (validRevisions s2 ! j)" using next1(1) by simp
    moreover have "j < length gs'" using that li by simp
    ultimately show ?thesis using g'(2) by (auto simp: extends_history_def)
  qed
  have il: "i = length gs"
  proof (rule ccontr)
    assume "i \<noteq> length gs"
    then have "i < length (validRevisions s)" using keep [of i] len by simp
    then show False using keep [of i] i(2) old [OF nth_mem, of i] next1(2) by (simp add: nth_append)
  qed
  then have gi: "gs' ! i = s" using keep [of i] by simp
  obtain t where t: "sdb_RevertToSnapshot kh s2 (rev_id (validRevisions s2 ! i)) = Some t" "same kh t (gs' ! i)"
    "entries (s_journal t) = entries (s_journal (gs' ! i))" "validRevisions t = take i (validRevisions s2)" "tracked kh (take i gs') t"
    by (rule tracked_revert [OF g'(1) li])
  have "map_of (dirties (s_journal t)) a = map_of (dirties (s_journal s)) a" if "a \<noteq> ripemd" for a
    using t(3,5) gs gi that by (auto simp: tracked_def live_ok_def dirties_ok_def)
  moreover have "take i (validRevisions s2) = validRevisions s"
  proof (rule nth_equalityI)
    show "length (take i (validRevisions s2)) = length (validRevisions s)" using i(1) il len by simp
    fix j assume "j < length (take i (validRevisions s2))"
    then have j: "j < i" "j < length gs'" "j < length gs" using li il by auto
    have "rev_journalIndex (validRevisions s2 ! j) = rev_journalIndex (validRevisions s ! j)"
      using keep [of j] j gs g'(1) by (auto simp: tracked_def nth_append)
    then show "take i (validRevisions s2) ! j = validRevisions s ! j"
      using keep [of j] j len next1(2) by (auto simp: nth_append)
  qed
  ultimately show ?thesis using t i(2) gi by auto
qed

text \<open>An account with a balance; its storage is written, it is created anew and destroyed, and all is undone.\<close>

definition ex_kh :: keccak where
  "ex_kh bs = word_of_nat (length bs) + 1"

definition ex_db :: database where
  "ex_db = \<lparr>db_Account = Map.empty, db_Storage = (\<lambda>_ _ _. 0), db_Code = (\<lambda>_. [])\<rparr>"

definition ex_state :: StateDB where
  "ex_state = sdb_AddBalance ex_kh (NewStateDB ex_db None) 5 100"

definition ex_ops :: "op list" where
  "ex_ops = [OpSetState 5 1 9, OpCreateAccount 5, OpSuicide 5, OpSnapshot]"

lemma ex_reach: "sdb_reach ex_kh ex_state"
  unfolding ex_state_def by (rule sdb_reach.step [OF sdb_reach.new, where p = "OpAddBalance 5 100"]) simp_all

theorem revert_restores_witness:
  "\<exists>s2 s3. exec_all ex_kh ex_ops (fst (sdb_Snapshot ex_state)) = Some s2 \<and> sdb_RevertToSnapshot ex_kh s2 0 = Some s3 \<and>
     same ex_kh s3 ex_state \<and> validRevisions s3 = []"
proof -
  have id: "nextRevisionId ex_state = 0" "validRevisions ex_state = []"
    using op_ok_balance(1) [OF reach_live [OF sdb_reach.new [of None]], of ex_kh ex_db 5 100] by (simp_all add: ex_state_def op_ok_def NewStateDB_def)
  let ?s1 = "fst (sdb_Snapshot ex_state)"
  let ?s2 = "sdb_SetState ex_kh ?s1 5 1 9"
  let ?s3 = "sdb_CreateAccount ex_kh ?s2 5"
  let ?s4 = "fst (sdb_Suicide ex_kh ?s3 5)"
  have "sdb_reach ex_kh ?s1" by (rule sdb_reach.step [OF ex_reach, of OpSnapshot]) simp
  note 1 = op_ok_set(3) [OF reach_live [OF this], of 5 1 9]
  note 2 = op_ok_CreateAccount [OF op_ok_live [OF 1], of 5]
  note 3 = op_ok_Suicide [OF op_ok_live [OF 2], of 5]
  have "0 \<in> rev_id ` set (validRevisions (fst (sdb_Snapshot ?s4)))"
    using 1 2 3 id by (simp add: op_ok_def) (simp add: sdb_Snapshot_def Let_def)
  moreover have e: "exec_all ex_kh ex_ops ?s1 = Some (fst (sdb_Snapshot ?s4))" by (simp add: ex_ops_def)
  moreover have "sdb_Snapshot ex_state = (?s1, 0)" using id by (simp add: sdb_Snapshot_def Let_def)
  ultimately show ?thesis using revert_restores [OF ex_reach _ e, of 0] id(2) by auto
qed

section \<open>What survives the end of a transaction\<close>

definition dead :: "keccak \<Rightarrow> bool \<Rightarrow> stateObject \<Rightarrow> bool" where
  "dead kh b so \<longleftrightarrow> suicided so \<or> b \<and> obj_empty kh so"

definition fin :: "keccak \<Rightarrow> bool \<Rightarrow> stateObject \<Rightarrow> stateObject" where
  "fin kh b so = (if dead kh b so then so\<lparr>so_deleted := True\<rparr> else obj_finalise so)"

lemma fin_simps [simp]:
  "fin kh b (fin kh b so) = fin kh b so" "dead kh b (fin kh b so) = dead kh b so" "addrHash kh (fin kh b so) = addrHash kh so"
  by (simp_all add: fin_def dead_def obj_empty_def obj_finalise_def addrHash_def)

definition mark :: "keccak \<Rightarrow> bool \<Rightarrow> stateObject option \<Rightarrow> hash set" where
  "mark kh b r = (case r of None \<Rightarrow> {} | Some so \<Rightarrow> if dead kh b so then {addrHash kh so} else {})"

definition marks :: "keccak \<Rightarrow> bool \<Rightarrow> address set \<Rightarrow> StateDB \<Rightarrow> hash set" where
  "marks kh b K s = (if s_snap s = None then {} else \<Union>a\<in>K. mark kh b (stateObjects s a))"

lemma mark_fin: "mark kh b (map_option (fin kh b) r) = mark kh b r"
  by (simp add: mark_def split: option.split)

lemma finalise_object_eq:
  "stateObjects (finalise_object kh b a s) = (stateObjects s)(a := map_option (fin kh b) (stateObjects s a))"
  "s_db (finalise_object kh b a s) = s_db s" "s_snap (finalise_object kh b a s) = s_snap s"
  "snapDestructs (finalise_object kh b a s) = snapDestructs s \<union> marks kh b {a} s"
  by (auto simp: finalise_object_def fin_def dead_def marks_def mark_def upd_object_def Let_def split: option.split)

lemma fold_finalise:
  "let t = fold (\<lambda>(a, _) s. finalise_object kh b a s) ds s; K = fst ` set ds in
   stateObjects t = (\<lambda>a. if a \<in> K then map_option (fin kh b) (stateObjects s a) else stateObjects s a) \<and> s_db t = s_db s \<and> s_snap t = s_snap s \<and>
   snapDestructs t = snapDestructs s \<union> marks kh b K s"
proof (induction ds arbitrary: s)
  case Nil
  show ?case by (simp add: marks_def)
next
  case (Cons d ds)
  obtain a n where d: "d = (a, n)" by (cases d)
  let ?K = "fst ` set ds" and ?s = "finalise_object kh b a s"
  have "mark kh b (stateObjects ?s c) = mark kh b (stateObjects s c)" for c by (simp add: finalise_object_eq mark_fin)
  then have m: "marks kh b ?K ?s = marks kh b ?K s" by (simp add: marks_def finalise_object_eq)
  have u: "marks kh b {a} s \<union> marks kh b ?K s = marks kh b (insert a ?K) s" by (auto simp: marks_def)
  show ?case
    using Cons.IH [of ?s] u by (auto simp: d m Let_def finalise_object_eq option.map_comp o_def fun_eq_iff)
qed

definition touched :: "StateDB \<Rightarrow> address \<Rightarrow> bool" where
  "touched s a \<longleftrightarrow> a \<in> fst ` set (dirties (s_journal s)) \<and> stateObjects s a \<noteq> None"

definition ac_empty :: "keccak \<Rightarrow> account \<Rightarrow> bool" where
  "ac_empty kh ac \<longleftrightarrow> ac_Nonce ac = 0 \<and> ac_Balance ac = 0 \<and> ac_CodeHash ac = emptyCodeHash kh"

lemma account_finalise:
  assumes "fakeStorage so = None"
  shows "account kh s (obj_finalise so) = (account kh s so)\<lparr>ac_Committed := ac_State (account kh s so)\<rparr>"
proof -
  have h: "addrHash kh (obj_finalise so) = addrHash kh so" "readStorage kh s (obj_finalise so) k = readStorage kh s so k" for k
    by (simp add: addrHash_def) (rule readStorage_cong, simp_all add: obj_finalise_def)
  have f: "fakeStorage (obj_finalise so) = None" "pendingStorage (obj_finalise so) = pendingStorage so ++ dirtyStorage so"
    "originStorage (obj_finalise so) = originStorage so" "dirtyStorage (obj_finalise so) = Map.empty"
    using assms by (simp_all add: obj_finalise_def)
  have c: "snd (obj_GetCommittedState kh s (obj_finalise so) k) = snd (obj_GetState kh s so k)" for k
    by (cases "dirtyStorage so k"; cases "pendingStorage so k"; cases "originStorage so k")
      (simp_all add: obj_GetCommittedState_def obj_GetState_def h f assms map_add_def Let_def)
  then have "snd (obj_GetState kh s (obj_finalise so) k) = snd (obj_GetState kh s so k)" for k
    using obj_GetState_def [of kh s "obj_finalise so" k] f by simp
  then show ?thesis using c by (simp add: account_def) (simp add: obj_finalise_def obj_Code_def Let_def split: option.split)
qed

lemma Finalise_eq:
  "stateObjects (sdb_Finalise kh s b) =
     (\<lambda>a. if a \<in> fst ` set (dirties (s_journal s)) then map_option (fin kh b) (stateObjects s a) else stateObjects s a)"
  "s_db (sdb_Finalise kh s b) = s_db s" "s_snap (sdb_Finalise kh s b) = s_snap s"
  "snapDestructs (sdb_Finalise kh s b) = snapDestructs s \<union> marks kh b (fst ` set (dirties (s_journal s))) s"
  using fold_finalise [of kh b "dirties (s_journal s)" s] by (simp_all add: sdb_Finalise_def clearJournalAndRefund_def Let_def)

lemma accounts_Finalise:
  assumes "live_ok kh s"
  shows "\<not> touched s a \<Longrightarrow> accounts kh (sdb_Finalise kh s b) a = accounts kh s a"
    and "touched s a \<Longrightarrow> accounts kh s a = Some ac \<Longrightarrow> ac_suicided ac \<or> b \<and> ac_empty kh ac \<Longrightarrow>
      \<exists>ac'. accounts kh (sdb_Finalise kh s b) a = Some ac' \<and> ac_deleted ac'"
    and "touched s a \<Longrightarrow> accounts kh s a = Some ac \<Longrightarrow> \<not> (ac_suicided ac \<or> b \<and> ac_empty kh ac) \<Longrightarrow>
      accounts kh (sdb_Finalise kh s b) a = Some (ac\<lparr>ac_Committed := ac_State ac\<rparr>)"
proof -
  let ?t = "sdb_Finalise kh s b" and ?K = "fst ` set (dirties (s_journal s))"
  note ob = assms [unfolded live_ok_def, THEN conjunct1]
  have load: "loadAccount kh ?t = loadAccount kh s" by (rule loadAccount_backend) (simp_all add: Finalise_eq)
  have env: "account kh ?t so = account kh s so" if addr: "so_address so = a" and alive: "\<And>so'. a \<in> ?K \<Longrightarrow> stateObjects s a = Some so' \<Longrightarrow> \<not> dead kh b so'" for so a
  proof (rule account_env)
    have "addrHash kh so \<notin> marks kh b ?K s" if snap: "s_snap s \<noteq> None"
    proof
      assume "addrHash kh so \<in> marks kh b ?K s"
      then obtain c so' where c: "c \<in> ?K" "stateObjects s c = Some so'" "dead kh b so'" "addrHash kh so = addrHash kh so'"
        by (auto simp: marks_def mark_def split: option.splits if_splits)
      have "so_address so' = c" "inj (\<lambda>a. kh (addr_bytes a))" using ob c(2) snap by (auto simp: objects_ok_def)
      then have "c = a" using c(4) addr by (auto simp: addrHash_def inj_def)
      then show False using c alive by blast
    qed
    then show "s_snap s = None \<or> (addrHash kh so \<in> snapDestructs ?t \<longleftrightarrow> addrHash kh so \<in> snapDestructs s)" by (auto simp: Finalise_eq)
  qed (simp_all add: Finalise_eq)
  have dead: "dead kh b so \<longleftrightarrow> ac_suicided (account kh s so) \<or> b \<and> ac_empty kh (account kh s so)" for so
    by (simp add: dead_def obj_empty_def ac_empty_def account_def)
  {
    assume t: "\<not> touched s a"
    then have "look kh ?t a = look kh s a" using load by (auto simp: look_def Finalise_eq touched_def split: option.split)
    moreover have "account kh ?t so = account kh s so" if "look kh s a = Some so" for so
      by (rule env [OF look_address [OF ob that]]) (use t in \<open>auto simp: touched_def\<close>)
    ultimately show "accounts kh ?t a = accounts kh s a" by (cases "look kh s a") (simp_all add: accounts_def)
  next
    assume t: "touched s a" "accounts kh s a = Some ac" "ac_suicided ac \<or> b \<and> ac_empty kh ac"
    then obtain so where so: "stateObjects s a = Some so" "ac = account kh s so" by (auto simp: touched_def accounts_def look_def)
    have "dead kh b so" using t(3) so(2) dead by simp
    then have "look kh ?t a = Some (so\<lparr>so_deleted := True\<rparr>)" using t(1) so(1) by (simp add: look_def Finalise_eq touched_def fin_def)
    then show "\<exists>ac'. accounts kh ?t a = Some ac' \<and> ac_deleted ac'" by (simp add: accounts_def account_def)
  next
    assume t: "touched s a" "accounts kh s a = Some ac" "\<not> (ac_suicided ac \<or> b \<and> ac_empty kh ac)"
    then obtain so where so: "stateObjects s a = Some so" "ac = account kh s so" by (auto simp: touched_def accounts_def look_def)
    have nd: "\<not> dead kh b so" using t(3) so(2) dead by simp
    then have lk: "look kh ?t a = Some (obj_finalise so)" using t(1) so(1) by (simp add: look_def Finalise_eq touched_def fin_def)
    have "so_address so = a" using ob so(1) by (auto simp: objects_ok_def)
    then have "account kh ?t (obj_finalise so) = account kh s (obj_finalise so)"
      by (intro env [of _ a]) (use nd so(1) in auto)
    moreover have "fakeStorage so = None" using live_fake [OF assms, of a so] so(1) by (simp add: look_def)
    ultimately show "accounts kh ?t a = Some (ac\<lparr>ac_Committed := ac_State ac\<rparr>)" using lk so(2) account_finalise by (simp add: accounts_def)
  }
qed

text \<open>
  C12. The end of a transaction. Finalise leaves every account that the transaction did not touch as it was.
  Of the accounts it touched, those that destroyed themselves, and, when asked to, those with no nonce, no balance and
  no code, no longer exist; every other one keeps its nonce, balance, code and storage, and what was written in
  the transaction is now its committed storage.
\<close>

theorem Finalise_effect:
  assumes "sdb_reach kh s"
  shows "(\<not> touched s a \<longrightarrow> accounts kh (sdb_Finalise kh s b) a = accounts kh s a) \<and>
    (touched s a \<longrightarrow> (\<exists>ac. accounts kh s a = Some ac \<and>
      (if ac_suicided ac \<or> b \<and> ac_empty kh ac then \<not> snd (sdb_Exist kh (sdb_Finalise kh s b) a)
       else accounts kh (sdb_Finalise kh s b) a = Some (ac\<lparr>ac_Committed := ac_State ac\<rparr>))))"
proof -
  note ok = reach_live [OF assms]
  have ex: "\<not> snd (sdb_Exist kh t a)" if del: "accounts kh t a = Some ac'" "ac_deleted ac'" for t ac'
  proof -
    obtain so where "look kh t a = Some so" "so_deleted so" using del by (auto simp: accounts_def account_def)
    then show ?thesis using accounts_get(1) [of kh t a] by (auto simp: sdb_Exist_def split: prod.split)
  qed
  show ?thesis
  proof (cases "touched s a")
    case False
    then show ?thesis using accounts_Finalise(1) [OF ok] by simp
  next
    case True
    then obtain ac where ac: "accounts kh s a = Some ac" by (auto simp: touched_def accounts_def look_def)
    show ?thesis
    proof (cases "ac_suicided ac \<or> b \<and> ac_empty kh ac")
      case dead: True
      obtain ac' where "accounts kh (sdb_Finalise kh s b) a = Some ac'" "ac_deleted ac'"
        using accounts_Finalise(2) [OF ok True ac dead] by blast
      then show ?thesis using ex True ac dead by auto
    next
      case alive: False
      then show ?thesis using accounts_Finalise(3) [OF ok True ac alive] True ac by auto
    qed
  qed
qed

lemma ex_touched:
  "touched ex_state 5" "\<exists>ac. accounts ex_kh ex_state 5 = Some ac \<and> ac_Balance ac = 100 \<and> \<not> ac_suicided ac"
  by (simp_all add: touched_def accounts_def look_def account_def ex_state_def sdb_AddBalance_def GetOrNewStateObject_def getStateObject_def
      getDeletedStateObject_def loadAccount_def NewStateDB_def ex_db_def createObject_def journal_append_def setStateObject_def newObject_def
      emptyAccount_def obj_AddBalance_def obj_SetBalance_def upd_object_def mark_dirty_def dirty_count_def newJournal_def Let_def)

theorem Finalise_effect_witness:
  "\<exists>ac. accounts ex_kh ex_state 5 = Some ac \<and> ac_Balance ac = 100 \<and>
     accounts ex_kh (sdb_Finalise ex_kh ex_state True) 5 = Some (ac\<lparr>ac_Committed := ac_State ac\<rparr>)"
proof -
  obtain ac where "accounts ex_kh ex_state 5 = Some ac" "ac_Balance ac = 100" "\<not> ac_suicided ac" using ex_touched(2) by blast
  then show ?thesis using Finalise_effect [OF ex_reach, of 5 True] ex_touched(1) by (simp add: ac_empty_def)
qed

end
