(* ===== verification/Sponsor.thy ===== *)
theory Sponsor
  imports Rollback
begin

text \<open>
  The replay nonces of sponsors (src/core/sponsor_state.go), kept in the storage of a registry account that has
  neither nonce nor code, on the journaled state of the theory Journal. The theory says what a write of a storage slot
  does to the accounts, and when such a write outlives the end of the transaction.
\<close>

section \<open>The sponsor registry\<close>

definition SponsorRegistryAddress :: address where
  "SponsorRegistryAddress = 0x110"

definition sponsorNonceSlot :: "keccak \<Rightarrow> address \<Rightarrow> hash" where
  "sponsorNonceSlot kh addr = kh (str_bytes ''tos.sponsor.nonce'' @ addr_bytes addr)"

definition ReadSponsorNonce :: "keccak \<Rightarrow> StateDB \<Rightarrow> address \<Rightarrow> StateDB \<times> u64" where
  "ReadSponsorNonce kh s sponsor =
     (let (s, slot) = sdb_GetState kh s SponsorRegistryAddress (sponsorNonceSlot kh sponsor) in (s, hash_u64 slot))"

definition setSponsorNonce :: "keccak \<Rightarrow> StateDB \<Rightarrow> address \<Rightarrow> u64 \<Rightarrow> StateDB" where
  "setSponsorNonce kh s sponsor nonce =
     sdb_SetState kh s SponsorRegistryAddress (sponsorNonceSlot kh sponsor) (hash_of_u64 nonce)"

section \<open>Reading and writing a slot\<close>

definition lives :: "account option \<Rightarrow> bool" where
  "lives r \<longleftrightarrow> (\<exists>ac. r = Some ac \<and> \<not> ac_deleted ac)"

lemma ac_deleted_account [simp]: "ac_deleted (account kh s so) = so_deleted so"
  by (simp add: account_def)

lemma Exist_iff: "snd (sdb_Exist kh s a) \<longleftrightarrow> lives (accounts kh s a)"
proof -
  obtain s' r where g: "getStateObject kh s a = (s', r)" by (cases "getStateObject kh s a")
  show ?thesis using accounts_get(1) [OF g] by (auto simp: sdb_Exist_def g lives_def accounts_def split: option.splits)
qed

lemma GetState_value:
  "snd (sdb_GetState kh s a k) = (case accounts kh s a of None \<Rightarrow> 0 | Some ac \<Rightarrow> if ac_deleted ac then 0 else ac_State ac k)"
proof -
  obtain s' r where g: "getStateObject kh s a = (s', r)" by (cases "getStateObject kh s a")
  note l = accounts_get [OF g]
  have acc: "accounts kh s a = map_option (account kh s') (look kh s a)"
    using l(2,7) by (cases "look kh s a") (auto simp: accounts_def look_def fun_eq_iff split: option.splits dest!: spec [of _ a])
  show ?thesis
  proof (cases "look kh s a")
    case None
    then show ?thesis using l(1) acc by (simp add: sdb_GetState_def g)
  next
    case (Some so)
    then show ?thesis
      using l(1) acc by (cases "so_deleted so") (simp_all add: sdb_GetState_def g account_def split: prod.split)
  qed
qed

lemma touched_append: "stateObjects s a \<noteq> None \<Longrightarrow> dirtied e = Some a \<Longrightarrow> touched (journal_append e s) a"
  by (simp add: touched_def journal_append_def mark_dirty_def AList.dom_update)

lemma touched_mono: "touched s a \<Longrightarrow> touched (journal_append e s) a" "stateObjects s a \<noteq> None \<Longrightarrow> touched (upd_object c f s) a = touched s a"
  by (auto simp: touched_def journal_append_def mark_dirty_def AList.dom_update upd_object_def split: option.split)

lemma obj_SetState_effect:
  assumes "live_ok kh s" and "stateObjects s a = Some so" and "\<not> so_deleted so"
  shows "accounts kh (obj_SetState kh a k v s) a = Some ((account kh s so)\<lparr>ac_State := (ac_State (account kh s so))(k := v)\<rparr>)"
    and "touched (obj_SetState kh a k v s) a \<longleftrightarrow> touched s a \<or> ac_State (account kh s so) k \<noteq> v"
proof -
  obtain so' prev where c: "obj_GetState kh s so k = (so', prev)" by (cases "obj_GetState kh s so k")
  let ?s = "upd_object a (\<lambda>_. so') s"
  have so': "so' = fst (obj_GetState kh s so k)" "prev = ac_State (account kh s so) k" using c by (simp_all add: account_def)
  have fake: "fakeStorage so = None" using live_fake [OF assms(1), of a so] assms(2) by (simp add: look_def)
  have fake': "fakeStorage so' = None"
    by (simp add: so'(1) obj_GetState_def obj_GetCommittedState_def Let_def fake split: option.split)
  have acc: "account kh s so' = account kh s so" unfolding so' by (rule account_cached)
  have ob: "stateObjects ?s a = Some so'" using assms(2) by (simp add: upd_object_def)
  have eq: "obj_SetState kh a k v s =
      (if prev = v then ?s else upd_object a (obj_setState k v) (journal_append (storageChange a k prev) ?s))"
    using assms(2) c fake by (simp add: obj_SetState_def Let_def)
  have id: "(account kh s so)\<lparr>ac_State := (ac_State (account kh s so))(k := prev)\<rparr> = account kh s so" by (simp add: so'(2))
  have "accounts kh ?s a = Some (account kh s so)" using accounts_upd_object [OF assms(2), of kh "\<lambda>_. so'"] acc by simp
  moreover have "accounts kh (upd_object a (obj_setState k v) (journal_append (storageChange a k prev) ?s)) a =
      Some ((account kh s so)\<lparr>ac_State := (ac_State (account kh s so))(k := v)\<rparr>)"
    using accounts_upd_object [of "journal_append (storageChange a k prev) ?s" a so' kh "obj_setState k v"] ob acc fake'
    by (simp add: account_setState)
  ultimately show "accounts kh (obj_SetState kh a k v s) a = Some ((account kh s so)\<lparr>ac_State := (ac_State (account kh s so))(k := v)\<rparr>)"
    using id by (auto simp: eq)
  have "touched ?s a = touched s a" using assms(2) by (simp add: touched_mono(2))
  moreover have "touched (upd_object a (obj_setState k v) (journal_append (storageChange a k prev) ?s)) a"
    using ob by (simp add: touched_mono(2) touched_append)
  ultimately show "touched (obj_SetState kh a k v s) a \<longleftrightarrow> touched s a \<or> ac_State (account kh s so) k \<noteq> v"
    by (auto simp: eq so'(2))
qed

lemma GetOrNew_lives:
  assumes "accounts kh s a = Some ac" and "\<not> ac_deleted ac"
  obtains so where "stateObjects (GetOrNewStateObject kh s a) a = Some so" "account kh (GetOrNewStateObject kh s a) so = ac"
    "\<not> so_deleted so" "touched (GetOrNewStateObject kh s a) a \<longleftrightarrow> a \<in> fst ` set (dirties (s_journal s))"
proof -
  obtain s' r where g: "getStateObject kh s a = (s', r)" by (cases "getStateObject kh s a")
  note l = accounts_get [OF g]
  obtain so where so: "look kh s a = Some so" using assms(1) by (auto simp: accounts_def)
  have ac: "accounts kh s' a = Some ac" "stateObjects s' a = Some so" using l(2,7) so assms(1) by simp_all
  then have acc: "account kh s' so = ac" by (simp add: accounts_def look_def)
  then have del: "\<not> so_deleted so" using assms(2) by auto
  then have "GetOrNewStateObject kh s a = s'" using l(1) so g by (simp add: GetOrNewStateObject_def)
  then show thesis using that [of so] ac acc del l(4) by (simp add: touched_def)
qed

text \<open>In a trie with the empty root no slot is set.\<close>

definition empty_trie :: "database \<Rightarrow> address \<Rightarrow> bool" where
  "empty_trie db a \<longleftrightarrow> (\<forall>k. db_Storage db a emptyRoot k = 0)"

lemma fresh_account:
  "ac_Nonce (account kh s (newObject kh a emptyAccount)) = 0" "ac_Balance (account kh s (newObject kh a emptyAccount)) = 0"
  "ac_CodeHash (account kh s (newObject kh a emptyAccount)) = emptyCodeHash kh"
  by (simp_all add: account_def newObject_def emptyAccount_def)

lemma fresh_storage:
  assumes "empty_trie (s_db s) a" and "s_snap s = None \<or> kh (addr_bytes a) \<in> snapDestructs s"
  shows "ac_State (account kh s (newObject kh a emptyAccount)) k = 0"
  using assms
  by (auto simp: account_def newObject_def emptyAccount_def obj_GetState_def obj_GetCommittedState_def readStorage_def
      addrHash_def empty_trie_def Let_def)

lemma GetOrNew_fresh:
  assumes "live_ok kh s" and "\<not> lives (accounts kh s a)" and "empty_trie (s_db s) a"
  defines "t \<equiv> GetOrNewStateObject kh s a"
  shows "stateObjects t a = Some (newObject kh a emptyAccount)"
    and "touched t a \<or> (\<forall>k. ac_State (account kh t (newObject kh a emptyAccount)) k = 0)"
proof -
  obtain s1 r where g: "getStateObject kh s a = (s1, r)" by (cases "getStateObject kh s a")
  note l = accounts_get [OF g]
  have ok: "objects_ok kh s1" using l(8) assms(1) by (simp add: live_ok_def)
  have r: "r = None" using l(1) assms(2) by (auto simp: lives_def accounts_def split: option.splits)
  obtain s2 q where c: "createObject kh s1 a = (s2, q)" by (cases "createObject kh s1 a")
  have t: "t = s2" by (simp add: t_def GetOrNewStateObject_def g r c)
  show new: "stateObjects t a = Some (newObject kh a emptyAccount)" using createObject_ok(2) [OF c ok] t by simp
  have db: "empty_trie (s_db s1) a" using assms(3) l(3) by (simp add: rest_eq)
  show "touched t a \<or> (\<forall>k. ac_State (account kh t (newObject kh a emptyAccount)) k = 0)"
    using c
  proof (cases rule: createObject_cases)
    case (new s3)
    have "a \<in> fst ` set (dirties (s_journal s2))"
      by (simp add: new(4) setStateObject_def journal_append_def mark_dirty_def AList.dom_update)
    then show ?thesis using \<open>stateObjects t a = _\<close> t by (simp add: touched_def)
  next
    case (reset s3 p s4)
    note l3 = accounts_load [OF reset(2)]
    have "empty_trie (s_db s2) a" using db l3(3) by (simp add: rest_eq reset(4,5) setStateObject_def journal_append_def)
    moreover have "addrHash kh p = kh (addr_bytes a)" using look_address [OF ok reset(1)] by (simp add: addrHash_def)
    then have "s_snap s2 = None \<or> kh (addr_bytes a) \<in> snapDestructs s2"
      by (simp add: reset(4,5) setStateObject_def journal_append_def)
    ultimately show ?thesis using fresh_storage t by blast
  qed
qed

section \<open>What a write of a slot leaves behind\<close>

lemma SetState_kept:
  assumes "live_ok kh s" and "accounts kh s a = Some ac" and "\<not> ac_deleted ac" "\<not> ac_suicided ac" "\<not> ac_empty kh ac"
  shows "snd (sdb_GetState kh (sdb_Finalise kh (sdb_SetState kh s a k v) b) a j) = (if j = k then v else ac_State ac j)"
proof -
  let ?t = "GetOrNewStateObject kh s a" and ?u = "sdb_SetState kh s a k v" and ?ac = "ac\<lparr>ac_State := (ac_State ac)(k := v)\<rparr>"
  obtain so where so: "stateObjects ?t a = Some so" "account kh ?t so = ac" "\<not> so_deleted so"
    by (rule GetOrNew_lives [OF assms(2,3)])
  obtain so0 where "op_ok kh s ?t" by (rule op_ok_GetOrNew [OF assms(1)])
  note e = obj_SetState_effect(1) [OF op_ok_live [OF this] so(1,3), of k v]
  have u: "accounts kh ?u a = Some ?ac" using e so(2) by (simp add: sdb_SetState_def)
  note ok = op_ok_live [OF op_ok_set(3) [OF assms(1), of a k v]]
  have n: "\<not> (ac_suicided ?ac \<or> b \<and> ac_empty kh ?ac)" using assms(4,5) by (simp add: ac_empty_def)
  have "\<exists>ac'. accounts kh (sdb_Finalise kh ?u b) a = Some ac' \<and> ac_State ac' = (ac_State ac)(k := v) \<and> \<not> ac_deleted ac'"
    using accounts_Finalise(1) [OF ok, of a b] accounts_Finalise(3) [OF ok _ u n] u assms(3) by (cases "touched ?u a") auto
  then show ?thesis by (auto simp: GetState_value)
qed

lemma SetState_lost:
  assumes "live_ok kh s" and "\<not> lives (accounts kh s a)" and "empty_trie (s_db s) a"
  shows "snd (sdb_GetState kh (sdb_Finalise kh (sdb_SetState kh s a k v) True) a j) = 0"
proof -
  let ?t = "GetOrNewStateObject kh s a" and ?u = "sdb_SetState kh s a k v"
  let ?so = "newObject kh a emptyAccount" let ?ac = "account kh ?t ?so"
  note f = GetOrNew_fresh [OF assms]
  obtain so0 where "op_ok kh s ?t" by (rule op_ok_GetOrNew [OF assms(1)])
  note e = obj_SetState_effect [OF op_ok_live [OF this] f(1), of k v]
  have u: "accounts kh ?u a = Some (?ac\<lparr>ac_State := (ac_State ?ac)(k := v)\<rparr>)"
    using e(1) by (simp add: sdb_SetState_def newObject_def)
  have t: "touched ?u a \<longleftrightarrow> touched ?t a \<or> ac_State ?ac k \<noteq> v" using e(2) by (simp add: sdb_SetState_def newObject_def)
  note ok = op_ok_live [OF op_ok_set(3) [OF assms(1), of a k v]]
  show ?thesis
  proof (cases "touched ?u a")
    case True
    have "ac_empty kh (?ac\<lparr>ac_State := (ac_State ?ac)(k := v)\<rparr>)" by (simp add: ac_empty_def fresh_account)
    then obtain ac' where "accounts kh (sdb_Finalise kh ?u True) a = Some ac'" "ac_deleted ac'"
      using accounts_Finalise(2) [OF ok True u, of True] by auto
    then show ?thesis by (simp add: GetState_value)
  next
    case False
    then have "ac_State ?ac = (\<lambda>_. 0)" "v = 0" using f(2) t by auto
    then show ?thesis using accounts_Finalise(1) [OF ok False, of True] u by (simp add: GetState_value)
  qed
qed

lemma Empty_HasSuicided:
  "snd (sdb_Empty kh s a) \<longleftrightarrow> (\<forall>ac. accounts kh s a = Some ac \<longrightarrow> \<not> ac_deleted ac \<longrightarrow> ac_empty kh ac)"
  "snd (sdb_HasSuicided kh s a) \<longleftrightarrow> (\<exists>ac. accounts kh s a = Some ac \<and> \<not> ac_deleted ac \<and> ac_suicided ac)"
proof -
  obtain s' r where g: "getStateObject kh s a = (s', r)" by (cases "getStateObject kh s a")
  have e: "ac_empty kh (account kh s so) = obj_empty kh so" "ac_suicided (account kh s so) = suicided so" for so
    by (simp_all add: ac_empty_def obj_empty_def account_def)
  show "snd (sdb_Empty kh s a) \<longleftrightarrow> (\<forall>ac. accounts kh s a = Some ac \<longrightarrow> \<not> ac_deleted ac \<longrightarrow> ac_empty kh ac)"
    "snd (sdb_HasSuicided kh s a) \<longleftrightarrow> (\<exists>ac. accounts kh s a = Some ac \<and> \<not> ac_deleted ac \<and> ac_suicided ac)"
    using accounts_get(1) [OF g] by (auto simp: sdb_Empty_def sdb_HasSuicided_def g e accounts_def split: option.splits)
qed

text \<open>The write within the transaction, whether or not the account exists.\<close>

lemma SetState_read:
  assumes "live_ok kh s"
  shows "snd (sdb_GetState kh (sdb_SetState kh s a k v) a k) = v"
proof -
  obtain so where so: "op_ok kh s (GetOrNewStateObject kh s a)" "stateObjects (GetOrNewStateObject kh s a) a = Some so" "\<not> so_deleted so"
    by (rule op_ok_GetOrNew [OF assms])
  show ?thesis using obj_SetState_effect(1) [OF op_ok_live [OF so(1)] so(2,3), of k v] so(3) by (simp add: GetState_value sdb_SetState_def)
qed

lemma ReadSponsorNonce_value:
  "snd (ReadSponsorNonce kh s a) = hash_u64 (snd (sdb_GetState kh s SponsorRegistryAddress (sponsorNonceSlot kh a)))"
  by (simp add: ReadSponsorNonce_def split: prod.split)

text \<open>
  C39. The replay nonce of a sponsor. Within the transaction the nonce that was stored is read back. Whether it is
  still there when the transaction ends depends on the registry account: where the account has a balance (or a nonce
  or code), the nonce stays; where it does not exist, which is how the registry starts, Finalise removes the account
  that the write created, with its storage, and the next read is 0 again.
\<close>

theorem sponsor_nonce_after_transaction:
  assumes "sdb_reach kh s" and "empty_trie (s_db s) SponsorRegistryAddress"
  shows "snd (ReadSponsorNonce kh (setSponsorNonce kh s sponsor n) sponsor) = n \<and>
    (snd (sdb_Exist kh s SponsorRegistryAddress) \<and> \<not> snd (sdb_Empty kh s SponsorRegistryAddress) \<and>
       \<not> snd (sdb_HasSuicided kh s SponsorRegistryAddress) \<longrightarrow>
     snd (ReadSponsorNonce kh (sdb_Finalise kh (setSponsorNonce kh s sponsor n) True) sponsor) = n) \<and>
    (\<not> snd (sdb_Exist kh s SponsorRegistryAddress) \<longrightarrow>
     snd (ReadSponsorNonce kh (sdb_Finalise kh (setSponsorNonce kh s sponsor n) True) sponsor) = 0)"
proof -
  note ok = reach_live [OF assms(1)]
  have zero: "hash_u64 0 = 0" by (simp add: hash_u64_def)
  have "hash_u64 (hash_of_u64 n) = n" using u64_codec.dec_enc by simp
  then show ?thesis
    using SetState_read [OF ok] SetState_kept [OF ok] SetState_lost [OF ok _ assms(2)] zero
    by (auto simp: ReadSponsorNonce_value setSponsorNonce_def Exist_iff Empty_HasSuicided lives_def)
qed

lemma ex_registry:
  "sdb_reach ex_kh (NewStateDB ex_db None)" "empty_trie (s_db (NewStateDB ex_db None)) SponsorRegistryAddress"
  "\<not> snd (sdb_Exist ex_kh (NewStateDB ex_db None) SponsorRegistryAddress)"
  by (rule sdb_reach.new; simp) (simp_all add: NewStateDB_def ex_db_def empty_trie_def Exist_iff lives_def accounts_def look_def loadAccount_def)

theorem sponsor_nonce_after_transaction_witness:
  "snd (ReadSponsorNonce ex_kh (sdb_Finalise ex_kh (setSponsorNonce ex_kh (NewStateDB ex_db None) 7 1) True) 7) = 0 \<and>
   snd (ReadSponsorNonce ex_kh (setSponsorNonce ex_kh (NewStateDB ex_db None) 7 1) 7) = 1"
  using sponsor_nonce_after_transaction [OF ex_registry(1,2), of 7 1] ex_registry(3) by simp

end
