(* ===== verification/Spec2Isabelle.thy ===== *)
theory Spec2Isabelle
  imports Params StateDB SysAction Validator RLP RLPStream Types Snapshot AccountSigner Checkpoint Engine Replay Finality Runs Headers Certificates
    Rollback Sponsor
begin

text \<open>
  A verification development of gtos, the Go node of the TOS network (sources under src/). It models how the chain
  decides which blocks are valid and final, and the state that the decision rests on: the consensus engine with its
  encodings, the registries it reads from the state, and the journaled state database on which transactions run.

  \<^bold>\<open>The parts and how they interact.\<close> Validators register and lock stake by system actions (src/validator), accounts register
  the keys they sign with (src/accountsigner); both keep their data in storage slots of the state. At each epoch block the engine
  (src/consensus/dpos) reads the active validators from the state into a snapshot. Every block is sealed by a validator of the
  snapshot whose turn it is, or who has not sealed recently. Validators also sign votes for checkpoints; a block carries a certificate of a
  quorum of votes for an earlier checkpoint, and once such a block is canonical, the checkpoint is final. Headers, votes, certificates
  and evidence (src/core/types) are hashed and exchanged in RLP (src/rlp). Transactions change accounts through the state
  database (src/core/state), which journals every change so that a failed call can be undone.

  \<^bold>\<open>Types and parameters.\<close> Integers of the code that can wrap are words (uint64 is a 64 word, hashes and the 32-byte addresses
  are 256 words); big.Int is int; lengths and counters that the code cannot make wrap are nat. An error return is None or a value of an error
  datatype; a panic or nil dereference is None. What is not in the repository is a parameter: \<open>kh\<close> for
  Keccak256, \<open>verify\<close> for ed25519 verification, \<open>curves\<close> for the parsing of other public keys, \<open>signFn\<close> for the
  wallet. Hash functions are never assumed injective: theorems that need it assume that there is no collision on the finitely
  many inputs at hand. The exception is a state database with a flat snapshot layer, which keys accounts by the hash of their address.

  \<^bold>\<open>The theories.\<close>

  \<^item> Prelude: bytes, hashes, addresses (src/common/types.go), big-endian numbers, the order of addresses, sort.Slice,
    and the contract of a comparison function (locale strict_weak_order), interpreted for every sort of the code.

  \<^item> Params: ChainConfig and DPoSConfig with normalisation and validation (src/params/config.go) and the constants used. Shown: a
    repairable configuration conflict is repaired by rewinding to the height that it reports.

  \<^item> StateDB: the interface of src/core/vmtypes as the registries use it, its laws as the locale state_db, and the encodings of a
    number in a slot (locale word_codec). SysAction: the context of a system action (src/sysaction).

  \<^item> Validator: src/validator (state.go, handler.go). The handlers refine an abstract registry of one entry per address. Shown: the
    registry invariant in every reachable state, that a withdrawal succeeds, the active set, the maintenance window.

  \<^item> RLP: the encoder buffer and the raw reader (src/rlp/encbuffer.go, encode.go, raw.go) against the recursive definition of the
    encoding. RLPStream: the pull parser (src/rlp/decode.go), which accepts exactly the canonical encodings.

  \<^item> Types: headers, votes, certificates, evidence (src/core/types). Shown: what the signing hash of a vote binds, soundness and
    completeness of evidence.

  \<^item> Snapshot: src/consensus/dpos/snapshot.go and the seal and slot functions of dpos.go. Shown: the recency
    rule over whole chains, that headers sealed in turn are accepted, that turns are fair, the epoch list parser, what a seal covers.

  \<^item> AccountSigner: src/accountsigner (state.go, crypto.go, handler.go). Shown: the round trips through storage and through the
    signature metadata.

  \<^item> Checkpoint: the vote pool, quorums, signer sets and the record of signed checkpoints (finality_pool.go, signer_set.go,
    signed_checkpoints.go). Shown: AddVote refines a map of first votes, and at most one hash per height gathers
    a quorum in a pool.

  \<^item> Engine: the engine itself (dpos.go): New, Authorize, snapshot, verifyHeader and VerifyHeaders, verifySeal, verifyCheckpointQCFull,
    assembleCheckpointQC, HandleIncomingVote, maybeProduceCheckpointVote, RestartGossip, VerifyEpochExtra, VerifyFinalizedState,
    OnCanonicalBlock. A call is a function from the engine (the record DPoS, database included) to the engine and its result.

  \<^item> Scenario and ScenarioEngine: a concrete chain with two forks, on which theorems about the engine are instantiated.

  \<^item> Replay: the cached snapshot lookup equals replaying every header from genesis. Finality: what a verified certificate proves;
    two conflicting ones convict a third of the validators. Steps: what each call does to the state that finality depends on.
    Runs: the step relation of a node (calls of the engine, forgetting caches, restarts, writes of the chain) and, for every run,
    that the finalised block is certified, that finality is not taken back and that no two votes sent conflict. Headers: what an
    accepted header is, the gas limit rule, the loops over parent links. Certificates: assembled certificates verify.

  \<^item> Journal: src/core/state (access_list.go, journal.go, state_object.go, and of statedb.go all that a transaction uses, with
    Snapshot, RevertToSnapshot, Finalise and Copy). The backing tries, the flat snapshot and the code store are lookup functions.
    Revert: what is visible of a state (accounts, slots, logs, refund, preimages, access list; not the read caches), and that every operation
    is undone by the entries that it journals. Revisions: sequences of operations and the search for a revision. Rollback: reverting restores
    the visible state in every reachable state, and what survives Finalise. Sponsor: the sponsor nonces of
    src/core/sponsor_state.go, which do not outlive a transaction while the registry account is empty.

  \<^bold>\<open>Loops and bounds.\<close> Loops over lists are structural. The loops that follow parent links take the number of the header
    they start from as fuel, because every turn lowers it by one: it is shown that they end within that many lookups and satisfy
    the equations of the unbounded loops. Lengths of encodings are assumed below the limits that the byte counts of RLP can express, and header
    numbers and times below the bounds named in each theorem, where the code's arithmetic would wrap.

  \<^bold>\<open>What is not modelled.\<close> Goroutines, locks, timers and the network (p2p, tos, miner, rpc): a call of the engine is atomic, and
  runs order calls in any way. Sealing, because it is a timer around the vote production that is modelled. Disk access and the Merkle tries
  (trie, tosdb, core/rawdb), whose contents are records of tables or lookup functions, and with them Commit and IntermediateRoot. The
  contract virtual machine (core/vm), message execution, privacy transactions (core/priv), the transaction pool and parallel execution.
  The registries other than validators, account signers and sponsor nonces. Reflection (RLP of arbitrary Go types, JSON): values are built and
  payloads arrive decoded.
\<close>

end
